(* ===== verification/Reac_Prelude.thy ===== *)
theory Reac_Prelude
  imports Main "HOL-Library.Word" "HOL-Library.Monad_Syntax" "HOL-Library.Signed_Division"
begin

text \<open>
  Shared vocabulary of the development: the fixed-width types of the C sources, the
  fragment of C semantics they use, and the generic lemmas on byte buffers, counted
  loops and words that carry the component proofs.

  A C function whose execution could be undefined (an access outside a buffer, an
  overflow of a signed \<open>int\<close>, a division by zero) is modelled by a function into
  \<open>'a option\<close>: \<open>None\<close> is undefined behaviour, and a theorem \<open>f x = Some y\<close> says both
  that the execution is defined and what it produces.  Buffers are lists; \<open>rd\<close>, \<open>wr\<close>
  and \<open>memcpy\<close> check every index.  An index expression that overflowed \<open>int\<close> would be far
  outside every buffer of the program, so the bounds check subsumes that overflow; where
  the result of signed arithmetic is not an index it is passed through \<open>c_int\<close>.
\<close>

unbundle bit_operations_syntax

named_theorems cbuf "access, length and layout facts on byte buffers"
named_theorems cnum "numeric facts on C integers and words"

subsection \<open>Types\<close>

type_synonym byte = "8 word"
type_synonym u16 = "16 word"
type_synonym u32 = "32 word"
type_synonym u64 = "64 word"

subsection \<open>Signed integer arithmetic\<close>

definition c_int :: "int \<Rightarrow> int option" where
  "c_int x = (if - (2 ^ 31) \<le> x \<and> x < 2 ^ 31 then Some x else None)"

text \<open>Division truncates towards zero and is undefined for a zero divisor.\<close>

definition c_div :: "int \<Rightarrow> int \<Rightarrow> int option" where
  "c_div a b = (if b = 0 then None else c_int (a sdiv b))"

text \<open>The conversion of a wider signed value to \<open>int32_t\<close> keeps its low 32 bits.\<close>

definition to_i32 :: "int \<Rightarrow> int" where
  "to_i32 x = sint (word_of_int x :: u32)"

lemma c_int_Some [simp]: "- 2147483648 \<le> x \<Longrightarrow> x \<le> 2147483647 \<Longrightarrow> c_int x = Some x"
  by (simp add: c_int_def)

lemma c_int_None [simp]: "2147483647 < x \<Longrightarrow> c_int x = None"
  by (simp add: c_int_def)

lemma c_int_SomeD: "c_int x = Some y \<Longrightarrow> y = x \<and> - (2 ^ 31) \<le> x \<and> x < 2 ^ 31"
  by (auto simp: c_int_def split: if_splits)

lemma c_div_pos: "0 \<le> a \<Longrightarrow> a \<le> 2147483647 \<Longrightarrow> 0 < b \<Longrightarrow> c_div a b = Some (a div b)"
proof -
  assume a: "0 \<le> a" "a \<le> 2147483647" and b: "0 < b"
  have "a sdiv b = a div b"
    using a b by (cases "a = 0") (simp_all add: signed_divide_int_def sgn_if)
  moreover have "0 \<le> a div b" "a div b \<le> 2147483647"
    using a b by (simp_all add: pos_imp_zdiv_nonneg_iff) (smt (verit) div_by_1 zdiv_mono2)
  ultimately show ?thesis
    using b by (simp add: c_div_def)
qed

lemma to_i32_id [simp]: "- 2147483648 \<le> x \<Longrightarrow> x \<le> 2147483647 \<Longrightarrow> to_i32 x = x"
  by (simp add: to_i32_def signed_of_int signed_take_bit_int_eq_self)

subsection \<open>Buffers\<close>

definition rd :: "'a list \<Rightarrow> nat \<Rightarrow> 'a option" where
  "rd xs i = (if i < length xs then Some (xs ! i) else None)"

definition wr :: "'a list \<Rightarrow> nat \<Rightarrow> 'a \<Rightarrow> 'a list option" where
  "wr xs i v = (if i < length xs then Some (xs[i := v]) else None)"

definition chunk :: "'a list \<Rightarrow> nat \<Rightarrow> nat \<Rightarrow> 'a list" where
  "chunk xs off n = take n (drop off xs)"

text \<open>\<open>blit xs off ys\<close> is \<open>xs\<close> with the bytes from \<open>off\<close> on overwritten by \<open>ys\<close>.\<close>

definition blit :: "'a list \<Rightarrow> nat \<Rightarrow> 'a list \<Rightarrow> 'a list" where
  "blit xs off ys = take off xs @ ys @ drop (off + length ys) xs"

definition memcpy :: "'a list \<Rightarrow> nat \<Rightarrow> 'a list \<Rightarrow> nat \<Rightarrow> nat \<Rightarrow> 'a list option" where
  "memcpy dst doff src soff n =
     (if soff + n \<le> length src \<and> doff + n \<le> length dst
      then Some (blit dst doff (chunk src soff n)) else None)"

definition memset :: "'a list \<Rightarrow> nat \<Rightarrow> 'a \<Rightarrow> nat \<Rightarrow> 'a list option" where
  "memset dst doff v n =
     (if doff + n \<le> length dst then Some (blit dst doff (replicate n v)) else None)"

lemma rd_Some [simp, cbuf]: "i < length xs \<Longrightarrow> rd xs i = Some (xs ! i)"
  by (simp add: rd_def)

lemma rd_None [simp]: "length xs \<le> i \<Longrightarrow> rd xs i = None"
  by (simp add: rd_def)

lemma wr_Some [cbuf]: "i < length xs \<Longrightarrow> wr xs i v = Some (xs[i := v])"
  by (simp add: wr_def)

lemma length_chunk [simp]: "length (chunk xs off n) = min n (length xs - off)"
  by (simp add: chunk_def)

lemma nth_chunk [simp]: "i < n \<Longrightarrow> off + i < length xs \<Longrightarrow> chunk xs off n ! i = xs ! (off + i)"
  by (simp add: chunk_def)

lemma chunk_chunk [cbuf]: "b + n \<le> m \<Longrightarrow> chunk (chunk xs a m) b n = chunk xs (a + b) n"
  by (simp add: chunk_def drop_take min_def add.commute)

lemma chunk_all [simp]: "chunk xs 0 (length xs) = xs"
  by (simp add: chunk_def)

lemma chunk_append1 [cbuf]: "off + n \<le> length xs \<Longrightarrow> chunk (xs @ ys) off n = chunk xs off n"
  by (simp add: chunk_def)

lemma chunk_append2 [cbuf]: "length xs \<le> off \<Longrightarrow> chunk (xs @ ys) off n = chunk ys (off - length xs) n"
  by (simp add: chunk_def)

lemma chunk_adjacent: "chunk xs off m @ chunk xs (off + m) n = chunk xs off (m + n)"
  by (simp add: chunk_def take_add add.commute)

lemma chunk3 [cbuf]:
  "off + 3 \<le> length xs \<Longrightarrow> chunk xs off 3 = [xs ! off, xs ! (off + 1), xs ! (off + 2)]"
  by (rule nth_equalityI) (auto simp: less_Suc_eq numeral_3_eq_3)

lemma length_blit [simp, cbuf]:
  "off + length ys \<le> length xs \<Longrightarrow> length (blit xs off ys) = length xs"
  by (simp add: blit_def)

lemma blit_Nil [simp]: "blit xs off [] = xs"
  by (simp add: blit_def)

lemma blit_full: "length ys = length xs \<Longrightarrow> blit xs 0 ys = ys"
  by (simp add: blit_def)

lemma blit_prefix: "blit xs 0 ys = ys @ drop (length ys) xs"
  by (simp add: blit_def)

lemma take_blit: "take (length ys) (blit xs 0 ys) = ys"
  by (simp add: blit_prefix)

lemma blit_adjacent:
  "off + length ys \<le> length xs \<Longrightarrow>
     blit (blit xs off ys) (off + length ys) zs = blit xs off (ys @ zs)"
  by (simp add: blit_def add_ac)

lemma nth_blit:
  "off + length ys \<le> length xs \<Longrightarrow> i < length xs \<Longrightarrow>
     blit xs off ys ! i = (if off \<le> i \<and> i < off + length ys then ys ! (i - off) else xs ! i)"
  by (auto simp: blit_def nth_append)

lemma chunk_blit_same:
  "off + length ys \<le> length xs \<Longrightarrow> n = length ys \<Longrightarrow> chunk (blit xs off ys) off n = ys"
  by (simp add: blit_def chunk_def)

lemma chunk_blit_disjoint:
  assumes "off + length ys \<le> length xs" and "a + n \<le> off \<or> off + length ys \<le> a"
    and "a + n \<le> length xs"
  shows "chunk (blit xs off ys) a n = chunk xs a n"
  by (rule nth_equalityI) (use assms in \<open>auto simp: nth_blit\<close>)

lemma chunk_blit_inside:
  assumes "off + length ys \<le> length xs" and "a + n \<le> length ys"
  shows "chunk (blit xs off ys) (off + a) n = chunk ys a n"
  by (rule nth_equalityI) (use assms in \<open>auto simp: nth_blit\<close>)

lemma wr_blit: "off < length xs \<Longrightarrow> wr xs off v = Some (blit xs off [v])"
  by (simp add: wr_def blit_def upd_conv_take_nth_drop)

lemma upd3_blit [cbuf]:
  "d + 3 \<le> length xs \<Longrightarrow> xs[d := x, Suc d := y, Suc (Suc d) := z] = blit xs d [x, y, z]"
proof -
  assume d: "d + 3 \<le> length xs"
  have one: "ys[i := v] = blit ys i [v]" if "i < length ys" for ys :: "'a list" and i v
    using that by (simp add: blit_def upd_conv_take_nth_drop)
  have "xs[d := x, Suc d := y, Suc (Suc d) := z]
      = blit (blit (blit xs d [x]) (Suc d) [y]) (Suc (Suc d)) [z]"
    using d by (simp add: one)
  then show ?thesis
    using d blit_adjacent[of d "[x]" xs "[y]"] blit_adjacent[of d "[x, y]" xs "[z]"] by simp
qed

lemma memcpy_Some [cbuf]:
  "soff + n \<le> length src \<Longrightarrow> doff + n \<le> length dst \<Longrightarrow>
     memcpy dst doff src soff n = Some (blit dst doff (chunk src soff n))"
  by (simp add: memcpy_def)

subsection \<open>Words from bytes\<close>

lemma unat_bound [cnum]:
  "unat (a :: byte) < 256" "unat (b :: u16) < 65536" "unat (c :: u32) < 4294967296"
  using unsigned_less[of a, where ?'a = nat] unsigned_less[of b, where ?'a = nat]
    unsigned_less[of c, where ?'a = nat] by simp_all

lemma unat_ucast_byte [cnum]:
  "unat (ucast (a :: byte) :: u16) = unat a" "unat (ucast (a :: byte) :: u32) = unat a"
  using unat_bound(1)[of a] by (simp_all add: unsigned_ucast_eq take_bit_nat_eq_self)

lemma le16_value [cnum]:
  "unat ((ucast (a :: byte) :: u16) OR push_bit 8 (ucast (b :: byte))) = unat a + 256 * unat b"
proof -
  have "(ucast a :: u16) OR push_bit 8 (ucast b) = ucast a + push_bit 8 (ucast b)"
    by (rule disjunctive_add [symmetric]) (auto simp: bit_simps dest: bit_imp_le_length)
  moreover have "unat (push_bit 8 (ucast b) :: u16) = 256 * unat b"
    using unat_bound(1)[of b] by (simp add: push_bit_eq_mult unat_word_ariths unat_ucast_byte)
  ultimately show ?thesis
    using unat_bound(1)[of a] unat_bound(1)[of b] by (simp add: unat_word_ariths unat_ucast_byte)
qed

text \<open>The value of a big-endian byte string, and the bytes a word is written as.\<close>

definition be_nat :: "byte list \<Rightarrow> nat" where
  "be_nat bs = foldl (\<lambda>a b. a * 256 + unat b) 0 bs"

lemma byte_of_word [cnum]:
  "unat (ucast (drop_bit n (w :: u16)) :: byte) = unat w div 2 ^ n mod 256"
  "unat (ucast (drop_bit n (x :: u32)) :: byte) = unat x div 2 ^ n mod 256"
  "unat (ucast (w AND 255) :: byte) = unat w mod 256"
  "unat (ucast (x AND 255) :: byte) = unat x mod 256"
proof -
  show "unat (ucast (drop_bit n w) :: byte) = unat w div 2 ^ n mod 256"
    "unat (ucast (drop_bit n x) :: byte) = unat x div 2 ^ n mod 256"
    using unat_bound(2)[of w] unat_bound(3)[of x]
    unfolding unsigned_ucast_eq unsigned_drop_bit_eq by (simp_all add: take_bit_eq_mod drop_bit_eq_div)
  have "w AND 255 = take_bit 8 w" "x AND 255 = take_bit 8 x" by (simp_all add: take_bit_eq_mask mask_eq_exp_minus_1)
  then show "unat (ucast (w AND 255) :: byte) = unat w mod 256"
    "unat (ucast (x AND 255) :: byte) = unat x mod 256"
    by (simp_all only: unsigned_ucast_eq unsigned_take_bit_eq) (simp_all add: take_bit_eq_mod)
qed

lemma be_nat_u16: "be_nat [ucast (drop_bit 8 w), ucast (w AND 255)] = unat (w :: u16)"
  using unat_bound(2)[of w] by (simp add: be_nat_def byte_of_word)

lemma be_nat_u32:
  "be_nat [ucast (drop_bit 24 w), ucast (drop_bit 16 w), ucast (drop_bit 8 w), ucast (w AND 255)]
     = unat (w :: u32)"
proof -
  let ?n = "unat w"
  have "?n div 16777216 mod 256 = ?n div 16777216" using unat_bound(3)[of w] by simp
  moreover have "?n div 16777216 * 256 + ?n div 65536 mod 256 = ?n div 65536"
    using div_mult_mod_eq[of "?n div 65536" 256] by (simp add: div_mult2_eq[symmetric])
  moreover have "?n div 65536 * 256 + ?n div 256 mod 256 = ?n div 256"
    using div_mult_mod_eq[of "?n div 256" 256] by (simp add: div_mult2_eq[symmetric])
  ultimately show ?thesis by (simp add: be_nat_def byte_of_word)
qed

subsection \<open>Sequencing\<close>

lemma bind_some2:
  assumes "m \<bind> f = Some r" obtains a b where "m = Some (a, b)"
  using assms by (cases m) auto

lemma bind_some3:
  assumes "m \<bind> f = Some r" obtains a b c where "m = Some (a, b, c)"
  using assms by (cases m) auto

lemma bind_some4:
  assumes "m \<bind> f = Some r" obtains a b c d where "m = Some (a, b, c, d)"
  using assms by (cases m) auto

subsection \<open>Counted loops\<close>

text \<open>\<open>forn n body s\<close> is \<open>for (i = 0; i < n; i++) body\<close> on the state \<open>s\<close>.\<close>

primrec forn :: "nat \<Rightarrow> (nat \<Rightarrow> 's \<Rightarrow> 's option) \<Rightarrow> 's \<Rightarrow> 's option" where
  "forn 0 body s = Some s"
| "forn (Suc n) body s = forn n body s \<bind> body n"

text \<open>Total correctness of a counted loop from an invariant.\<close>

lemma forn_rule:
  assumes "P 0 s"
    and "\<And>i t. i < n \<Longrightarrow> P i t \<Longrightarrow> \<exists>t'. body i t = Some t' \<and> P (Suc i) t'"
  shows "\<exists>t. forn n body s = Some t \<and> P n t"
  using assms
proof (induction n)
  case 0
  then show ?case by simp
next
  case (Suc n)
  then obtain t where "forn n body s = Some t" "P n t" by (metis less_SucI)
  with Suc.prems(2)[of n t] show ?case by auto
qed

text \<open>An invariant of the body is an invariant of the loop, whatever it computes.\<close>

lemma forn_keeps:
  assumes "\<And>i t t'. P t \<Longrightarrow> body i t = Some t' \<Longrightarrow> P t'" and "forn n body s = Some t" and "P s"
  shows "P t"
  using assms(2)
proof (induction n arbitrary: t)
  case 0
  with assms(3) show ?case by simp
next
  case (Suc n)
  then obtain u where "forn n body s = Some u" "body n u = Some t" by (auto simp: bind_eq_Some_conv)
  with Suc.IH assms(1) show ?case by blast
qed

lemma forn_cong:
  "(\<And>i t. i < n \<Longrightarrow> f i t = g i t) \<Longrightarrow> forn n f s = forn n g s"
  by (induction n) (auto intro: Option.bind_cong)

lemma length_concat_const [cbuf]:
  "(\<And>i. i < n \<Longrightarrow> length (g i) = k) \<Longrightarrow> length (concat (map g [0..<n])) = n * k"
  by (induction n) auto

text \<open>
  A loop whose body writes the \<open>k\<close> bytes \<open>g i\<close> at offset \<open>off + i * k\<close> writes their
  concatenation; the second form is for a body that advances a write pointer.
\<close>

lemma forn_blit:
  assumes "\<And>i. i < n \<Longrightarrow> length (g i) = k"
    and "\<And>i t. i < n \<Longrightarrow> length t = length out \<Longrightarrow> body i t = Some (blit t (off + i * k) (g i))"
    and "off + n * k \<le> length out"
  shows "forn n body out = Some (blit out off (concat (map g [0..<n])))"
  using assms
proof (induction n)
  case 0
  then show ?case by simp
next
  case (Suc n)
  let ?c = "concat (map g [0..<n])"
  have len: "length ?c = n * k" using Suc.prems(1) by (intro length_concat_const) simp
  have "forn n body out = Some (blit out off ?c)" using Suc by simp
  moreover have "body n (blit out off ?c) = Some (blit (blit out off ?c) (off + n * k) (g n))"
    using Suc.prems len by simp
  ultimately show ?case
    using Suc.prems len blit_adjacent[of off ?c out "g n"] by simp
qed

lemma forn_blit_ptr:
  assumes "\<And>i. i < n \<Longrightarrow> length (g i) = k"
    and "\<And>i d t. i < n \<Longrightarrow> length t = length out \<Longrightarrow> d = off + i * k \<Longrightarrow>
           body i (d, t) = Some (d + k, blit t d (g i))"
    and "off + n * k \<le> length out"
  shows "forn n body (off, out) = Some (off + n * k, blit out off (concat (map g [0..<n])))"
  using assms
proof (induction n)
  case 0
  then show ?case by simp
next
  case (Suc n)
  let ?c = "concat (map g [0..<n])"
  have len: "length ?c = n * k" using Suc.prems(1) by (intro length_concat_const) simp
  have "forn n body (off, out) = Some (off + n * k, blit out off ?c)" using Suc by simp
  moreover have "body n (off + n * k, blit out off ?c)
      = Some (off + n * k + k, blit (blit out off ?c) (off + n * k) (g n))"
    using Suc.prems len by simp
  ultimately show ?case
    using Suc.prems len blit_adjacent[of off ?c out "g n"] by (simp add: algebra_simps)
qed

subsection \<open>Planar and interleaved sample blocks\<close>

text \<open>
  A block of 24-bit samples is a list of bytes, three per sample.  \<open>planar nch ns g\<close>
  lays the sample bytes \<open>g ch s\<close> out channel by channel, \<open>interleaved nch ns g\<close> time
  step by time step; \<open>sample_at w xs a b\<close> is the sample with major index \<open>a\<close> and minor
  index \<open>b\<close> of a block whose rows hold \<open>w\<close> samples.
\<close>

definition planar :: "nat \<Rightarrow> nat \<Rightarrow> (nat \<Rightarrow> nat \<Rightarrow> byte list) \<Rightarrow> byte list" where
  "planar nch ns g = concat (map (\<lambda>ch. concat (map (g ch) [0..<ns])) [0..<nch])"

definition interleaved :: "nat \<Rightarrow> nat \<Rightarrow> (nat \<Rightarrow> nat \<Rightarrow> byte list) \<Rightarrow> byte list" where
  "interleaved nch ns g = planar ns nch (\<lambda>s ch. g ch s)"

definition sample_at :: "nat \<Rightarrow> byte list \<Rightarrow> nat \<Rightarrow> nat \<Rightarrow> byte list" where
  "sample_at w xs a b = chunk xs ((a * w + b) * 3) 3"

lemma chunk_concat_map:
  assumes "\<And>i. i < n \<Longrightarrow> length (g i) = k" and "i < n"
  shows "chunk (concat (map g [0..<n])) (i * k) k = g i"
  using assms
proof (induction n)
  case 0
  then show ?case by simp
next
  case (Suc n)
  have len: "length (concat (map g [0..<n])) = n * k"
    using Suc.prems(1) by (intro length_concat_const) simp
  show ?case
  proof (cases "i < n")
    case True
    then have "i * k + k \<le> n * k" by (metis Suc_leI add.commute mult_Suc mult_le_mono1)
    with Suc True len show ?thesis by (simp add: chunk_append1)
  next
    case False
    with Suc.prems have "i = n" by simp
    with Suc.prems len show ?thesis by (simp add: chunk_append2 chunk_def)
  qed
qed

lemma length_planar [cbuf]:
  "(\<And>ch s. ch < nch \<Longrightarrow> s < ns \<Longrightarrow> length (g ch s) = 3) \<Longrightarrow> length (planar nch ns g) = nch * ns * 3"
  unfolding planar_def by (subst length_concat_const[where k = "ns * 3"]) (auto simp: length_concat_const)

lemma index_bound: "a < n \<Longrightarrow> b < m \<Longrightarrow> (a::nat) * m + b < n * m"
proof -
  assume "a < n" "b < m"
  then have "a * m + b < Suc a * m" by simp
  also have "\<dots> \<le> n * m" using \<open>a < n\<close> by (intro mult_le_mono1) simp
  finally show ?thesis .
qed

lemma index_bound3:
  "a < n \<Longrightarrow> b < m \<Longrightarrow> ((a::nat) * m + b) * 3 + 3 \<le> n * m * 3"
  using index_bound[of a n b m] by simp

lemma sample_at_planar [cbuf]:
  assumes "\<And>ch s. ch < nch \<Longrightarrow> s < ns \<Longrightarrow> length (g ch s) = 3" and "ch < nch" and "s < ns"
  shows "sample_at ns (planar nch ns g) ch s = g ch s"
proof -
  have row: "chunk (planar nch ns g) (ch * (ns * 3)) (ns * 3) = concat (map (g ch) [0..<ns])"
    unfolding planar_def using assms by (intro chunk_concat_map) (auto simp: length_concat_const)
  have "sample_at ns (planar nch ns g) ch s
      = chunk (chunk (planar nch ns g) (ch * (ns * 3)) (ns * 3)) (s * 3) 3"
    using assms(3) by (simp add: sample_at_def chunk_chunk algebra_simps)
  also have "\<dots> = g ch s"
    unfolding row using assms by (intro chunk_concat_map) auto
  finally show ?thesis .
qed

lemma sample_at_interleaved [cbuf]:
  assumes "\<And>ch s. ch < nch \<Longrightarrow> s < ns \<Longrightarrow> length (g ch s) = 3" and "ch < nch" and "s < ns"
  shows "sample_at nch (interleaved nch ns g) s ch = g ch s"
  unfolding interleaved_def using assms by (intro sample_at_planar) auto

lemma length_interleaved [cbuf]:
  "(\<And>ch s. ch < nch \<Longrightarrow> s < ns \<Longrightarrow> length (g ch s) = 3) \<Longrightarrow>
     length (interleaved nch ns g) = nch * ns * 3"
  by (simp add: interleaved_def length_planar)

lemma length_sample_at [simp]:
  "(a * w + b) * 3 + 3 \<le> length xs \<Longrightarrow> length (sample_at w xs a b) = 3"
  by (simp add: sample_at_def)

lemma planar_cong:
  "(\<And>ch s. ch < nch \<Longrightarrow> s < ns \<Longrightarrow> g ch s = h ch s) \<Longrightarrow> planar nch ns g = planar nch ns h"
  unfolding planar_def by (intro arg_cong[where f = concat] map_cong refl) auto

lemma concat_chunks:
  "k * n \<le> length xs - off \<Longrightarrow> off \<le> length xs \<Longrightarrow>
     concat (map (\<lambda>i. chunk xs (off + i * k) k) [0..<n]) = chunk xs off (n * k)"
proof (induction n)
  case 0
  then show ?case by (simp add: chunk_def)
next
  case (Suc n)
  then have "concat (map (\<lambda>i. chunk xs (off + i * k) k) [0..<Suc n])
      = chunk xs off (n * k) @ chunk xs (off + n * k) k" by simp
  then show ?case by (simp add: chunk_adjacent add.commute)
qed

lemma take_upt0: "take n [0..<m] = [0..<min n m]"
  by (cases "n \<le> m") (simp_all add: min_def)

lemma take_Cons_take: "take n (x # take n xs) = take n (x # xs)"
  by (cases n) (simp_all add: min_def)

text \<open>A block of the right length is the planar layout of its own samples.\<close>

lemma planar_sample_at:
  assumes "length xs = nch * ns * 3"
  shows "planar nch ns (sample_at ns xs) = xs"
proof -
  have row: "concat (map (sample_at ns xs ch) [0..<ns]) = chunk xs (ch * (ns * 3)) (ns * 3)"
    if "ch < nch" for ch
  proof -
    have "Suc ch * (ns * 3) \<le> nch * (ns * 3)" using that by (intro mult_le_mono1) simp
    with assms have "ns * 3 + ch * (ns * 3) \<le> length xs" by (simp add: mult.assoc)
    then have "concat (map (\<lambda>i. chunk xs (ch * (ns * 3) + i * 3) 3) [0..<ns])
        = chunk xs (ch * (ns * 3)) (ns * 3)"
      by (intro concat_chunks) auto
    then show ?thesis by (simp add: sample_at_def [abs_def] algebra_simps)
  qed
  have "planar nch ns (sample_at ns xs)
      = concat (map (\<lambda>ch. chunk xs (0 + ch * (ns * 3)) (ns * 3)) [0..<nch])"
    unfolding planar_def by (intro arg_cong[where f = concat] map_cong refl) (simp add: row)
  also have "\<dots> = chunk xs 0 (nch * (ns * 3))"
    using assms by (intro concat_chunks) (simp_all add: algebra_simps)
  also have "\<dots> = xs" using assms by (metis mult.assoc chunk_all)
  finally show ?thesis .
qed

end
