(* ===== verification/Libreac.thy ===== *)
theory Libreac
  imports Reac_Prelude
begin

text \<open>
  The interface of libreac (\<open><reac/reac.h>\<close>), the sibling repository that holds the REAC
  wire constants, the mode descriptor and the counter arithmetic.  Its sources are not part
  of this repository, so it is a parameter: every operation of the bridge that uses it
  takes a value of the record \<open>libreac\<close>.  What the bridge relies on is stated by the
  predicates \<open>documented_geometry\<close>, \<open>documented_modes\<close> and \<open>documented_counter\<close>, which
  record the values and the behaviour given in the repository's README, ARCHITECTURE.md
  and tests; \<open>libreac_doc\<close> is one function table that satisfies them.
\<close>

text \<open>The stream descriptor \<open>struct reac_mode\<close>, in the field order of its initialisers.\<close>

record reac_mode =
  sample_rate :: int
  n_channels :: int
  samples_per_pkt :: int

record libreac =
  REAC_FRAME_BYTES :: nat
  REAC_L2_HEADER_LEN :: nat
  REAC_AUDIO_OFFSET :: nat
  REAC_HDR_COUNTER_OFF :: nat
  REAC_RESOLUTION :: nat
  REAC_MAX_CHANNELS :: nat
  REAC_SAMPLES_PER_PKT :: nat
  REAC_ETHERTYPE :: u16
  REAC_END_MARKER_0 :: byte
  REAC_END_MARKER_1 :: byte
  reac_mode_for :: "int \<Rightarrow> reac_mode"
  reac_frame_is_reac :: "byte list \<Rightarrow> bool"
  reac_frame_counter :: "byte list \<Rightarrow> u16"
  reac_counter_gap :: "u16 \<Rightarrow> u16 \<Rightarrow> u16"

text \<open>The fixed 1492-byte frame: a 50-byte header, 12 samples of 40 channels, an end marker.\<close>

definition documented_geometry :: "libreac \<Rightarrow> bool" where
  "documented_geometry L \<longleftrightarrow>
     REAC_FRAME_BYTES L = 1492 \<and> REAC_L2_HEADER_LEN L = 50 \<and> REAC_AUDIO_OFFSET L = 50 \<and>
     REAC_HDR_COUNTER_OFF L = 14 \<and> REAC_RESOLUTION L = 3 \<and> REAC_MAX_CHANNELS L = 40 \<and>
     REAC_SAMPLES_PER_PKT L = 12 \<and> REAC_ETHERTYPE L = 0x8819 \<and>
     REAC_END_MARKER_0 L = 0xC2 \<and> REAC_END_MARKER_1 L = 0xEA"

text \<open>Every rate carries 40 channels of 12 samples; the rate is one of the three of REAC.\<close>

definition documented_modes :: "libreac \<Rightarrow> bool" where
  "documented_modes L \<longleftrightarrow>
     (\<forall>r. n_channels (reac_mode_for L r) = 40 \<and> samples_per_pkt (reac_mode_for L r) = 12 \<and>
          sample_rate (reac_mode_for L r) \<in> {44100, 48000, 96000})"

text \<open>The counter is the little-endian word at byte 14; a gap is the number of frames skipped.\<close>

definition documented_counter :: "libreac \<Rightarrow> bool" where
  "documented_counter L \<longleftrightarrow>
     (\<forall>fr. 16 \<le> length fr \<longrightarrow> reac_frame_counter L fr = ucast (fr ! 14) OR push_bit 8 (ucast (fr ! 15))) \<and>
     (\<forall>a. reac_counter_gap L a (a + 1) = 0)"

text \<open>
  A mode the wire frame can carry: its samples fit the 1440-byte audio region.  It covers
  the modes of libreac and the small modes of the unit tests.
\<close>

definition mode_ok :: "reac_mode \<Rightarrow> bool" where
  "mode_ok m \<longleftrightarrow> 0 < n_channels m \<and> n_channels m \<le> 40 \<and> 0 < samples_per_pkt m \<and>
     samples_per_pkt m \<le> 24 \<and> n_channels m * samples_per_pkt m * 3 \<le> 1440"

definition libreac_doc :: libreac where
  "libreac_doc = \<lparr>
     REAC_FRAME_BYTES = 1492, REAC_L2_HEADER_LEN = 50, REAC_AUDIO_OFFSET = 50,
     REAC_HDR_COUNTER_OFF = 14, REAC_RESOLUTION = 3, REAC_MAX_CHANNELS = 40,
     REAC_SAMPLES_PER_PKT = 12, REAC_ETHERTYPE = 0x8819,
     REAC_END_MARKER_0 = 0xC2, REAC_END_MARKER_1 = 0xEA,
     reac_mode_for = (\<lambda>r. \<lparr>sample_rate = (if r = 44100 \<or> r = 96000 then r else 48000),
                           n_channels = 40, samples_per_pkt = 12\<rparr>),
     reac_frame_is_reac = (\<lambda>fr. length fr = 1492 \<and> fr ! 12 = 0x88 \<and> fr ! 13 = 0x19),
     reac_frame_counter = (\<lambda>fr. ucast (fr ! 14) OR push_bit 8 (ucast (fr ! 15))),
     reac_counter_gap = (\<lambda>a b. b - a - 1)\<rparr>"

abbreviation mode_48k :: reac_mode where
  "mode_48k \<equiv> \<lparr>sample_rate = 48000, n_channels = 40, samples_per_pkt = 12\<rparr>"

lemma libreac_doc_geometry [simp]: "documented_geometry libreac_doc"
  by (simp add: documented_geometry_def libreac_doc_def)

lemma libreac_doc_modes [simp]: "documented_modes libreac_doc"
  by (simp add: documented_modes_def libreac_doc_def)

lemma libreac_doc_counter [simp]: "documented_counter libreac_doc"
  by (simp add: documented_counter_def libreac_doc_def)

lemma mode_48k_ok [simp]: "mode_ok mode_48k"
  by (simp add: mode_ok_def)

lemma documented_mode_ok: "documented_modes L \<Longrightarrow> mode_ok (reac_mode_for L r)"
  by (simp add: documented_modes_def mode_ok_def)

lemma geometry_simps:
  assumes "documented_geometry L"
  shows "REAC_FRAME_BYTES L = 1492" "REAC_L2_HEADER_LEN L = 50" "REAC_AUDIO_OFFSET L = 50"
    "REAC_HDR_COUNTER_OFF L = 14" "REAC_RESOLUTION L = 3" "REAC_MAX_CHANNELS L = 40"
    "REAC_SAMPLES_PER_PKT L = 12" "REAC_ETHERTYPE L = 0x8819"
    "REAC_END_MARKER_0 L = 0xC2" "REAC_END_MARKER_1 L = 0xEA"
  using assms by (simp_all add: documented_geometry_def)

text \<open>The mode's dimensions as natural numbers, with the facts the loops need.\<close>

abbreviation nch_of :: "reac_mode \<Rightarrow> nat" where "nch_of m \<equiv> nat (n_channels m)"
abbreviation sps_of :: "reac_mode \<Rightarrow> nat" where "sps_of m \<equiv> nat (samples_per_pkt m)"

lemma mode_ok_nat:
  assumes "mode_ok m"
  shows "0 < nch_of m" "nch_of m \<le> 40" "0 < sps_of m" "sps_of m \<le> 24"
    "nch_of m * sps_of m * 3 \<le> 1440"
proof -
  show "0 < nch_of m" "nch_of m \<le> 40" "0 < sps_of m" "sps_of m \<le> 24"
    using assms by (auto simp: mode_ok_def)
  have "int (nch_of m * sps_of m * 3) \<le> 1440" using assms by (simp add: mode_ok_def)
  then show "nch_of m * sps_of m * 3 \<le> 1440" by linarith
qed

end
