(* ===== verification/Plc.thy ===== *)
theory Plc
  imports Libreac
begin

text \<open>
  Packet loss concealment, \<open>src/plc.c\<close> and \<open>src/plc.h\<close>: the 24-bit load and store, the
  per-channel history ring, the burst gain and the concealment of one lost packet by the
  fallback ladder repeat with cross-fade, decaying repeat, hold-last, silence.
\<close>

definition PLC_HIST_SAMPLES :: nat where "PLC_HIST_SAMPLES = 40"

definition PLC_TIER_REPEAT_XFADE :: int where "PLC_TIER_REPEAT_XFADE = 0"
definition PLC_TIER_BURST_FADE :: int where "PLC_TIER_BURST_FADE = 1"
definition PLC_TIER_HOLD_LAST :: int where "PLC_TIER_HOLD_LAST = 2"
definition PLC_TIER_SILENCE :: int where "PLC_TIER_SILENCE = 3"

lemmas plc_tiers = PLC_TIER_REPEAT_XFADE_def PLC_TIER_BURST_FADE_def PLC_TIER_HOLD_LAST_def
  PLC_TIER_SILENCE_def

definition SMAX :: int where "SMAX = 8388607"
definition SMIN :: int where "SMIN = - 8388608"
definition Q15 :: int where "Q15 = 32768"

record plc_chan =
  hist :: "int list"
  pc_head :: nat
  pc_filled :: nat

record plc =
  plc_S :: int
  plc_n_channels :: int
  plc_xfade_w :: int
  plc_fade_packets :: int
  plc_fade_flat_packets :: int
  plc_ch :: "plc_chan list"

subsection \<open>Operations\<close>

definition load24 :: "byte list \<Rightarrow> nat \<Rightarrow> int option" where
  "load24 p off = do {
     b0 \<leftarrow> rd p off;
     b1 \<leftarrow> rd p (off + 1);
     b2 \<leftarrow> rd p (off + 2);
     let v = uint b0 OR push_bit 8 (uint b1) OR push_bit 16 (uint b2);
     Some (if v AND 0x800000 \<noteq> 0 then v OR NOT 0xFFFFFF else v)
   }"

definition clamp24 :: "int \<Rightarrow> int" where
  "clamp24 x = (if x > SMAX then SMAX else if x < SMIN then SMIN else x)"

definition store24 :: "byte list \<Rightarrow> nat \<Rightarrow> int \<Rightarrow> byte list option" where
  "store24 p off x = do {
     let x = clamp24 x;
     p \<leftarrow> wr p off (word_of_int x);
     p \<leftarrow> wr p (off + 1) (word_of_int (drop_bit 8 x));
     wr p (off + 2) (word_of_int (drop_bit 16 x))
   }"

definition hist_at :: "plc_chan \<Rightarrow> int \<Rightarrow> int option" where
  "hist_at c back =
     (if back \<ge> int (pc_filled c) then Some 0
      else let idx = (int (pc_head c) - 1 - back) smod int PLC_HIST_SAMPLES;
               idx = (if idx < 0 then idx + int PLC_HIST_SAMPLES else idx)
           in rd (hist c) (nat idx))"

definition hist_push :: "plc_chan \<Rightarrow> int \<Rightarrow> plc_chan option" where
  "hist_push c v = do {
     h \<leftarrow> wr (hist c) (pc_head c) v;
     Some (c\<lparr>hist := h, pc_head := (pc_head c + 1) mod PLC_HIST_SAMPLES,
             pc_filled := (if pc_filled c < PLC_HIST_SAMPLES then pc_filled c + 1 else pc_filled c)\<rparr>)
   }"

definition plc_init :: "libreac \<Rightarrow> reac_mode \<Rightarrow> int \<Rightarrow> int \<Rightarrow> plc" where
  "plc_init L mode fade_packets xfade_w =
     (let S = samples_per_pkt mode;
          w = (if xfade_w > 0 then xfade_w else if S < 8 then S else 8);
          fp = (if fade_packets > 0 then fade_packets else 200)
      in \<lparr>plc_S = S, plc_n_channels = n_channels mode,
          plc_xfade_w = (if w > S then S else w),
          plc_fade_packets = fp, plc_fade_flat_packets = fp sdiv 5,
          plc_ch = replicate (REAC_MAX_CHANNELS L)
            \<lparr>hist = replicate PLC_HIST_SAMPLES 0, pc_head = 0, pc_filled = 0\<rparr>\<rparr>)"

definition plc_observe :: "plc \<Rightarrow> byte list \<Rightarrow> plc option" where
  "plc_observe st pcm = do {
     let S = nat (plc_S st);
     chs \<leftarrow> forn (nat (plc_n_channels st)) (\<lambda>ch chs. do {
         let base = ch * S * 3;
         forn S (\<lambda>s chs. do {
             v \<leftarrow> load24 pcm (base + s * 3);
             c \<leftarrow> rd chs ch;
             c \<leftarrow> hist_push c v;
             wr chs ch c
           }) chs
       }) (plc_ch st);
     Some (st\<lparr>plc_ch := chs\<rparr>)
   }"

definition burst_gain_q15 :: "plc \<Rightarrow> int \<Rightarrow> int option" where
  "burst_gain_q15 st k =
     (if k \<le> plc_fade_flat_packets st then Some Q15
      else if k \<ge> plc_fade_packets st then Some 0
      else do {
        span \<leftarrow> c_int (plc_fade_packets st - plc_fade_flat_packets st);
        into \<leftarrow> c_int (k - plc_fade_flat_packets st);
        prod \<leftarrow> c_int (Q15 * (span - into));
        c_div prod span
      })"

text \<open>The samples of one channel of a concealment packet, and the tier it uses.\<close>

definition conceal_channel ::
  "plc \<Rightarrow> plc_chan \<Rightarrow> int \<Rightarrow> int \<Rightarrow> nat \<Rightarrow> byte list \<Rightarrow> int \<Rightarrow> (byte list \<times> int) option" where
  "conceal_channel st c g loss_index o_off out tier =
     (let S = nat (plc_S st); W = plc_xfade_w st in
      if pc_filled c = 0 then do {
        out \<leftarrow> forn S (\<lambda>s out. store24 out (o_off + s * 3) 0) out;
        Some (out, if tier < PLC_TIER_SILENCE then PLC_TIER_SILENCE else tier)
      }
      else if int (pc_filled c) < plc_S st then do {
        h0 \<leftarrow> hist_at c 0;
        let hv = to_i32 (drop_bit 15 (h0 * g));
        out \<leftarrow> forn S (\<lambda>s out. store24 out (o_off + s * 3) hv) out;
        Some (out, if tier < PLC_TIER_HOLD_LAST then PLC_TIER_HOLD_LAST else tier)
      }
      else if loss_index = 0 then do {
        last \<leftarrow> hist_at c 0;
        out \<leftarrow> forn S (\<lambda>s out. do {
            sub \<leftarrow> hist_at c (plc_S st - 1 - int s);
            y \<leftarrow> (if int s < W then do {
                 p \<leftarrow> c_int ((int s + 1) * Q15);
                 a \<leftarrow> c_div p (W + 1);
                 Some (to_i32 (drop_bit 15 (last * (Q15 - a) + sub * a)))
               } else Some sub);
            store24 out (o_off + s * 3) y
          }) out;
        Some (out, tier)
      }
      else do {
        let tier = (if tier < PLC_TIER_BURST_FADE then PLC_TIER_BURST_FADE else tier);
        out \<leftarrow> forn S (\<lambda>s out. do {
            sub \<leftarrow> hist_at c (plc_S st - 1 - int s);
            let y = to_i32 (drop_bit 15 (sub * g));
            store24 out (o_off + s * 3) y
          }) out;
        Some (out, tier)
      })"

definition plc_conceal :: "plc \<Rightarrow> byte list \<Rightarrow> int \<Rightarrow> (byte list \<times> int) option" where
  "plc_conceal st out loss_index = do {
     g \<leftarrow> burst_gain_q15 st loss_index;
     forn (nat (plc_n_channels st)) (\<lambda>ch (out, tier). do {
         c \<leftarrow> rd (plc_ch st) ch;
         conceal_channel st c g loss_index (ch * nat (plc_S st) * 3) out tier
       }) (out, PLC_TIER_REPEAT_XFADE)
   }"

subsection \<open>24-bit samples\<close>

definition in24 :: "int \<Rightarrow> bool" where
  "in24 x \<longleftrightarrow> SMIN \<le> x \<and> x \<le> SMAX"

definition enc24 :: "int \<Rightarrow> byte list" where
  "enc24 x = [word_of_int x, word_of_int (drop_bit 8 x), word_of_int (drop_bit 16 x)]"

definition dec24 :: "byte list \<Rightarrow> int" where
  "dec24 bs = signed_take_bit 23
     (uint (bs ! 0) OR push_bit 8 (uint (bs ! 1)) OR push_bit 16 (uint (bs ! 2)))"

lemma length_enc24 [simp]: "length (enc24 x) = 3"
  by (simp add: enc24_def)

lemma byte_bit_high [simp]: "8 \<le> n \<Longrightarrow> \<not> bit (b :: byte) n"
  using bit_imp_le_length[of b n] by auto

lemma byte_bitD: "bit (b :: byte) n \<Longrightarrow> n < 8"
  using bit_imp_le_length[of b n] by auto

abbreviation le24 :: "byte \<Rightarrow> byte \<Rightarrow> byte \<Rightarrow> int" where
  "le24 a b c \<equiv> uint a OR push_bit 8 (uint b) OR push_bit 16 (uint c)"

lemma bit_le24:
  "bit (le24 a b c) n =
     (if n < 8 then bit a n else if n < 16 then bit b (n - 8) else n < 24 \<and> bit c (n - 16))"
  by (auto simp: bit_simps not_less dest: byte_bitD)

lemma take_bit_le24: "take_bit 24 (le24 a b c) = le24 a b c"
  by (rule bit_eqI) (simp only: bit_take_bit_iff, simp add: bit_le24)

lemma sign_extend24:
  fixes v :: int
  assumes "take_bit 24 v = v"
  shows "(if v AND 0x800000 \<noteq> 0 then v OR NOT 0xFFFFFF else v) = signed_take_bit 23 v"
proof -
  have hi: "bit v n \<longleftrightarrow> n < 24 \<and> bit v n" for n using assms by (metis bit_take_bit_iff)
  have m: "(0xFFFFFF :: int) = mask 24" by (simp add: mask_eq_exp_minus_1)
  have b: "v AND 0x800000 \<noteq> 0 \<longleftrightarrow> bit v 23"
    using and_exp_eq_0_iff_not_bit[of v 23] by simp
  have "bit (if bit v 23 then v OR NOT (mask 24) else v) n = bit v (min 23 n)" for n
  proof (cases "n < 23")
    case True
    then show ?thesis by (simp add: bit_simps)
  next
    case False
    then show ?thesis
      using hi[of n] by (cases "n = 23") (auto simp: bit_simps)
  qed
  then have "(if bit v 23 then v OR NOT (mask 24) else v) = signed_take_bit 23 v"
    by (intro bit_eqI) (simp add: bit_signed_take_bit_iff)
  then show ?thesis unfolding m b .
qed

lemma load24_eq: "off + 3 \<le> length p \<Longrightarrow> load24 p off = Some (dec24 (chunk p off 3))"
  using sign_extend24[OF take_bit_le24] by (simp add: load24_def dec24_def Let_def)

lemma store24_eq: "off + 3 \<le> length p \<Longrightarrow> store24 p off x = Some (blit p off (enc24 (clamp24 x)))"
  by (simp add: store24_def enc24_def Let_def cbuf)

lemma dec24_range: "in24 (dec24 bs)"
proof -
  have "signed_take_bit 23 v < (2 :: int) ^ 23" "- (2 ^ 23) \<le> (signed_take_bit 23 v :: int)" for v
    by (rule signed_take_bit_int_less_exp, rule signed_take_bit_int_greater_eq_minus_exp)
  from this(1)[of "le24 (bs ! 0) (bs ! 1) (bs ! 2)"] this(2)[of "le24 (bs ! 0) (bs ! 1) (bs ! 2)"]
  show ?thesis by (simp add: in24_def SMIN_def SMAX_def dec24_def)
qed

lemma clamp24_id [simp]: "in24 x \<Longrightarrow> clamp24 x = x"
  by (simp add: clamp24_def in24_def)

lemma clamp24_range: "in24 (clamp24 x)"
  by (simp add: clamp24_def in24_def SMIN_def SMAX_def)

lemma dec24_enc24: "in24 x \<Longrightarrow> dec24 (enc24 x) = x"
proof -
  assume x: "in24 x"
  have "le24 (word_of_int x) (word_of_int (drop_bit 8 x)) (word_of_int (drop_bit 16 x))
      = take_bit 24 x"
    by (rule bit_eqI) (auto simp: bit_le24 bit_take_bit_iff bit_word_of_int_iff bit_drop_bit_eq)
  then have "dec24 (enc24 x) = signed_take_bit 23 (take_bit 24 x)"
    by (simp add: dec24_def enc24_def)
  also have "\<dots> = signed_take_bit 23 x"
    by (rule bit_eqI) (auto simp: bit_simps min_def)
  also have "\<dots> = x"
    using x by (intro signed_take_bit_int_eq_self) (auto simp: in24_def SMIN_def SMAX_def)
  finally show ?thesis .
qed

lemma enc24_dec24: "length bs = 3 \<Longrightarrow> enc24 (dec24 bs) = bs"
proof -
  assume "length bs = 3"
  then obtain a b c where bs: "bs = [a, b, c]"
    by (auto simp: numeral_3_eq_3 length_Suc_conv)
  have d: "bit (dec24 bs) n =
      (if n < 8 then bit a n else if n < 16 then bit b (n - 8) else bit c (min 7 (n - 16)))" for n
    unfolding dec24_def bs by (auto simp: bit_signed_take_bit_iff bit_le24 min_def)
  have "word_of_int (dec24 bs) = a" "word_of_int (drop_bit 8 (dec24 bs)) = b"
      "word_of_int (drop_bit 16 (dec24 bs)) = c"
    by (rule bit_word_eqI; simp add: bit_word_of_int_iff bit_drop_bit_eq d)+
  then show ?thesis by (simp add: enc24_def bs)
qed


text \<open>
  Storing a sample and loading it back gives the clamped value, and leaves every byte
  outside the three of that sample unchanged; a sample in the 24-bit range is kept exactly.
\<close>

theorem store24_load24:
  assumes "off + 3 \<le> length p"
  shows "\<exists>p'. store24 p off x = Some p' \<and> load24 p' off = Some (max SMIN (min SMAX x)) \<and>
    length p' = length p \<and> (\<forall>i < length p. i < off \<or> off + 3 \<le> i \<longrightarrow> p' ! i = p ! i)"
proof (intro exI conjI allI impI)
  let ?p = "blit p off (enc24 (clamp24 x))"
  show "store24 p off x = Some ?p" using assms by (rule store24_eq)
  have "load24 ?p off = Some (dec24 (chunk ?p off 3))" using assms by (simp add: load24_eq)
  also have "chunk ?p off 3 = enc24 (clamp24 x)" using assms by (intro chunk_blit_same) auto
  finally show "load24 ?p off = Some (max SMIN (min SMAX x))"
    by (simp add: dec24_enc24 clamp24_range) (auto simp: clamp24_def SMIN_def SMAX_def)
  show "length ?p = length p" using assms by simp
  show "?p ! i = p ! i" if "i < length p" "i < off \<or> off + 3 \<le> i" for i
    using assms that by (auto simp: nth_blit)
qed

theorem store24_load24_witness:
  "\<exists>p'. store24 [1, 2, 3, 4] 1 (- 9000000) = Some p' \<and> load24 p' 1 = Some (- 8388608)"
  using store24_load24[of 1 "[1, 2, 3, 4]" "- 9000000"] by (auto simp: SMIN_def SMAX_def)

subsection \<open>The history ring\<close>

text \<open>
  The contract of a bounded sample history: pushing puts a value in front of the contents
  and forgets the values beyond the capacity; looking \<open>b\<close> steps back reads position \<open>b\<close>.
\<close>

locale bounded_history =
  fixes push :: "'c \<Rightarrow> 'v \<Rightarrow> 'c option"
    and look :: "'c \<Rightarrow> nat \<Rightarrow> 'v option"
    and contents :: "'c \<Rightarrow> 'v list"
    and inv :: "'c \<Rightarrow> bool"
    and good :: "'v \<Rightarrow> bool"
    and cap :: nat
    and dflt :: 'v
  assumes push_ok: "inv c \<Longrightarrow> good v \<Longrightarrow>
      \<exists>c'. push c v = Some c' \<and> inv c' \<and> contents c' = take cap (v # contents c)"
    and look_ok: "inv c \<Longrightarrow>
      look c b = Some (if b < length (contents c) then contents c ! b else dflt)"
    and contents_bound: "inv c \<Longrightarrow> length (contents c) \<le> cap"
begin

lemma push_many:
  assumes "inv c" and "\<And>i. i < n \<Longrightarrow> good (g i)"
  shows "\<exists>c'. forn n (\<lambda>i c. push c (g i)) c = Some c' \<and> inv c' \<and>
    contents c' = take cap (rev (map g [0..<n]) @ contents c)"
  using assms
proof (induction n)
  case 0
  then show ?case by (simp add: contents_bound)
next
  case (Suc n)
  then obtain c1 where c1: "forn n (\<lambda>i c. push c (g i)) c = Some c1" "inv c1"
      "contents c1 = take cap (rev (map g [0..<n]) @ contents c)"
    by auto
  from push_ok[OF c1(2), of "g n"] Suc.prems obtain c2 where
    "push c1 (g n) = Some c2" "inv c2" "contents c2 = take cap (g n # contents c1)" by auto
  with c1 show ?case by (simp add: take_Cons_take del: take_append)
qed

lemma look_newest:
  assumes "inv c" and "push c v = Some c'" and "good v" and "0 < cap"
  shows "look c' 0 = Some v"
proof -
  from push_ok[OF assms(1,3)] assms(2) have "inv c'" "contents c' = take cap (v # contents c)"
    by auto
  with assms(4) show ?thesis by (simp add: look_ok)
qed

end

definition chan_ok :: "plc_chan \<Rightarrow> bool" where
  "chan_ok c \<longleftrightarrow> length (hist c) = PLC_HIST_SAMPLES \<and> pc_head c < PLC_HIST_SAMPLES \<and>
     pc_filled c \<le> PLC_HIST_SAMPLES \<and> (\<forall>v \<in> set (hist c). in24 v)"

text \<open>The recorded samples, newest first.\<close>

definition ring_pos :: "nat \<Rightarrow> nat \<Rightarrow> nat" where
  "ring_pos h b = (if b < h then h - 1 - b else h + 39 - b)"

definition chan_hist :: "plc_chan \<Rightarrow> int list" where
  "chan_hist c = map (\<lambda>b. hist c ! ring_pos (pc_head c) b) [0..<pc_filled c]"

lemma ring_pos_facts:
  "h < 40 \<Longrightarrow> b < 40 \<Longrightarrow> ring_pos h b < 40"
  "h < 40 \<Longrightarrow> ring_pos (Suc h mod 40) 0 = h"
  "h < 40 \<Longrightarrow> b < 39 \<Longrightarrow> ring_pos (Suc h mod 40) (Suc b) = ring_pos h b"
  "h < 40 \<Longrightarrow> b < 39 \<Longrightarrow> ring_pos h b \<noteq> h"
  by (auto simp: ring_pos_def mod_Suc)

lemma length_chan_hist [simp]: "length (chan_hist c) = pc_filled c"
  by (simp add: chan_hist_def)

lemma chan_hist_in24: "chan_ok c \<Longrightarrow> v \<in> set (chan_hist c) \<Longrightarrow> in24 v"
  by (auto simp: chan_ok_def chan_hist_def PLC_HIST_SAMPLES_def ring_pos_facts)

lemma smod_head:
  fixes h b :: nat
  assumes "h < 40" and "b < 40"
  shows "(if (int h - 1 - int b) smod 40 < 0 then (int h - 1 - int b) smod 40 + 40
      else (int h - 1 - int b) smod 40) = int (ring_pos h b)"
proof (cases "b < h")
  case True
  then have "(int h - 1 - int b) smod 40 = int (h - 1 - b)"
    using assms by (simp add: signed_modulo_int_def signed_divide_int_def sgn_if of_nat_diff)
  with True show ?thesis by (simp add: ring_pos_def)
next
  case False
  define n where "n = 1 + int b - int h"
  have n: "0 < n" "n \<le> 40" "int h - 1 - int b = - n" using False assms by (auto simp: n_def)
  have "(- n) smod 40 = - (n mod 40)"
    using n by (simp add: signed_modulo_int_def signed_divide_int_def sgn_if minus_div_mult_eq_mod [symmetric])
  moreover have "n mod 40 = (if n = 40 then 0 else n)"
    using n by (cases "n = 40") auto
  ultimately have "(int h - 1 - int b) smod 40 = (if n = 40 then 0 else - n)"
    by (simp add: n(3))
  moreover have "int (ring_pos h b) = 40 - n" using False assms by (simp add: ring_pos_def n_def of_nat_diff)
  ultimately show ?thesis using n by simp
qed

lemma hist_at_eq:
  assumes "chan_ok c"
  shows "hist_at c (int b) = Some (if b < length (chan_hist c) then chan_hist c ! b else 0)"
proof (cases "b < pc_filled c")
  case True
  with assms have c: "pc_head c < 40" "b < 40" "length (hist c) = 40"
    by (auto simp: chan_ok_def PLC_HIST_SAMPLES_def)
  from True have "hist_at c (int b) = rd (hist c)
      (nat (if (int (pc_head c) - 1 - int b) smod 40 < 0
            then (int (pc_head c) - 1 - int b) smod 40 + 40
            else (int (pc_head c) - 1 - int b) smod 40))"
    by (simp add: hist_at_def PLC_HIST_SAMPLES_def Let_def)
  also have "\<dots> = rd (hist c) (ring_pos (pc_head c) b)"
    unfolding smod_head[OF c(1,2)] nat_int ..
  finally show ?thesis using True c by (simp add: chan_hist_def ring_pos_facts)
next
  case False
  then show ?thesis by (simp add: hist_at_def)
qed

lemma hist_push_eq:
  assumes "chan_ok c" and "in24 v"
  shows "\<exists>c'. hist_push c v = Some c' \<and> chan_ok c' \<and> chan_hist c' = take 40 (v # chan_hist c)"
proof -
  let ?c' = "c\<lparr>hist := (hist c)[pc_head c := v], pc_head := (pc_head c + 1) mod 40,
             pc_filled := (if pc_filled c < 40 then pc_filled c + 1 else pc_filled c)\<rparr>"
  have len: "length (hist c) = 40" "pc_head c < 40" "pc_filled c \<le> 40"
    using assms by (auto simp: chan_ok_def PLC_HIST_SAMPLES_def)
  have "hist_push c v = Some ?c'"
    using len by (simp add: hist_push_def wr_def PLC_HIST_SAMPLES_def)
  moreover have "chan_ok ?c'"
    using assms len set_update_subset_insert[of "hist c" "pc_head c" v]
    by (auto simp: chan_ok_def PLC_HIST_SAMPLES_def)
  moreover have "chan_hist ?c' = take 40 (v # chan_hist c)"
  proof (rule nth_equalityI)
    show "length (chan_hist ?c') = length (take 40 (v # chan_hist c))" using len by auto
    fix i
    assume "i < length (chan_hist ?c')"
    then have i: "i < pc_filled ?c'" "i < 40" "i \<le> pc_filled c" using len by (auto split: if_splits)
    then have "chan_hist ?c' ! i = (hist c)[pc_head c := v] ! ring_pos (Suc (pc_head c) mod 40) i"
      by (simp add: chan_hist_def)
    also have "\<dots> = (v # chan_hist c) ! i"
      using i len by (cases i) (simp_all add: ring_pos_facts ring_pos_facts(4) [THEN not_sym] chan_hist_def)
    finally show "chan_hist ?c' ! i = take 40 (v # chan_hist c) ! i"
      using i by (simp only: nth_take)
  qed
  ultimately show ?thesis by blast
qed

interpretation hist_ring:
  bounded_history hist_push "\<lambda>c b. hist_at c (int b)" chan_hist chan_ok in24 40 0
  by unfold_locales (use hist_push_eq hist_at_eq in \<open>auto simp: chan_ok_def PLC_HIST_SAMPLES_def\<close>)


subsection \<open>Well-formed concealment state\<close>

definition plc_ok :: "plc \<Rightarrow> bool" where
  "plc_ok st \<longleftrightarrow> 0 < plc_S st \<and> plc_S st \<le> 24 \<and>
     0 \<le> plc_n_channels st \<and> nat (plc_n_channels st) \<le> length (plc_ch st) \<and>
     0 < plc_xfade_w st \<and> plc_xfade_w st \<le> plc_S st \<and>
     0 \<le> plc_fade_flat_packets st \<and> plc_fade_flat_packets st \<le> plc_fade_packets st \<and>
     (\<forall>c \<in> set (plc_ch st). chan_ok c)"

abbreviation S_of :: "plc \<Rightarrow> nat" where "S_of st \<equiv> nat (plc_S st)"
abbreviation N_of :: "plc \<Rightarrow> nat" where "N_of st \<equiv> nat (plc_n_channels st)"

abbreviation chist :: "plc \<Rightarrow> nat \<Rightarrow> int list" where
  "chist st ch \<equiv> chan_hist (plc_ch st ! ch)"

text \<open>The samples of channel \<open>ch\<close> in a planar block of \<open>S\<close> samples per channel.\<close>

definition block_samples :: "nat \<Rightarrow> byte list \<Rightarrow> nat \<Rightarrow> int list" where
  "block_samples S pcm ch = map (\<lambda>s. dec24 (sample_at S pcm ch s)) [0..<S]"

lemma plc_init_ok:
  assumes "mode_ok mode" and "REAC_MAX_CHANNELS L = 40"
  shows "plc_ok (plc_init L mode fade xfade)"
    and "\<And>ch. ch < 40 \<Longrightarrow> chist (plc_init L mode fade xfade) ch = []"
    and "S_of (plc_init L mode fade xfade) = sps_of mode"
    and "N_of (plc_init L mode fade xfade) = nch_of mode"
    and "plc_fade_packets (plc_init L mode fade xfade) = (if 0 < fade then fade else 200)"
proof -
  have "0 \<le> f sdiv 5 \<and> f sdiv 5 \<le> f" if "0 < f" for f :: int
    using that by (simp add: signed_divide_int_def sgn_if)
      (smt (verit) div_by_1 zdiv_mono2 pos_imp_zdiv_nonneg_iff)
  from this[of fade] this[of 200] show "plc_ok (plc_init L mode fade xfade)"
    using assms unfolding plc_ok_def plc_init_def mode_ok_def chan_ok_def
    by (auto simp: Let_def in24_def SMIN_def SMAX_def PLC_HIST_SAMPLES_def)
qed (use assms in \<open>auto simp: plc_init_def Let_def chan_hist_def\<close>)

subsection \<open>Observing a packet\<close>

lemma observe_chan:
  assumes "plc_ok st" and "ch < length chs" and "\<forall>c \<in> set chs. chan_ok c"
    and "(ch * S + S) * 3 \<le> length pcm"
  shows "\<exists>c'. forn S (\<lambda>s chs. do {
             v \<leftarrow> load24 pcm (ch * S * 3 + s * 3);
             c \<leftarrow> rd chs ch;
             c \<leftarrow> hist_push c v;
             wr chs ch c
           }) chs = Some (chs[ch := c']) \<and> chan_ok c' \<and>
         chan_hist c' = take 40 (rev (block_samples S pcm ch) @ chan_hist (chs ! ch))"
proof -
  let ?g = "\<lambda>s. dec24 (sample_at S pcm ch s)"
  let ?P = "\<lambda>i t. \<exists>c'. forn i (\<lambda>s c. hist_push c (?g s)) (chs ! ch) = Some c' \<and>
      t = chs[ch := c'] \<and> chan_ok c' \<and>
      chan_hist c' = take 40 (rev (map ?g [0..<i]) @ chan_hist (chs ! ch))"
  have chok: "chan_ok (chs ! ch)" using assms by simp
  have "\<exists>t. forn S (\<lambda>s chs. do {
             v \<leftarrow> load24 pcm (ch * S * 3 + s * 3);
             c \<leftarrow> rd chs ch;
             c \<leftarrow> hist_push c v;
             wr chs ch c
           }) chs = Some t \<and> ?P S t"
  proof (rule forn_rule[where P = ?P])
    show "?P 0 chs" using assms chok hist_ring.contents_bound[OF chok] by simp
    fix i t
    assume i: "i < S" and P: "?P i t"
    then obtain c1 where c1: "forn i (\<lambda>s c. hist_push c (?g s)) (chs ! ch) = Some c1"
      "t = chs[ch := c1]" by auto
    from hist_ring.push_many[OF chok, of "Suc i" ?g] c1 obtain c2 where c2:
      "hist_push c1 (?g i) = Some c2" "chan_ok c2"
      "chan_hist c2 = take 40 (rev (map ?g [0..<Suc i]) @ chan_hist (chs ! ch))"
      by (auto simp: dec24_range)
    have "ch * S * 3 + i * 3 + 3 \<le> length pcm" using i assms(4) by (simp add: algebra_simps)
    then have "load24 pcm (ch * S * 3 + i * 3) = Some (?g i)"
      by (simp add: load24_eq sample_at_def algebra_simps)
    with c1 c2 assms(2) show "\<exists>t'. (do {
             v \<leftarrow> load24 pcm (ch * S * 3 + i * 3);
             c \<leftarrow> rd t ch;
             c \<leftarrow> hist_push c v;
             wr t ch c
           }) = Some t' \<and> ?P (Suc i) t'"
      by (auto simp: wr_def)
  qed
  then show ?thesis by (auto simp: block_samples_def)
qed

lemma plc_observe_eq:
  assumes "plc_ok st" and "N_of st * S_of st * 3 \<le> length pcm"
  shows "\<exists>chs. plc_observe st pcm = Some (st\<lparr>plc_ch := chs\<rparr>) \<and> plc_ok (st\<lparr>plc_ch := chs\<rparr>) \<and>
    length chs = length (plc_ch st) \<and>
    (\<forall>ch < N_of st. chan_hist (chs ! ch) =
       take 40 (rev (block_samples (S_of st) pcm ch) @ chist st ch))"
proof -
  let ?S = "S_of st" and ?N = "N_of st"
  let ?P = "\<lambda>i t. length t = length (plc_ch st) \<and> (\<forall>c \<in> set t. chan_ok c) \<and>
     (\<forall>ch < i. chan_hist (t ! ch) = take 40 (rev (block_samples ?S pcm ch) @ chist st ch)) \<and>
     (\<forall>ch. i \<le> ch \<longrightarrow> t ! ch = plc_ch st ! ch)"
  let ?body = "\<lambda>ch chs. forn ?S (\<lambda>s chs. do {
             v \<leftarrow> load24 pcm (ch * ?S * 3 + s * 3);
             c \<leftarrow> rd chs ch;
             c \<leftarrow> hist_push c v;
             wr chs ch c
           }) chs"
  have N: "?N \<le> length (plc_ch st)" using assms by (simp add: plc_ok_def)
  have "\<exists>t. forn ?N ?body (plc_ch st) = Some t \<and> ?P ?N t"
  proof (rule forn_rule[where P = ?P])
    show "?P 0 (plc_ch st)" using assms by (simp add: plc_ok_def)
    fix ch t
    assume ch: "ch < ?N" and P: "?P ch t"
    have "Suc ch * ?S * 3 \<le> ?N * ?S * 3" using ch by (intro mult_le_mono1) simp
    with assms have "(ch * ?S + ?S) * 3 \<le> length pcm" by (simp add: algebra_simps)
    from observe_chan[OF assms(1) _ _ this, of t] P ch N
    obtain c' where c': "?body ch t = Some (t[ch := c'])" "chan_ok c'"
      "chan_hist c' = take 40 (rev (block_samples ?S pcm ch) @ chist st ch)"
      by auto
    have "?P (Suc ch) (t[ch := c'])"
      using P c' ch N set_update_subset_insert[of t ch c'] by (auto simp: nth_list_update less_Suc_eq)
    with c' show "\<exists>t'. ?body ch t = Some t' \<and> ?P (Suc ch) t'" by blast
  qed
  then obtain chs where "forn ?N ?body (plc_ch st) = Some chs" "?P ?N chs" by blast
  with assms show ?thesis
    by (intro exI[of _ chs]) (auto simp: plc_observe_def plc_ok_def Let_def)
qed


subsection \<open>The burst gain\<close>

lemma burst_gain_value:
  assumes "plc_ok st" and "plc_fade_packets st - plc_fade_flat_packets st \<le> 65536"
    and "plc_fade_packets st \<le> 2147483647"
  shows "burst_gain_q15 st k = Some (
     if k \<le> plc_fade_flat_packets st then 32768
     else if plc_fade_packets st \<le> k then 0
     else 32768 * (plc_fade_packets st - k) div (plc_fade_packets st - plc_fade_flat_packets st))"
proof -
  let ?f = "plc_fade_packets st" and ?fl = "plc_fade_flat_packets st"
  have b: "0 \<le> ?fl" "?fl \<le> ?f" using assms by (auto simp: plc_ok_def)
  show ?thesis
  proof (cases "k \<le> ?fl \<or> ?f \<le> k")
    case True
    then show ?thesis by (auto simp: burst_gain_q15_def Q15_def)
  next
    case False
    then have "32768 * (?f - k) \<le> 2147483647" "0 \<le> 32768 * (?f - k)" using assms b by auto
    moreover from this(1) have "c_int (32768 * (?f - k)) = Some (32768 * (?f - k))"
      using False by (intro c_int_Some) auto
    ultimately show ?thesis
      using False assms b by (simp add: burst_gain_q15_def Q15_def c_div_pos)
  qed
qed

lemma burst_gain_bounds:
  assumes "plc_ok st" and "burst_gain_q15 st k = Some g"
  shows "0 \<le> g \<and> g \<le> 32768"
proof -
  let ?f = "plc_fade_packets st" and ?fl = "plc_fade_flat_packets st"
  have b: "0 \<le> ?fl" "?fl \<le> ?f" using assms by (auto simp: plc_ok_def)
  show ?thesis
  proof (cases "k \<le> ?fl \<or> ?f \<le> k")
    case True
    with assms show ?thesis by (auto simp: burst_gain_q15_def Q15_def split: if_splits)
  next
    case False
    define span rest where "span = ?f - ?fl" and "rest = ?f - k"
    have r: "0 < rest" "rest \<le> span" "0 < span" using False by (auto simp: span_def rest_def)
    from False assms(2) have "g = (32768 * rest) sdiv span"
      by (auto simp: burst_gain_q15_def Q15_def c_div_def span_def rest_def bind_eq_Some_conv
          split: if_splits dest!: c_int_SomeD)
    then have "g = (32768 * rest) div span"
      using r by (simp add: signed_divide_int_def sgn_if)
    moreover have "(32768 * rest) div span \<le> (32768 * span) div span"
      using r by (intro zdiv_mono1) auto
    ultimately show ?thesis using r by (simp add: pos_imp_zdiv_nonneg_iff)
  qed
qed

text \<open>
  C33.  With a fade of at most 65536 packets the burst gain is defined for every loss index, lies between
  0 and unity, never rises as a burst goes on, is unity at the first loss, and is zero from
  \<open>fade_packets\<close> on.
\<close>

theorem burst_gain_fades:
  assumes "mode_ok mode" and "REAC_MAX_CHANNELS L = 40" and "fade \<le> 65536" and "0 \<le> j" and "j \<le> k"
  shows "\<exists>gj gk. burst_gain_q15 (plc_init L mode fade xfade) j = Some gj \<and>
    burst_gain_q15 (plc_init L mode fade xfade) k = Some gk \<and>
    0 \<le> gk \<and> gk \<le> gj \<and> gj \<le> Q15 \<and> (j = 0 \<longrightarrow> gj = Q15) \<and>
    (plc_fade_packets (plc_init L mode fade xfade) \<le> k \<longrightarrow> gk = 0)"
proof -
  define st where "st = plc_init L mode fade xfade"
  let ?f = "plc_fade_packets st" and ?fl = "plc_fade_flat_packets st"
  have ok: "plc_ok st" and f: "?f \<le> 65536" "0 < ?f"
    using plc_init_ok(1,5)[OF assms(1,2), where fade = fade and xfade = xfade] assms(3)
    by (auto simp: st_def)
  have "?fl = ?f sdiv 5" by (simp add: st_def plc_init_def Let_def)
  then have flt: "?fl < ?f" using f by (simp add: signed_divide_int_def sgn_if)
  have fl: "0 \<le> ?fl" "?fl \<le> ?f" using ok by (auto simp: plc_ok_def)
  note val = burst_gain_value[OF ok, of j] burst_gain_value[OF ok, of k]
  have le: "32768 * (?f - k) div (?f - ?fl) \<le> 32768 * (?f - j) div (?f - ?fl)"
    using assms flt by (intro zdiv_mono1) auto
  obtain gj gk where g: "burst_gain_q15 st j = Some gj" "burst_gain_q15 st k = Some gk"
    using val f fl by auto
  have b: "0 \<le> gj" "gj \<le> 32768" "0 \<le> gk" "gk \<le> 32768"
    using burst_gain_bounds[OF ok] g by auto
  have "gk \<le> gj" using val g b assms(5) f fl le by (auto split: if_splits)
  moreover have "j = 0 \<longrightarrow> gj = Q15" using val(1) g f fl by (auto simp: Q15_def)
  moreover have "?f \<le> k \<longrightarrow> gk = 0" using val(2) g f fl flt by auto
  ultimately show ?thesis
    unfolding st_def[symmetric] using g b by (simp add: Q15_def)
qed

theorem burst_gain_fades_witness:
  "\<exists>gj gk. burst_gain_q15 (plc_init libreac_doc mode_48k 0 0) 0 = Some gj \<and>
    burst_gain_q15 (plc_init libreac_doc mode_48k 0 0) 100 = Some gk \<and>
    0 \<le> gk \<and> gk \<le> gj \<and> gj = Q15"
  using burst_gain_fades[of mode_48k libreac_doc 0 0 100 0] by (auto simp: libreac_doc_def)

text \<open>
  The option \<open>--plc-fade\<close> is not bounded: with a fade of 100000 packets the product
  \<open>Q15 * (span - into)\<close> leaves the range of \<open>int\<close> at the first loss index past the flat part, which a burst of
  20002 lost packets reaches.
\<close>

theorem burst_gain_overflows:
  "plc_fade_flat_packets (plc_init L mode 100000 xfade) = 20000 \<and>
   burst_gain_q15 (plc_init L mode 100000 xfade) 20001 = None"
  by (simp add: burst_gain_q15_def plc_init_def Let_def Q15_def signed_divide_int_def)

end
