(* ===== verification/Plc_Conceal.thy ===== *)
theory Plc_Conceal
  imports Plc
begin

text \<open>
  What one concealment packet contains.  \<open>conceal_value\<close> is the sample the ladder of
  \<open>plc_conceal\<close> gives for a channel whose history is \<open>h\<close> (newest first), \<open>conceal_tier\<close> the
  rung it uses; \<open>plc_conceal_eq\<close> shows that the buffer-level code computes exactly them.
\<close>

definition conceal_value :: "nat \<Rightarrow> int \<Rightarrow> int \<Rightarrow> int \<Rightarrow> int list \<Rightarrow> nat \<Rightarrow> int" where
  "conceal_value S W g k h s =
     (if h = [] then 0
      else if length h < S then drop_bit 15 (hd h * g)
      else let sub = h ! (S - 1 - s) in
        if k = 0 then
          if int s < W then
            let a = (int s + 1) * 32768 div (W + 1)
            in drop_bit 15 (hd h * (32768 - a) + sub * a)
          else sub
        else drop_bit 15 (sub * g))"

definition conceal_tier :: "nat \<Rightarrow> int \<Rightarrow> int list \<Rightarrow> int" where
  "conceal_tier S k h =
     (if h = [] then PLC_TIER_SILENCE else if length h < S then PLC_TIER_HOLD_LAST
      else if k = 0 then PLC_TIER_REPEAT_XFADE else PLC_TIER_BURST_FADE)"

subsection \<open>Scaling and blending stay between their inputs\<close>

lemma scaled_between:
  fixes v g :: int
  assumes "0 \<le> g" and "g \<le> 32768"
  shows "min 0 v \<le> drop_bit 15 (v * g)" and "drop_bit 15 (v * g) \<le> max 0 v"
proof -
  have le: "min 0 v * 32768 \<le> v * g" "v * g \<le> max 0 v * 32768"
  proof -
    show "min 0 v * 32768 \<le> v * g"
    proof (cases "0 \<le> v")
      case True then show ?thesis using assms by simp
    next
      case False then show ?thesis using assms mult_left_mono_neg[of g 32768 v] by simp
    qed
    show "v * g \<le> max 0 v * 32768"
    proof (cases "0 \<le> v")
      case True then show ?thesis using assms mult_left_mono[of g 32768 v] by simp
    next
      case False then show ?thesis using assms by (simp add: mult_nonpos_nonneg)
    qed
  qed
  from zdiv_mono1[OF le(1), of 32768] zdiv_mono1[OF le(2), of 32768]
  show "min 0 v \<le> drop_bit 15 (v * g)" "drop_bit 15 (v * g) \<le> max 0 v"
    by (simp_all add: drop_bit_eq_div)
qed

lemma blend_between:
  fixes x y a :: int
  assumes "0 \<le> a" and "a \<le> 32768"
  shows "min x y \<le> drop_bit 15 (x * (32768 - a) + y * a)"
    and "drop_bit 15 (x * (32768 - a) + y * a) \<le> max x y"
proof -
  have "min x y * (32768 - a) + min x y * a \<le> x * (32768 - a) + y * a"
    using assms by (intro add_mono mult_right_mono) auto
  then have lo: "min x y * 32768 \<le> x * (32768 - a) + y * a" by (simp add: algebra_simps)
  have "x * (32768 - a) + y * a \<le> max x y * (32768 - a) + max x y * a"
    using assms by (intro add_mono mult_right_mono) auto
  then have hi: "x * (32768 - a) + y * a \<le> max x y * 32768" by (simp add: algebra_simps)
  from zdiv_mono1[OF lo, of 32768] zdiv_mono1[OF hi, of 32768]
  show "min x y \<le> drop_bit 15 (x * (32768 - a) + y * a)"
    "drop_bit 15 (x * (32768 - a) + y * a) \<le> max x y"
    by (simp_all add: drop_bit_eq_div)
qed

lemma ramp_range:
  assumes "int s < W"
  shows "0 \<le> (int s + 1) * 32768 div (W + 1)" "(int s + 1) * 32768 div (W + 1) \<le> 32768"
proof -
  have "(int s + 1) * 32768 div (W + 1) \<le> 32768 * (W + 1) div (W + 1)"
    using assms by (intro zdiv_mono1) auto
  also have "\<dots> = 32768" using assms by (intro nonzero_mult_div_cancel_right) auto
  finally show "(int s + 1) * 32768 div (W + 1) \<le> 32768" .
  show "0 \<le> (int s + 1) * 32768 div (W + 1)" using assms by (simp add: pos_imp_zdiv_nonneg_iff)
qed

text \<open>A concealed sample is zero, a scaled recorded sample, or a blend of two recorded samples.\<close>

lemma conceal_value_simps:
  "h = [] \<Longrightarrow> conceal_value S W g k h s = 0"
  "h \<noteq> [] \<Longrightarrow> length h < S \<Longrightarrow> conceal_value S W g k h s = drop_bit 15 (hd h * g)"
  "h \<noteq> [] \<Longrightarrow> S \<le> length h \<Longrightarrow> int s < W \<Longrightarrow> conceal_value S W g 0 h s =
     drop_bit 15 (hd h * (32768 - (int s + 1) * 32768 div (W + 1))
       + h ! (S - 1 - s) * ((int s + 1) * 32768 div (W + 1)))"
  "h \<noteq> [] \<Longrightarrow> S \<le> length h \<Longrightarrow> W \<le> int s \<Longrightarrow> conceal_value S W g 0 h s = h ! (S - 1 - s)"
  "h \<noteq> [] \<Longrightarrow> S \<le> length h \<Longrightarrow> k \<noteq> 0 \<Longrightarrow>
     conceal_value S W g k h s = drop_bit 15 (h ! (S - 1 - s) * g)"
  by (simp_all add: conceal_value_def Let_def)

lemma conceal_value_between:
  assumes "0 \<le> g" and "g \<le> 32768" and "s < S"
    and "\<forall>v \<in> set h. lo \<le> v \<and> v \<le> hi" and "lo \<le> 0" and "0 \<le> hi"
  shows "lo \<le> conceal_value S W g k h s \<and> conceal_value S W g k h s \<le> hi"
proof -
  have scaled: "lo \<le> drop_bit 15 (v * g) \<and> drop_bit 15 (v * g) \<le> hi" if "v \<in> set h" for v
    using scaled_between[OF assms(1,2), of v] that assms(4-6) by force
  have blend: "lo \<le> drop_bit 15 (x * (32768 - a) + y * a) \<and>
      drop_bit 15 (x * (32768 - a) + y * a) \<le> hi"
    if "x \<in> set h" "y \<in> set h" "0 \<le> a" "a \<le> 32768" for x y a
  proof -
    have "lo \<le> min x y" "max x y \<le> hi" using that(1,2) assms(4) by auto
    with blend_between[OF that(3,4), of x y] show ?thesis by linarith
  qed
  consider "h = []" | "h \<noteq> []" "length h < S" | "h \<noteq> []" "S \<le> length h" "k = 0" "int s < W"
    | "h \<noteq> []" "S \<le> length h" "k = 0" "W \<le> int s" | "h \<noteq> []" "S \<le> length h" "k \<noteq> 0"
    by linarith
  then show ?thesis
  proof cases
    case 1
    then show ?thesis using assms by (simp add: conceal_value_simps)
  next
    case 2
    then show ?thesis using scaled[of "hd h"] by (simp add: conceal_value_simps)
  next
    case 3
    then show ?thesis
      using blend[of "hd h" "h ! (S - 1 - s)", OF _ _ ramp_range] assms(3)
      by (simp add: conceal_value_simps)
  next
    case 4
    then show ?thesis using assms(3,4) by (simp add: conceal_value_simps)
  next
    case 5
    then show ?thesis using scaled[of "h ! (S - 1 - s)"] assms(3) by (simp add: conceal_value_simps)
  qed
qed

lemma conceal_value_in24:
  assumes "0 \<le> g" and "g \<le> 32768" and "s < S" and "\<forall>v \<in> set h. in24 v"
  shows "in24 (conceal_value S W g k h s)"
  using conceal_value_between[OF assms(1-3), of h SMIN SMAX] assms(4)
  by (auto simp: in24_def SMIN_def SMAX_def)

subsection \<open>One channel\<close>

abbreviation chan_row :: "nat \<Rightarrow> int \<Rightarrow> int \<Rightarrow> int \<Rightarrow> int list \<Rightarrow> byte list" where
  "chan_row S W g k h \<equiv> concat (map (\<lambda>s. enc24 (conceal_value S W g k h s)) [0..<S])"

lemma store_row:
  assumes "off + S * 3 \<le> length out" and "\<And>s. s < S \<Longrightarrow> in24 (val s)"
    and "\<And>s t. s < S \<Longrightarrow> length t = length out \<Longrightarrow> body s t = store24 t (off + s * 3) (val s)"
  shows "forn S body out = Some (blit out off (concat (map (\<lambda>s. enc24 (val s)) [0..<S])))"
proof (rule forn_blit)
  fix s and t :: "byte list"
  assume s: "s < S" "length t = length out"
  then have "off + s * 3 + 3 \<le> length t" using assms(1) by simp
  with s assms show "body s t = Some (blit t (off + s * 3) (enc24 (val s)))"
    by (simp add: store24_eq)
qed (use assms in auto)

lemma conceal_channel_eq:
  assumes st: "plc_ok st" and c: "chan_ok c" and g: "0 \<le> g" "g \<le> 32768"
    and off: "off + S_of st * 3 \<le> length out" and tier: "0 \<le> tier"
  shows "conceal_channel st c g k off out tier =
    Some (blit out off (chan_row (S_of st) (plc_xfade_w st) g k (chan_hist c)),
          max tier (conceal_tier (S_of st) k (chan_hist c)))"
proof -
  let ?S = "S_of st" and ?h = "chan_hist c" and ?W = "plc_xfade_w st"
  let ?v = "conceal_value ?S ?W g k ?h"
  have S: "0 < plc_S st" "plc_S st \<le> 24" "0 < ?W" "?W \<le> plc_S st" using st by (auto simp: plc_ok_def)
  have h24: "\<forall>v \<in> set ?h. in24 v" using chan_hist_in24[OF c] by blast
  note v24 = conceal_value_in24[OF g _ h24]
  have i32: "to_i32 y = y" if "in24 y" for y
    using that by (intro to_i32_id) (auto simp: in24_def SMIN_def SMAX_def)
  have emp: "?h = [] \<longleftrightarrow> pc_filled c = 0" by (metis length_0_conv length_chan_hist)
  have at0: "hist_at c 0 = Some (if pc_filled c = 0 then 0 else hd ?h)"
    using hist_at_eq[OF c, of 0] emp by (simp add: hd_conv_nth)
  have atS: "hist_at c (plc_S st - 1 - int s) = Some (?h ! (?S - 1 - s))"
    if "s < ?S" "?S \<le> pc_filled c" for s
  proof -
    have "plc_S st - 1 - int s = int (?S - 1 - s)" using that by simp
    then have "hist_at c (plc_S st - 1 - int s) = hist_at c (int (?S - 1 - s))" by (rule arg_cong)
    moreover have "?S - 1 - s < pc_filled c" using that by linarith
    ultimately show ?thesis using hist_at_eq[OF c, of "?S - 1 - s"] by simp
  qed
  note row = store_row[OF off, of ?v, OF v24]
  have v_in: "in24 (?v s)" if "s < ?S" for s using that by (rule v24)
  consider (cold) "pc_filled c = 0" | (short) "0 < pc_filled c" "pc_filled c < ?S"
    | (xfade) "?S \<le> pc_filled c" "k = 0" | (burst) "?S \<le> pc_filled c" "k \<noteq> 0"
    by linarith
  then show ?thesis
  proof cases
    case cold
    then have v: "?v s = 0" for s using emp by (simp add: conceal_value_def)
    have "forn ?S (\<lambda>s out. store24 out (off + s * 3) 0) out
        = Some (blit out off (chan_row ?S ?W g k ?h))"
      by (rule row) (simp_all add: v)
    with cold emp tier show ?thesis
      by (simp add: conceal_channel_def conceal_tier_def Let_def plc_tiers max_def)
  next
    case short
    then have v: "?v s = drop_bit 15 (hd ?h * g)" for s using emp by (simp add: conceal_value_def)
    have y: "to_i32 (drop_bit 15 (hd ?h * g)) = drop_bit 15 (hd ?h * g)"
    proof (rule i32)
      have "in24 (?v 0)" using S by (intro v24) auto
      then show "in24 (drop_bit 15 (hd ?h * g))" by (simp only: v)
    qed
    have "forn ?S (\<lambda>s out. store24 out (off + s * 3) (drop_bit 15 (hd ?h * g))) out
        = Some (blit out off (chan_row ?S ?W g k ?h))"
      by (rule row) (simp_all add: v)
    moreover have "int (pc_filled c) < plc_S st" using short by linarith
    ultimately show ?thesis
      using short emp tier at0 y
      by (simp add: conceal_channel_def conceal_tier_def Let_def plc_tiers max_def)
  next
    case xfade
    then have ne: "?h \<noteq> []" using emp S by auto
    have a: "c_int ((int s + 1) * Q15) = Some ((int s + 1) * 32768)"
        "c_div ((int s + 1) * 32768) (?W + 1) = Some ((int s + 1) * 32768 div (?W + 1))"
      if "int s < ?W" for s
      using that S by (auto simp: Q15_def intro!: c_int_Some c_div_pos)
    have "forn ?S (\<lambda>s out. do {
            sub \<leftarrow> hist_at c (plc_S st - 1 - int s);
            y \<leftarrow> (if int s < ?W then do {
                 p \<leftarrow> c_int ((int s + 1) * Q15);
                 a \<leftarrow> c_div p (?W + 1);
                 Some (to_i32 (drop_bit 15 (hd ?h * (Q15 - a) + sub * a)))
               } else Some sub);
            store24 out (off + s * 3) y
          }) out = Some (blit out off (chan_row ?S ?W g k ?h))"
    proof (rule row)
      fix s and t :: "byte list"
      assume s: "s < ?S" "length t = length out"
      have "?v s = (if int s < ?W then
            drop_bit 15 (hd ?h * (32768 - (int s + 1) * 32768 div (?W + 1))
              + ?h ! (?S - 1 - s) * ((int s + 1) * 32768 div (?W + 1)))
          else ?h ! (?S - 1 - s))"
        using xfade ne by (simp add: conceal_value_def Let_def)
      with s xfade show "(do {
            sub \<leftarrow> hist_at c (plc_S st - 1 - int s);
            y \<leftarrow> (if int s < ?W then do {
                 p \<leftarrow> c_int ((int s + 1) * Q15);
                 a \<leftarrow> c_div p (?W + 1);
                 Some (to_i32 (drop_bit 15 (hd ?h * (Q15 - a) + sub * a)))
               } else Some sub);
            store24 t (off + s * 3) y
          }) = store24 t (off + s * 3) (?v s)"
        using v_in[OF s(1)] a[of s] by (cases "int s < ?W") (simp_all only: atS i32 Q15_def bind.bind_lunit if_True if_False simp_thms)
    qed simp
    moreover have "\<not> int (pc_filled c) < plc_S st" using xfade(1) by linarith
    ultimately show ?thesis using xfade ne tier at0 emp S
      by (simp add: conceal_channel_def conceal_tier_def Let_def plc_tiers max_def)
  next
    case burst
    then have ne: "?h \<noteq> []" using emp S by auto
    have v: "?v s = drop_bit 15 (?h ! (?S - 1 - s) * g)" if "s < ?S" for s
      using burst ne by (simp add: conceal_value_def)
    have "forn ?S (\<lambda>s out. do {
            sub \<leftarrow> hist_at c (plc_S st - 1 - int s);
            let y = to_i32 (drop_bit 15 (sub * g));
            store24 out (off + s * 3) y
          }) out = Some (blit out off (chan_row ?S ?W g k ?h))"
    proof (rule row)
      fix s and t :: "byte list"
      assume s: "s < ?S" "length t = length out"
      then show "(do {
            sub \<leftarrow> hist_at c (plc_S st - 1 - int s);
            let y = to_i32 (drop_bit 15 (sub * g));
            store24 t (off + s * 3) y
          }) = store24 t (off + s * 3) (?v s)"
        using v_in[OF s(1)] burst by (simp only: atS v i32 bind.bind_lunit Let_def)
    qed simp
    moreover have "\<not> int (pc_filled c) < plc_S st" using burst(1) by linarith
    ultimately show ?thesis using burst ne tier emp S
      by (simp add: conceal_channel_def conceal_tier_def Let_def plc_tiers max_def)
  qed
qed


subsection \<open>The whole packet\<close>

definition concealed_pcm :: "plc \<Rightarrow> int \<Rightarrow> int \<Rightarrow> byte list" where
  "concealed_pcm st g k = planar (N_of st) (S_of st)
     (\<lambda>ch s. enc24 (conceal_value (S_of st) (plc_xfade_w st) g k (chist st ch) s))"

definition worst_tier :: "plc \<Rightarrow> int \<Rightarrow> int" where
  "worst_tier st k = foldl max 0 (map (\<lambda>ch. conceal_tier (S_of st) k (chist st ch)) [0..<N_of st])"

lemma length_concealed_pcm [simp]: "length (concealed_pcm st g k) = N_of st * S_of st * 3"
  unfolding concealed_pcm_def by (rule length_planar) simp

lemma foldl_max_ge: "(a :: int) \<le> foldl max a xs"
  by (induction xs arbitrary: a) (auto intro: max.cobounded1 [THEN order_trans])

lemma plc_conceal_eq:
  assumes st: "plc_ok st" and g: "burst_gain_q15 st k = Some g"
    and out: "N_of st * S_of st * 3 \<le> length out"
  shows "plc_conceal st out k = Some (blit out 0 (concealed_pcm st g k), worst_tier st k)"
proof -
  let ?S = "S_of st" and ?N = "N_of st"
  let ?row = "\<lambda>ch. chan_row ?S (plc_xfade_w st) g k (chist st ch)"
  let ?tier = "\<lambda>i. foldl max 0 (map (\<lambda>ch. conceal_tier ?S k (chist st ch)) [0..<i])"
  let ?P = "\<lambda>i (o', t). o' = blit out 0 (concat (map ?row [0..<i])) \<and> t = ?tier i"
  let ?body = "\<lambda>ch (out, tier). do {
         c \<leftarrow> rd (plc_ch st) ch;
         conceal_channel st c g k (ch * ?S * 3) out tier
       }"
  have row: "length (?row ch) = ?S * 3" for ch by (rule length_concat_const) simp
  have "\<exists>t. forn ?N ?body (out, 0) = Some t \<and> ?P ?N t"
  proof (rule forn_rule[where P = ?P])
    show "?P 0 (out, 0)" by simp
    fix i t
    assume i: "i < ?N" and "?P i t"
    then have t: "t = (blit out 0 (concat (map ?row [0..<i])), ?tier i)" by (cases t) simp
    have rows: "length (concat (map ?row [0..<i])) = i * (?S * 3)"
      by (rule length_concat_const) (rule row)
    have "Suc i * (?S * 3) \<le> ?N * (?S * 3)" using i by (intro mult_le_mono1) simp
    with out have fits: "i * (?S * 3) + ?S * 3 \<le> length out" by (simp add: mult.assoc)
    have ch: "i < length (plc_ch st)" "chan_ok (plc_ch st ! i)" using i st by (auto simp: plc_ok_def)
    have "conceal_channel st (plc_ch st ! i) g k (i * ?S * 3) (fst t) (snd t)
        = Some (blit (fst t) (i * ?S * 3) (?row i), max (snd t) (conceal_tier ?S k (chist st i)))"
      using fits rows burst_gain_bounds[OF st g] foldl_max_ge[of 0]
      by (intro conceal_channel_eq[OF st ch(2)]) (auto simp: t mult.assoc)
    moreover have "blit (fst t) (i * ?S * 3) (?row i) = blit out 0 (concat (map ?row [0..<Suc i]))"
      using blit_adjacent[of 0 "concat (map ?row [0..<i])" out "?row i"] fits rows
      by (simp add: t mult.assoc)
    ultimately show "\<exists>t'. ?body i t = Some t' \<and> ?P (Suc i) t'"
      using ch(1) by (auto simp: t)
  qed
  then show ?thesis
    using g by (auto simp: plc_conceal_def concealed_pcm_def planar_def worst_tier_def plc_tiers)
qed

lemma block_samples_concealed:
  assumes "plc_ok st" and "burst_gain_q15 st k = Some g" and "ch < N_of st"
  shows "block_samples (S_of st) (concealed_pcm st g k) ch
    = map (conceal_value (S_of st) (plc_xfade_w st) g k (chist st ch)) [0..<S_of st]"
proof -
  have "chan_ok (plc_ch st ! ch)" using assms by (auto simp: plc_ok_def)
  then have "\<forall>v \<in> set (chist st ch). in24 v" using chan_hist_in24 by blast
  then have "dec24 (sample_at (S_of st) (concealed_pcm st g k) ch s)
      = conceal_value (S_of st) (plc_xfade_w st) g k (chist st ch) s" if "s < S_of st" for s
    using that assms burst_gain_bounds[OF assms(1,2)]
    by (simp add: concealed_pcm_def sample_at_planar dec24_enc24 conceal_value_in24)
  then show ?thesis by (simp add: block_samples_def)
qed


subsection \<open>What the ladder promises\<close>

lemma gain_first_loss: "plc_ok st \<Longrightarrow> burst_gain_q15 st 0 = Some 32768"
  by (simp add: burst_gain_q15_def plc_ok_def Q15_def)

lemma observed_history:
  assumes "plc_ok st" and "N_of st * S_of st * 3 \<le> length pcm" and "plc_observe st pcm = Some st'"
    and "ch < N_of st"
  shows "chist st' ch = take 40 (rev (block_samples (S_of st) pcm ch) @ chist st ch)"
    and "\<And>s. s < S_of st \<Longrightarrow> chist st' ch ! (S_of st - 1 - s) = block_samples (S_of st) pcm ch ! s"
    and "S_of st \<le> length (chist st' ch)"
    and "hd (chist st' ch) = block_samples (S_of st) pcm ch ! (S_of st - 1)"
    and "chist st' ch \<noteq> []"
proof -
  let ?S = "S_of st" and ?x = "block_samples (S_of st) pcm ch"
  have S: "0 < ?S" "?S \<le> 24" and x: "length ?x = ?S"
    using assms(1) by (auto simp: plc_ok_def block_samples_def)
  show h: "chist st' ch = take 40 (rev ?x @ chist st ch)"
    using plc_observe_eq[OF assms(1,2)] assms(3,4) by auto
  show "chist st' ch ! (?S - 1 - s) = ?x ! s" if "s < ?S" for s
    using that S x unfolding h by (simp add: nth_append rev_nth)
  show len: "?S \<le> length (chist st' ch)"
    using S x unfolding h by (simp del: length_chan_hist)
  have "0 < length (chist st' ch)" using S(1) len by (rule order_less_le_trans)
  then show "chist st' ch \<noteq> []" unfolding length_greater_0_conv .
  then have "hd (chist st' ch) = chist st' ch ! 0" by (rule hd_conv_nth)
  then show "hd (chist st' ch) = ?x ! (?S - 1)"
    using S x unfolding h by (simp add: nth_append rev_nth)
qed

lemma plc_observe_frame:
  assumes "plc_ok st" and "N_of st * S_of st * 3 \<le> length pcm" and "plc_observe st pcm = Some st'"
  shows "plc_ok st'" "plc_S st' = plc_S st" "plc_n_channels st' = plc_n_channels st"
    "plc_xfade_w st' = plc_xfade_w st" "plc_fade_packets st' = plc_fade_packets st"
    "plc_fade_flat_packets st' = plc_fade_flat_packets st"
  using plc_observe_eq[OF assms(1,2)] assms(3) by auto

text \<open>The first loss after an observation has the top tier.  A block written at the start of a buffer reads back.\<close>

lemma first_loss_tier:
  assumes "\<And>ch. ch < N_of st \<Longrightarrow> conceal_tier (S_of st) 0 (chist st ch) = 0"
  shows "worst_tier st 0 = 0"
proof -
  have "map (\<lambda>ch. conceal_tier (S_of st) 0 (chist st ch)) [0..<N_of st] = map (\<lambda>_. 0) [0..<N_of st]"
    using assms by (intro map_cong) auto
  moreover have "foldl max 0 (map (\<lambda>_. 0) ns) = (0 :: int)" for ns :: "nat list" by (induction ns) auto
  ultimately show ?thesis unfolding worst_tier_def by metis
qed

lemma block_of_prefix:
  assumes "length p = N * S * 3" and "ch < N"
  shows "block_samples S (blit out 0 p) ch = block_samples S p ch"
proof -
  have "sample_at S (blit out 0 p) ch s = sample_at S p ch s" if s: "s < S" for s
    using index_bound3[OF assms(2) s] assms(1) unfolding sample_at_def blit_prefix by (intro chunk_append1) simp
  then show ?thesis by (simp add: block_samples_def)
qed

text \<open>
  C17.  The first packet lost after an observed packet repeats it: from the cross-fade width
  on every sample is the observed sample itself, and inside the cross-fade it lies between the last observed
  sample and the repeated one.  The call is defined, uses the top tier, and writes
  nothing outside the packet.
\<close>

theorem conceal_repeats_last_packet:
  assumes "plc_ok st" and "N_of st * S_of st * 3 \<le> length pcm" and "N_of st * S_of st * 3 \<le> length out"
    and "0 < N_of st"
  shows "\<exists>st' out'. plc_observe st pcm = Some st' \<and>
    plc_conceal st' out 0 = Some (out', PLC_TIER_REPEAT_XFADE) \<and>
    drop (N_of st * S_of st * 3) out' = drop (N_of st * S_of st * 3) out \<and>
    (\<forall>ch < N_of st. \<forall>s < S_of st.
       let x = block_samples (S_of st) pcm ch; y = block_samples (S_of st) out' ch;
           last = x ! (S_of st - 1)
       in (plc_xfade_w st \<le> int s \<longrightarrow> y ! s = x ! s) \<and>
          (int s < plc_xfade_w st \<longrightarrow> min last (x ! s) \<le> y ! s \<and> y ! s \<le> max last (x ! s)))"
proof -
  let ?S = "S_of st" and ?N = "N_of st" and ?W = "plc_xfade_w st"
  obtain st' where ob: "plc_observe st pcm = Some st'"
    using plc_observe_eq[OF assms(1,2)] by blast
  note fr = plc_observe_frame[OF assms(1,2) ob] and h = observed_history[OF assms(1,2) ob]
  note g = gain_first_loss[OF fr(1)]
  let ?p = "concealed_pcm st' 32768 0" and ?out = "blit out 0 (concealed_pcm st' 32768 0)"
  have lenp: "length ?p = ?N * ?S * 3" by (simp add: fr)
  have "conceal_tier ?S 0 (chist st' ch) = 0" if "ch < ?N" for ch using h(3,5)[OF that] by (simp add: conceal_tier_def plc_tiers)
  then have worst: "worst_tier st' 0 = 0" using first_loss_tier[of st'] by (simp add: fr)
  have co: "plc_conceal st' out 0 = Some (?out, PLC_TIER_REPEAT_XFADE)"
    using plc_conceal_eq[OF fr(1) g, of out] assms(3) by (simp add: fr worst plc_tiers)
  have y: "block_samples ?S ?out ch = map (conceal_value ?S ?W 32768 0 (chist st' ch)) [0..<?S]"
    if "ch < ?N" for ch
    using block_samples_concealed[OF fr(1) g, of ch] block_of_prefix[OF lenp that] that by (simp add: fr)
  have "let x = block_samples ?S pcm ch; y = block_samples ?S ?out ch; last = x ! (?S - 1)
       in (?W \<le> int s \<longrightarrow> y ! s = x ! s) \<and>
          (int s < ?W \<longrightarrow> min last (x ! s) \<le> y ! s \<and> y ! s \<le> max last (x ! s))"
    if "ch < ?N" "s < ?S" for ch s
  proof -
    note ne = h(5)[OF that(1)] h(3)[OF that(1)]
    have ys: "block_samples ?S ?out ch ! s = conceal_value ?S ?W 32768 0 (chist st' ch) s"
      using that by (simp add: y)
    show ?thesis
    proof (cases "int s < ?W")
      case True
      with conceal_value_simps(3)[OF ne] h(2)[OF that] h(4)[OF that(1)]
        blend_between[OF ramp_range[of s ?W]]
      show ?thesis unfolding Let_def ys by simp
    next
      case False
      with conceal_value_simps(4)[OF ne] h(2)[OF that] show ?thesis unfolding Let_def ys by simp
    qed
  qed
  moreover have "drop (?N * ?S * 3) ?out = drop (?N * ?S * 3) out"
    using lenp assms(3) by (simp add: blit_prefix)
  ultimately show ?thesis using ob co by blast
qed

theorem conceal_repeats_last_packet_witness:
  "\<exists>st' out'. plc_observe (plc_init libreac_doc mode_48k 0 0) (replicate 1440 7) = Some st' \<and>
     plc_conceal st' (replicate 1440 0) 0 = Some (out', PLC_TIER_REPEAT_XFADE)"
proof -
  let ?st = "plc_init libreac_doc mode_48k 0 0"
  have "plc_ok ?st" by (rule plc_init_ok(1)) (simp_all add: libreac_doc_def)
  moreover have "N_of ?st = 40" "S_of ?st = 12" by (simp_all add: plc_init_def Let_def)
  ultimately show ?thesis
    using conceal_repeats_last_packet[of ?st "replicate 1440 7" "replicate 1440 0"] by auto
qed



text \<open>
  C40.  Silence is not only a cold-start fallback: from loss index \<open>fade_packets\<close> on every
  sample of every channel is zero, whatever audio the history holds.
\<close>

theorem long_burst_is_silence:
  assumes "plc_ok st" and "plc_fade_flat_packets st < k" and "plc_fade_packets st \<le> k"
    and "length out = N_of st * S_of st * 3"
  shows "\<exists>out' tier. plc_conceal st out k = Some (out', tier) \<and>
    (\<forall>ch < N_of st. block_samples (S_of st) out' ch = replicate (S_of st) 0)"
proof -
  have g: "burst_gain_q15 st k = Some 0" using assms by (simp add: burst_gain_q15_def)
  have k: "k \<noteq> 0" using assms by (simp add: plc_ok_def)
  have "conceal_value (S_of st) (plc_xfade_w st) 0 k h s = 0" for h s
    using k by (simp add: conceal_value_def)
  then have "map (conceal_value (S_of st) (plc_xfade_w st) 0 k h) [0..<S_of st] = replicate (S_of st) 0" for h
    by (intro nth_equalityI) simp_all
  then have "block_samples (S_of st) (concealed_pcm st 0 k) ch = replicate (S_of st) 0"
    if "ch < N_of st" for ch
    using block_samples_concealed[OF assms(1) g that] by simp
  moreover have "plc_conceal st out k = Some (concealed_pcm st 0 k, worst_tier st k)"
    using plc_conceal_eq[OF assms(1) g] assms(4) by (simp add: blit_full)
  ultimately show ?thesis by auto
qed

theorem long_burst_is_silence_witness:
  "\<exists>st' out' tier. plc_observe (plc_init libreac_doc mode_48k 0 0) (replicate 1440 7) = Some st' \<and>
     plc_conceal st' (replicate 1440 9) 200 = Some (out', tier) \<and>
     block_samples 12 out' 39 = replicate 12 0"
proof -
  let ?st = "plc_init libreac_doc mode_48k 0 0"
  have st: "plc_ok ?st" by (rule plc_init_ok(1)) (simp_all add: libreac_doc_def)
  have d: "N_of ?st = 40" "S_of ?st = 12" "plc_fade_packets ?st = 200" "plc_fade_flat_packets ?st = 40"
    by (simp_all add: plc_init_def Let_def signed_divide_int_def)
  obtain st' where ob: "plc_observe ?st (replicate 1440 7) = Some st'"
    using plc_observe_eq[OF st, of "replicate 1440 7"] d by auto
  have fr: "plc_ok st'" "plc_S st' = plc_S ?st" "plc_n_channels st' = plc_n_channels ?st"
      "plc_fade_packets st' = plc_fade_packets ?st"
      "plc_fade_flat_packets st' = plc_fade_flat_packets ?st"
    using plc_observe_frame[OF st _ ob] d by auto
  from long_burst_is_silence[OF fr(1), of 200 "replicate 1440 9"] d
  show ?thesis using ob by (auto simp: fr)
qed

end
