(* ===== verification/Reac_Ring.thy ===== *)
theory Reac_Ring
  imports Reac_Prelude
begin

text \<open>
  The single-producer single-consumer sample ring of \<open>pipewire/src/reac_ring.c\<close>.  The ring only
  copies samples and fills with zero, so the sample type is any type with a zero.  The
  operations are modelled here as the code runs them on one thread; the interleaving of a
  producer and a consumer thread is the subject of the theory \<open>Ring_Spsc\<close>.
\<close>

record 'a reac_ring =
  rg_buf :: "'a list"
  rg_capacity :: u32
  rg_mask :: u32
  rg_channels :: u32
  rg_head :: u32
  rg_tail :: u32
  rg_underruns :: u64
  rg_overruns :: u64

definition next_pow2 :: "u32 \<Rightarrow> u32" where
  "next_pow2 v =
     (if v < 2 then 2
      else
        let v = v - 1;
            v = v OR drop_bit 1 v; v = v OR drop_bit 2 v; v = v OR drop_bit 4 v;
            v = v OR drop_bit 8 v; v = v OR drop_bit 16 v
        in v + 1)"

text \<open>\<open>calloc\<close> is a parameter: whether a request of so many elements is granted.\<close>

definition reac_ring_init ::
  "(nat \<Rightarrow> bool) \<Rightarrow> 'a::zero reac_ring \<Rightarrow> u32 \<Rightarrow> u32 \<Rightarrow> int \<times> 'a reac_ring" where
  "reac_ring_init calloc r channels capacity_frames =
     (let cap = next_pow2 capacity_frames in
      if \<not> calloc (unat cap * unat channels) then (-1, r\<lparr>rg_buf := []\<rparr>)
      else (0, \<lparr>rg_buf = replicate (unat cap * unat channels) 0, rg_capacity = cap,
                rg_mask = cap - 1, rg_channels = channels, rg_head = 0, rg_tail = 0,
                rg_underruns = 0, rg_overruns = 0\<rparr>))"

definition reac_ring_free :: "'a reac_ring \<Rightarrow> 'a reac_ring" where
  "reac_ring_free r = r\<lparr>rg_buf := []\<rparr>"

definition reac_ring_readable :: "'a reac_ring \<Rightarrow> u32" where
  "reac_ring_readable r = (rg_head r - rg_tail r) AND rg_mask r"

definition reac_ring_writable :: "'a reac_ring \<Rightarrow> u32" where
  "reac_ring_writable r = rg_mask r - reac_ring_readable r"

definition reac_ring_write ::
  "'a reac_ring \<Rightarrow> 'a list \<Rightarrow> u32 \<Rightarrow> (u32 \<times> 'a reac_ring) option" where
  "reac_ring_write r planar_pcm n = (
     let n = (if n > rg_mask r then rg_mask r else n);
         stride = n;
         free_slots = reac_ring_writable r;
         r = (if n > free_slots
              then r\<lparr>rg_overruns := rg_overruns r + ucast (n - free_slots)\<rparr> else r);
         w = (if n > free_slots then free_slots else n)
     in
     if n > free_slots \<and> w = 0 then Some (0, r)
     else do {
       let h = rg_head r;
       buf \<leftarrow> forn (unat (rg_channels r)) (\<lambda>c buf. do {
           (buf, pos) \<leftarrow> forn (unat w) (\<lambda>s (buf, pos). do {
               v \<leftarrow> rd planar_pcm (c * unat stride + s);
               buf \<leftarrow> wr buf (c * unat (rg_capacity r) + unat pos) v;
               Some (buf, (pos + 1) AND rg_mask r)
             }) (buf, h);
           Some buf
         }) (rg_buf r);
       Some (w, r\<lparr>rg_buf := buf, rg_head := (h + w) AND rg_mask r\<rparr>)
     })"

definition reac_ring_read_planar ::
  "'a::zero reac_ring \<Rightarrow> 'a list list \<Rightarrow> u32 \<Rightarrow> u32 \<Rightarrow> (u32 \<times> 'a reac_ring \<times> 'a list list) option" where
  "reac_ring_read_planar r dst channels n = do {
     let avail = reac_ring_readable r;
     let real = (if avail < n then avail else n);
     let t = rg_tail r;
     let nch = (if channels < rg_channels r then channels else rg_channels r);
     dst \<leftarrow> forn (unat nch) (\<lambda>c dst. do {
         out \<leftarrow> rd dst c;
         (out, pos) \<leftarrow> forn (unat real) (\<lambda>s (out, pos). do {
             v \<leftarrow> rd (rg_buf r) (c * unat (rg_capacity r) + unat pos);
             out \<leftarrow> wr out s v;
             Some (out, (pos + 1) AND rg_mask r)
           }) (out, t);
         out \<leftarrow> forn (unat n - unat real) (\<lambda>k out. wr out (unat real + k) 0) out;
         wr dst c out
       }) dst;
     let r = r\<lparr>rg_tail := (t + real) AND rg_mask r\<rparr>;
     let r = (if real < n then r\<lparr>rg_underruns := rg_underruns r + ucast (n - real)\<rparr> else r);
     Some (real, r, dst)
   }"

definition reac_ring_trim :: "'a reac_ring \<Rightarrow> u32 \<Rightarrow> u32 \<times> 'a reac_ring" where
  "reac_ring_trim r keep =
     (let avail = reac_ring_readable r in
      if avail \<le> keep then (0, r)
      else
        let drop = avail - keep; t = rg_tail r
        in (drop, r\<lparr>rg_tail := (t + drop) AND rg_mask r\<rparr>))"

subsection \<open>The power of two\<close>

lemma smear_bit:
  fixes v :: u32
  defines "a \<equiv> v OR drop_bit 1 v"
  defines "b \<equiv> a OR drop_bit 2 a"
  defines "c \<equiv> b OR drop_bit 4 b"
  defines "d \<equiv> c OR drop_bit 8 c"
  defines "e \<equiv> d OR drop_bit 16 d"
  shows "bit e i \<longleftrightarrow> (\<exists>j < 32. bit v (i + j))"
proof -
  have a: "bit a i \<longleftrightarrow> (\<exists>j < 2. bit v (i + j))" for i
    unfolding a_def by (auto simp: bit_simps less_2_cases_iff add.commute)
  have step: "bit (y OR drop_bit m y) i \<longleftrightarrow> (\<exists>j < m + m. bit v (i + j))"
    if "\<And>i. bit y i \<longleftrightarrow> (\<exists>j < m. bit v (i + j))" for y :: u32 and m i
  proof -
    have "(\<exists>j < m + m. P j) \<longleftrightarrow> (\<exists>j < m. P j) \<or> (\<exists>j < m. P (m + j))" for P :: "nat \<Rightarrow> bool"
      by (metis add_less_cancel_left le_add_diff_inverse linorder_not_less trans_less_add1)
    then show ?thesis using that by (simp add: bit_simps add.assoc add.left_commute)
  qed
  have b: "bit b i \<longleftrightarrow> (\<exists>j < 4. bit v (i + j))" for i unfolding b_def using step[OF a] by simp
  have c: "bit c i \<longleftrightarrow> (\<exists>j < 8. bit v (i + j))" for i unfolding c_def using step[OF b] by simp
  have d: "bit d i \<longleftrightarrow> (\<exists>j < 16. bit v (i + j))" for i unfolding d_def using step[OF c] by simp
  show ?thesis unfolding e_def using step[OF d] by simp
qed

lemma unat_pow2: "k \<le> 31 \<Longrightarrow> unat (2 ^ k :: u32) = 2 ^ k"
proof -
  assume "k \<le> 31"
  then have "k < 32" by simp
  then have "unat (of_nat (2 ^ k) :: u32) = 2 ^ k"
    by (simp only: unsigned_of_nat) (simp add: take_bit_nat_eq_self)
  then show ?thesis by simp
qed

lemma top_bit:
  fixes x :: u32
  assumes "0 < unat x"
  obtains K where "K < 32" "2 ^ K \<le> unat x" "unat x < 2 ^ Suc K" "bit x K" "\<And>i. K < i \<Longrightarrow> \<not> bit x i"
proof -
  obtain K where K: "2 ^ K \<le> unat x" "unat x < 2 ^ (K + 1)"
    using ex_power_ivl1[of 2 "unat x"] assms by auto
  have "(2::nat) ^ K < 2 ^ 32" using K(1) unat_bound(3)[of x] by simp
  then have "K < 32" by (rule power_less_imp_less_exp[rotated]) simp
  have nat: "bit x i \<longleftrightarrow> odd (unat x div 2 ^ i)" for i
    using bit_iff_odd[of "unat x" i] by (simp add: bit_unsigned_iff)
  have "unat x div 2 ^ K = 1" using K by (simp add: div_nat_eqI)
  then have "bit x K" by (simp add: nat)
  moreover have "\<not> bit x i" if "K < i" for i
  proof -
    have "(2::nat) ^ (K + 1) \<le> 2 ^ i" using that by (intro power_increasing) auto
    then show ?thesis using K(2) by (simp add: nat)
  qed
  ultimately show thesis using that K \<open>K < 32\<close> by simp
qed

lemma next_pow2_eq:
  assumes "2 \<le> unat v"
  shows "\<exists>K < 32. next_pow2 v = 2 ^ Suc K \<and> 2 ^ K < unat v \<and> unat v \<le> 2 ^ Suc K"
proof -
  have v: "unat (v - 1) = unat v - 1" using assms by (simp add: unat_sub word_le_nat_alt)
  obtain K where K: "K < 32" "2 ^ K \<le> unat (v - 1)" "unat (v - 1) < 2 ^ Suc K" "bit (v - 1) K"
      "\<And>i. K < i \<Longrightarrow> \<not> bit (v - 1) i"
    using top_bit[of "v - 1"] assms v by auto
  define e where "e = next_pow2 v - 1"
  have "\<not> v < 2" using assms by (simp add: word_less_nat_alt)
  then have e: "bit e i \<longleftrightarrow> (\<exists>j < 32. bit (v - 1) (i + j))" for i
    unfolding e_def next_pow2_def using smear_bit[of "v - 1" i] by (simp add: Let_def)
  have "e = mask (Suc K)"
  proof (rule bit_word_eqI)
    fix i assume "i < LENGTH(32)"
    have "(\<exists>j < 32. bit (v - 1) (i + j)) \<longleftrightarrow> i \<le> K"
    proof
      assume "\<exists>j < 32. bit (v - 1) (i + j)"
      then show "i \<le> K" using K(5) by (meson linorder_not_less not_add_less1 order_less_le_trans le_add1)
    next
      assume "i \<le> K"
      then show "\<exists>j < 32. bit (v - 1) (i + j)" using K(1,4) by (intro exI[of _ "K - i"]) auto
    qed
    then show "bit e i \<longleftrightarrow> bit (mask (Suc K) :: u32) i"
      using \<open>i < LENGTH(32)\<close> by (auto simp: e bit_simps)
  qed
  then have "next_pow2 v = 2 ^ Suc K" by (simp add: e_def mask_eq_exp_minus_1 eq_diff_eq)
  moreover have "2 ^ K < unat v" "unat v \<le> 2 ^ Suc K" using K(2,3) v assms by auto
  ultimately show ?thesis using K(1) by blast
qed

lemma next_pow2_cases:
  "if unat v \<le> 2 ^ 31
   then \<exists>k. 1 \<le> k \<and> k \<le> 31 \<and> unat (next_pow2 v) = 2 ^ k \<and> unat v \<le> 2 ^ k \<and>
     2 ^ k < max 3 (2 * unat v)
   else next_pow2 v = 0"
proof (cases "2 \<le> unat v")
  case False
  then have "next_pow2 v = 2" by (simp add: next_pow2_def word_less_nat_alt)
  with False show ?thesis by (auto intro!: exI[of _ 1])
next
  case True
  obtain K where K: "K < 32" "next_pow2 v = 2 ^ Suc K" "2 ^ K < unat v" "unat v \<le> 2 ^ Suc K"
    using next_pow2_eq[OF True] by blast
  show ?thesis
  proof (cases "K = 31")
    case True
    with K have "next_pow2 v = 0" "2 ^ 31 < unat v" by simp_all
    then show ?thesis by simp
  next
    case False
    with K have "Suc K \<le> 31" by simp
    then have "unat (2 ^ Suc K :: u32) = 2 ^ Suc K" by (rule unat_pow2)
    moreover have "(2::nat) ^ Suc K \<le> 2 ^ 31" using \<open>Suc K \<le> 31\<close> by (rule power_increasing) simp
    then have "unat v \<le> 2 ^ 31" using K(4) by (rule order_trans[rotated])
    ultimately show ?thesis using K \<open>Suc K \<le> 31\<close> by (auto intro!: exI[of _ "Suc K"])
  qed
qed

text \<open>
  For a request of at most \<open>2 ^ 31\<close> frames the capacity is a power of two, at least
  two, at least the request, and less than twice it.  For a larger request the result is 0.
\<close>

theorem next_pow2_rounds_up:
  "if unat v \<le> 2 ^ 31
   then \<exists>k. 1 \<le> k \<and> k \<le> 31 \<and> unat (next_pow2 v) = 2 ^ k \<and> unat v \<le> 2 ^ k \<and>
     2 ^ k < max 3 (2 * unat v)
   else next_pow2 v = 0"
  by (rule next_pow2_cases)

subsection \<open>Positions modulo the capacity\<close>

lemma and_mask_mod:
  assumes "unat c = 2 ^ k" and "k \<le> 31"
  shows "unat (x AND (c - 1)) = unat (x :: u32) mod unat c"
proof -
  have "c = 2 ^ k" by (rule word_unat_eq_iff[THEN iffD2]) (simp only: assms(1) unat_pow2[OF assms(2)])
  then have "x AND (c - 1) = take_bit k x" by (simp add: take_bit_eq_mask mask_eq_exp_minus_1)
  then have "unat (x AND (c - 1)) = take_bit k (unat x)" by (simp only: unsigned_take_bit_eq)
  then show ?thesis by (simp add: take_bit_eq_mod assms(1))
qed

text \<open>Addition and subtraction around a circle of \<open>C\<close> slots, as case distinctions.\<close>

lemma wrap_add: "x < C \<Longrightarrow> y < C \<Longrightarrow> (x + y) mod C = (if x + y < C then x + y else x + y - (C::nat))"
  by (simp add: mod_if)

lemma wrap_sub: "x < C \<Longrightarrow> y < C \<Longrightarrow> (x + (C - y)) mod C = (if y \<le> x then x - y else x + C - (y::nat))"
  by (auto simp: mod_if)

definition ring_dist :: "nat \<Rightarrow> nat \<Rightarrow> nat \<Rightarrow> nat" where
  "ring_dist C a b = (b + (C - a)) mod C"

lemma dist_eq: "a < C \<Longrightarrow> b < C \<Longrightarrow> ring_dist C a b = (if a \<le> b then b - a else b + C - a)"
  unfolding ring_dist_def by (rule wrap_sub)

lemma dist_less: "0 < C \<Longrightarrow> ring_dist C a b < C"
  by (simp add: ring_dist_def)

lemma dist_add: "a < C \<Longrightarrow> s < C \<Longrightarrow> ring_dist C a ((a + s) mod C) = s"
  by (auto simp: dist_eq wrap_add)

lemma add_dist: "a < C \<Longrightarrow> b < C \<Longrightarrow> (a + ring_dist C a b) mod C = b"
  by (auto simp: dist_eq wrap_add)

subsection \<open>The invariant and the abstract queue\<close>

definition ring_ok :: "'a reac_ring \<Rightarrow> bool" where
  "ring_ok r \<longleftrightarrow> (\<exists>k \<in> {1..31}. unat (rg_capacity r) = 2 ^ k) \<and> rg_mask r = rg_capacity r - 1 \<and>
     length (rg_buf r) = unat (rg_channels r) * unat (rg_capacity r) \<and>
     unat (rg_head r) < unat (rg_capacity r) \<and> unat (rg_tail r) < unat (rg_capacity r)"

abbreviation cap_of :: "'a reac_ring \<Rightarrow> nat" where "cap_of r \<equiv> unat (rg_capacity r)"
abbreviation chans_of :: "'a reac_ring \<Rightarrow> nat" where "chans_of r \<equiv> unat (rg_channels r)"

text \<open>
  A time step is the list of the samples of all channels.  The ring stands for the queue of the
  time steps between tail and head.
\<close>

definition column :: "'a reac_ring \<Rightarrow> nat \<Rightarrow> 'a list" where
  "column r q = map (\<lambda>c. rg_buf r ! (c * cap_of r + q)) [0..<chans_of r]"

definition level :: "'a reac_ring \<Rightarrow> nat" where
  "level r = ring_dist (cap_of r) (unat (rg_tail r)) (unat (rg_head r))"

definition queue_of :: "'a reac_ring \<Rightarrow> 'a list list" where
  "queue_of r = map (\<lambda>i. column r ((unat (rg_tail r) + i) mod cap_of r)) [0..<level r]"

lemma ring_okD:
  assumes "ring_ok r"
  shows "2 \<le> cap_of r" "unat (rg_mask r) = cap_of r - 1"
    "\<And>x. unat (x AND rg_mask r) = unat x mod cap_of r"
    "cap_of r dvd 2 ^ 32"
proof -
  obtain k where k: "1 \<le> k" "k \<le> 31" "cap_of r = 2 ^ k" and m: "rg_mask r = rg_capacity r - 1"
    using assms by (auto simp: ring_ok_def)
  have "(2::nat) ^ 1 \<le> 2 ^ k" using k(1) by (rule power_increasing) simp
  then show c: "2 \<le> cap_of r" by (simp add: k)
  then show "unat (rg_mask r) = cap_of r - 1" by (simp add: m unat_sub word_le_nat_alt)
  show "unat (x AND rg_mask r) = unat x mod cap_of r" for x
    unfolding m by (rule and_mask_mod[OF k(3,2)])
  show "cap_of r dvd 2 ^ 32" unfolding k(3) using k(2) by (intro le_imp_power_dvd) simp
qed

lemma unat_readable: "ring_ok r \<Longrightarrow> unat (reac_ring_readable r) = level r"
proof -
  assume ok: "ring_ok r"
  let ?C = "cap_of r" and ?h = "unat (rg_head r)" and ?t = "unat (rg_tail r)"
  note d = ring_okD[OF ok]
  have ht: "?h < ?C" "?t < ?C" using ok by (auto simp: ring_ok_def)
  have C: "?C \<le> 2 ^ 32" using d(4) by (rule dvd_imp_le) simp
  have "unat (rg_head r - rg_tail r) mod ?C = ring_dist ?C ?t ?h"
  proof (cases "?t \<le> ?h")
    case True
    then show ?thesis using ht by (simp add: unat_sub word_le_nat_alt dist_eq)
  next
    case False
    have "unat (rg_head r - rg_tail r) = 2 ^ 32 - (?t - ?h)"
      using False by (simp add: unat_sub_if_size word_size)
    moreover obtain q where q: "2 ^ 32 = ?C * q" using d(4) by (auto simp: dvd_def)
    have "0 < q" using q by (cases q) auto
    then have "?C * q - (?t - ?h) = ?C * (q - 1) + (?C - (?t - ?h))"
      using ht False by (cases q) auto
    moreover have "?C - (?t - ?h) < ?C" "?C - (?t - ?h) = ?h + ?C - ?t" using ht False by linarith+
    ultimately have "unat (rg_head r - rg_tail r) mod ?C = ?h + ?C - ?t"
      unfolding q by (metis mod_mult_self4 mod_less)
    then show ?thesis using ht False by (simp add: dist_eq)
  qed
  then show ?thesis by (simp add: reac_ring_readable_def d(3) level_def)
qed

lemma level_less: "ring_ok r \<Longrightarrow> level r < cap_of r"
  using ring_okD(1)[of r] by (simp add: level_def dist_less)

lemma unat_writable: "ring_ok r \<Longrightarrow> unat (reac_ring_writable r) = cap_of r - 1 - level r"
  using level_less[of r] ring_okD(2)[of r] unat_readable[of r]
  by (simp add: reac_ring_writable_def unat_sub word_le_nat_alt)

lemma length_queue_of [simp]: "length (queue_of r) = level r"
  by (simp add: queue_of_def)

lemma step_pos:
  assumes "ring_ok r" and "unat pos = (a + i) mod cap_of r"
  shows "unat ((pos + 1) AND rg_mask r) = (a + Suc i) mod cap_of r"
proof -
  have "unat (pos + 1) mod cap_of r = (unat pos + 1) mod 2 ^ 32 mod cap_of r"
    by (simp add: unat_word_ariths)
  also have "\<dots> = (unat pos + 1) mod cap_of r" by (rule mod_mod_cancel[OF ring_okD(4)[OF assms(1)]])
  also have "\<dots> = (a + Suc i) mod cap_of r" by (simp add: assms(2) mod_Suc_eq)
  finally show ?thesis by (simp only: ring_okD(3)[OF assms(1)])
qed

lemma advance_pos:
  assumes "ring_ok r"
  shows "unat ((pos + w) AND rg_mask r) = (unat pos + unat w) mod cap_of r"
proof -
  have "unat (pos + w) mod cap_of r = (unat pos + unat w) mod 2 ^ 32 mod cap_of r"
    by (simp add: unat_word_ariths)
  also have "\<dots> = (unat pos + unat w) mod cap_of r"
    by (rule mod_mod_cancel[OF ring_okD(4)[OF assms]])
  finally show ?thesis by (simp only: ring_okD(3)[OF assms])
qed

subsection \<open>Writing\<close>

lemma slot_index:
  assumes "c < N" and "q < C"
  shows "c * C + q < N * (C::nat)"
  using assms by (rule index_bound)

lemma slot_inj: "q < C \<Longrightarrow> q' < C \<Longrightarrow> c * C + q = c' * C + q' \<longleftrightarrow> c = c' \<and> q = (q'::nat)"
proof
  assume q: "q < C" "q' < C" and e: "c * C + q = c' * C + q'"
  have "(c * C + q) div C = c" "(c' * C + q') div C = c'" using q by auto
  with e show "c = c' \<and> q = q'" by auto
qed auto

text \<open>
  Copying \<open>w\<close> samples of one channel: slot \<open>q\<close> of that channel receives the sample whose index
  is its distance from the head, if that is below \<open>w\<close>; every other slot keeps its value.
\<close>

lemma write_channel:
  assumes ok: "ring_ok r" and c: "c < chans_of r" and w: "w < cap_of r"
    and src: "c * stride + w \<le> length src" and buf: "length buf = chans_of r * cap_of r"
    and h: "unat h < cap_of r"
  shows "\<exists>buf' pos. forn w (\<lambda>s (buf, pos). do {
               v \<leftarrow> rd src (c * stride + s);
               buf \<leftarrow> wr buf (c * cap_of r + unat pos) v;
               Some (buf, (pos + 1) AND rg_mask r)
             }) (buf, h) = Some (buf', pos) \<and> length buf' = length buf \<and>
    (\<forall>d < chans_of r. \<forall>q < cap_of r. buf' ! (d * cap_of r + q) =
       (if d = c \<and> ring_dist (cap_of r) (unat h) q < w
        then src ! (c * stride + ring_dist (cap_of r) (unat h) q) else buf ! (d * cap_of r + q)))"
proof -
  let ?C = "cap_of r" and ?h = "unat h"
  let ?P = "\<lambda>i (b, pos :: u32). unat pos = (?h + i) mod ?C \<and> length b = length buf \<and>
    (\<forall>d < chans_of r. \<forall>q < ?C. b ! (d * ?C + q) =
       (if d = c \<and> ring_dist ?C ?h q < i then src ! (c * stride + ring_dist ?C ?h q) else buf ! (d * ?C + q)))"
  let ?body = "\<lambda>s (buf, pos). do {
               v \<leftarrow> rd src (c * stride + s);
               buf \<leftarrow> wr buf (c * ?C + unat pos) v;
               Some (buf, (pos + 1) AND rg_mask r)
             }"
  have "\<exists>t. forn w ?body (buf, h) = Some t \<and> ?P w t"
  proof (rule forn_rule[where P = ?P])
    show "?P 0 (buf, h)" using h by simp
    fix i t
    assume i: "i < w" and "?P i t"
    then obtain b pos where t: "t = (b, pos)" and pos: "unat pos = (?h + i) mod ?C"
      and len: "length b = length buf" and old: "\<forall>d < chans_of r. \<forall>q < ?C. b ! (d * ?C + q) =
       (if d = c \<and> ring_dist ?C ?h q < i then src ! (c * stride + ring_dist ?C ?h q) else buf ! (d * ?C + q))"
      by (cases t) auto
    have iC: "i < ?C" using i w by simp
    have p: "unat pos < ?C" using pos h by simp
    have idx: "c * ?C + unat pos < length b" using slot_index[OF c p] buf len by simp
    let ?b = "b[c * ?C + unat pos := src ! (c * stride + i)]"
    have "?b ! (d * ?C + q) = (if d = c \<and> ring_dist ?C ?h q < Suc i
        then src ! (c * stride + ring_dist ?C ?h q) else buf ! (d * ?C + q))"
      if d: "d < chans_of r" and q: "q < ?C" for d q
    proof (cases "d = c \<and> q = unat pos")
      case True
      then have "ring_dist ?C ?h q = i" using pos dist_add[OF h iC] by simp
      then show ?thesis using True idx by simp
    next
      case False
      then have ne: "d * ?C + q \<noteq> c * ?C + unat pos" using slot_inj[OF q p] by blast
      have "ring_dist ?C ?h q \<noteq> i" if "d = c"
        using False that add_dist[OF h q] pos by auto
      then show ?thesis using ne old d q by (auto simp: less_Suc_eq)
    qed
    then show "\<exists>t'. ?body i t = Some t' \<and> ?P (Suc i) t'"
      using i src idx len step_pos[OF ok pos] by (simp add: t wr_def)
  qed
  then show ?thesis by auto
qed

text \<open>The whole write, as an effect on the abstract queue.\<close>

definition accepted :: "nat \<Rightarrow> nat \<Rightarrow> 'a list \<Rightarrow> nat \<Rightarrow> 'a list list" where
  "accepted N stride src w = map (\<lambda>s. map (\<lambda>c. src ! (c * stride + s)) [0..<N]) [0..<w]"

lemma write_all:
  assumes ok: "ring_ok r" and w: "w < cap_of r" and ws: "w \<le> stride"
    and src: "chans_of r * stride \<le> length src"
  shows "\<exists>buf'. forn (chans_of r) (\<lambda>c buf. do {
           (buf, pos) \<leftarrow> forn w (\<lambda>s (buf, pos). do {
               v \<leftarrow> rd src (c * stride + s);
               buf \<leftarrow> wr buf (c * cap_of r + unat pos) v;
               Some (buf, (pos + 1) AND rg_mask r)
             }) (buf, rg_head r);
           Some buf
         }) (rg_buf r) = Some buf' \<and> length buf' = length (rg_buf r) \<and>
    (\<forall>d < chans_of r. \<forall>q < cap_of r. buf' ! (d * cap_of r + q) =
       (if ring_dist (cap_of r) (unat (rg_head r)) q < w
        then src ! (d * stride + ring_dist (cap_of r) (unat (rg_head r)) q)
        else rg_buf r ! (d * cap_of r + q)))"
proof -
  let ?C = "cap_of r" and ?N = "chans_of r" and ?h = "unat (rg_head r)"
  have h: "?h < ?C" and len: "length (rg_buf r) = ?N * ?C" using ok by (auto simp: ring_ok_def)
  let ?P = "\<lambda>i b. length b = length (rg_buf r) \<and> (\<forall>d < ?N. \<forall>q < ?C. b ! (d * ?C + q) =
       (if d < i \<and> ring_dist ?C ?h q < w then src ! (d * stride + ring_dist ?C ?h q)
        else rg_buf r ! (d * ?C + q)))"
  let ?body = "\<lambda>c buf. do {
           (buf, pos) \<leftarrow> forn w (\<lambda>s (buf, pos). do {
               v \<leftarrow> rd src (c * stride + s);
               buf \<leftarrow> wr buf (c * ?C + unat pos) v;
               Some (buf, (pos + 1) AND rg_mask r)
             }) (buf, rg_head r);
           Some buf }"
  have "\<exists>t. forn ?N ?body (rg_buf r) = Some t \<and> ?P ?N t"
  proof (rule forn_rule[where P = ?P])
    show "?P 0 (rg_buf r)" by simp
    fix c b
    assume c: "c < ?N" and b: "?P c b"
    have "Suc c * stride \<le> ?N * stride" using c by (intro mult_le_mono1) simp
    then have s: "c * stride + w \<le> length src" using src ws by simp
    obtain b' pos where b': "forn w (\<lambda>s (buf, pos). do {
               v \<leftarrow> rd src (c * stride + s);
               buf \<leftarrow> wr buf (c * ?C + unat pos) v;
               Some (buf, (pos + 1) AND rg_mask r)
             }) (b, rg_head r) = Some (b', pos)" "length b' = length b"
        "\<forall>d < ?N. \<forall>q < ?C. b' ! (d * ?C + q) = (if d = c \<and> ring_dist ?C ?h q < w
           then src ! (c * stride + ring_dist ?C ?h q) else b ! (d * ?C + q))"
      using write_channel[OF ok c w s _ h, of b] b len by auto
    have "?P (Suc c) b'" using b b'(2,3) by (auto simp: less_Suc_eq)
    then show "\<exists>b'. ?body c b = Some b' \<and> ?P (Suc c) b'" using b'(1) by auto
  qed
  then show ?thesis by auto
qed

lemma queue_after_write:
  assumes ok: "ring_ok r" and w: "w \<le> cap_of r - 1 - level r"
    and buf: "\<forall>d < chans_of r. \<forall>q < cap_of r. buf' ! (d * cap_of r + q) =
       (if ring_dist (cap_of r) (unat (rg_head r)) q < w
        then src ! (d * stride + ring_dist (cap_of r) (unat (rg_head r)) q)
        else rg_buf r ! (d * cap_of r + q))"
    and r': "rg_buf r' = buf'" "unat (rg_head r') = (unat (rg_head r) + w) mod cap_of r"
      "rg_tail r' = rg_tail r" "rg_capacity r' = rg_capacity r" "rg_channels r' = rg_channels r"
  shows "queue_of r' = queue_of r @ accepted (chans_of r) stride src w" and "level r' = level r + w"
proof -
  let ?C = "cap_of r" and ?h = "unat (rg_head r)" and ?t = "unat (rg_tail r)"
  have ht: "?h < ?C" "?t < ?C" using ok by (auto simp: ring_ok_def)
  have lv: "level r < ?C" using level_less[OF ok] .
  have wC: "w < ?C" using w lv by linarith
  show lev: "level r' = level r + w"
    using w ht wC by (auto simp: level_def r' dist_eq wrap_add split: if_splits)
  have old: "column r' ((?t + i) mod ?C) = column r ((?t + i) mod ?C)" if "i < level r" for i
  proof -
    have "\<not> ring_dist ?C ?h ((?t + i) mod ?C) < w"
      using that w ht lv by (auto simp: level_def dist_eq wrap_add split: if_splits)
    then show ?thesis using buf ht by (simp add: column_def r')
  qed
  have new: "column r' ((?t + (level r + s)) mod ?C) = map (\<lambda>c. src ! (c * stride + s)) [0..<chans_of r]"
    if "s < w" for s
  proof -
    have sC: "s < ?C" using that wC by simp
    have "(?t + (level r + s)) mod ?C = (?h + s) mod ?C"
      using add_dist[OF ht(2,1)] by (metis add.assoc level_def mod_add_left_eq)
    moreover have "ring_dist ?C ?h ((?h + s) mod ?C) = s" using dist_add[OF ht(1) sC] .
    ultimately show ?thesis using buf that ht(1) by (simp add: column_def r')
  qed
  show "queue_of r' = queue_of r @ accepted (chans_of r) stride src w"
  proof (rule nth_equalityI)
    show "length (queue_of r') = length (queue_of r @ accepted (chans_of r) stride src w)"
      by (simp add: lev accepted_def)
    fix i assume i: "i < length (queue_of r')"
    show "queue_of r' ! i = (queue_of r @ accepted (chans_of r) stride src w) ! i"
    proof (cases "i < level r")
      case True
      then show ?thesis using old i by (simp add: queue_of_def nth_append r' accepted_def)
    next
      case False
      then have "i = level r + (i - level r)" "i - level r < w" using i lev by auto
      with new[of "i - level r"] i False show ?thesis
        by (simp add: queue_of_def nth_append r' accepted_def)
    qed
  qed
qed

lemma ring_write_eq:
  assumes ok: "ring_ok r" and src: "chans_of r * unat n \<le> length src"
  defines "stride \<equiv> min (unat n) (cap_of r - 1)"
  defines "w \<equiv> min stride (cap_of r - 1 - level r)"
  shows "\<exists>r'. reac_ring_write r src n = Some (of_nat w, r') \<and> ring_ok r' \<and>
    queue_of r' = queue_of r @ accepted (chans_of r) stride src w \<and>
    rg_tail r' = rg_tail r \<and> rg_capacity r' = rg_capacity r \<and> rg_channels r' = rg_channels r \<and>
    rg_underruns r' = rg_underruns r \<and> rg_overruns r' = rg_overruns r + of_nat (stride - w)"
proof -
  let ?C = "cap_of r" and ?m = "rg_mask r"
  note d = ring_okD[OF ok] and lv = level_less[OF ok]
  define n' where "n' = (if n > ?m then ?m else n)"
  have n': "unat n' = stride" using d(2) by (auto simp: n'_def stride_def word_less_nat_alt)
  define f where "f = reac_ring_writable r"
  have f: "unat f = ?C - 1 - level r" using unat_writable[OF ok] by (simp add: f_def)
  define wd where "wd = (if n' > f then f else n')"
  have wd: "unat wd = w" using n' f by (auto simp: wd_def w_def word_less_nat_alt min_def)
  have wd2: "wd = of_nat w" unfolding wd[symmetric] by (simp add: of_nat_unat)
  define r1 where "r1 = (if n' > f then r\<lparr>rg_overruns := rg_overruns r + ucast (n' - f)\<rparr> else r)"
  have over: "rg_overruns r1 = rg_overruns r + of_nat (stride - w)"
  proof (cases "n' > f")
    case True
    then have "unat (n' - f) = stride - w"
      using n' f by (simp add: unat_sub word_le_nat_alt word_less_nat_alt w_def)
    then have "ucast (n' - f) = (of_nat (stride - w) :: u64)" by (metis of_nat_unat)
    then show ?thesis using True by (simp add: r1_def)
  next
    case False
    then show ?thesis using n' f by (simp add: r1_def w_def word_less_nat_alt min_def)
  qed
  have r1: "rg_buf r1 = rg_buf r" "rg_head r1 = rg_head r" "rg_tail r1 = rg_tail r" "rg_mask r1 = ?m"
      "rg_capacity r1 = rg_capacity r" "rg_channels r1 = rg_channels r" "rg_underruns r1 = rg_underruns r"
    by (simp_all add: r1_def)
  have ok1: "ring_ok r1" and lv1: "level r1 = level r" and q1: "queue_of r1 = queue_of r"
    using ok by (simp_all add: ring_ok_def r1 level_def queue_of_def column_def)
  show ?thesis
  proof (cases "n' > f \<and> wd = 0")
    case True
    then have "w = 0" using wd by simp
    then have "reac_ring_write r src n = Some (of_nat w, r1)"
    proof -
      have "f = 0" "0 < n'" using True by (auto simp: wd_def)
      then show ?thesis
        unfolding reac_ring_write_def n'_def[symmetric] f_def[symmetric] Let_def
        by (simp add: r1_def \<open>w = 0\<close>)
    qed
    then show ?thesis
      using ok1 q1 r1 over \<open>w = 0\<close> by (auto simp: accepted_def)
  next
    case False
    have wC: "w < ?C" "w \<le> stride" using lv d(1) by (auto simp: w_def)
    have "stride \<le> unat n" by (simp add: stride_def)
    then have s: "chans_of r * stride \<le> length src" using src by (meson mult_le_mono2 order_trans)
    obtain buf' where buf': "forn (chans_of r) (\<lambda>c buf. do {
           (buf, pos) \<leftarrow> forn w (\<lambda>s (buf, pos). do {
               v \<leftarrow> rd src (c * stride + s);
               buf \<leftarrow> wr buf (c * cap_of r + unat pos) v;
               Some (buf, (pos + 1) AND rg_mask r)
             }) (buf, rg_head r);
           Some buf
         }) (rg_buf r) = Some buf'" "length buf' = length (rg_buf r)"
       "\<forall>d < chans_of r. \<forall>q < cap_of r. buf' ! (d * cap_of r + q) =
       (if ring_dist (cap_of r) (unat (rg_head r)) q < w
        then src ! (d * stride + ring_dist (cap_of r) (unat (rg_head r)) q)
        else rg_buf r ! (d * cap_of r + q))"
      using write_all[OF ok wC s] by auto
    define r2 where "r2 = r1\<lparr>rg_buf := buf', rg_head := (rg_head r + wd) AND ?m\<rparr>"
    have run: "reac_ring_write r src n = Some (wd, r2)"
      using False buf'(1) unfolding reac_ring_write_def
      by (simp only: n'_def[symmetric] f_def[symmetric] r1_def[symmetric] wd_def[symmetric] Let_def
          if_False n' wd r1 r2_def bind.bind_lunit)
    have head: "unat (rg_head r2) = (unat (rg_head r) + w) mod ?C"
      using advance_pos[OF ok, of "rg_head r" wd] wd by (simp add: r2_def)
    have q: "queue_of r2 = queue_of r @ accepted (chans_of r) stride src w"
      by (rule queue_after_write(1)[OF ok _ buf'(3)]) (use head in \<open>simp_all add: r2_def r1 w_def\<close>)
    have "ring_ok r2"
      using ok head buf'(2) d(1) by (simp add: ring_ok_def r2_def r1)
    then show ?thesis using run[unfolded wd2] q over by (auto simp: r2_def r1)
  qed
qed

subsection \<open>Reading and trimming\<close>

lemma queue_after_advance:
  assumes ok: "ring_ok r" and d: "d \<le> level r"
    and r': "unat (rg_tail r') = (unat (rg_tail r) + d) mod cap_of r" "rg_head r' = rg_head r"
      "rg_buf r' = rg_buf r" "rg_capacity r' = rg_capacity r" "rg_channels r' = rg_channels r"
      "rg_mask r' = rg_mask r"
  shows "queue_of r' = drop d (queue_of r)" "ring_ok r'"
proof -
  let ?C = "cap_of r" and ?h = "unat (rg_head r)" and ?t = "unat (rg_tail r)"
  have ht: "?h < ?C" "?t < ?C" using ok by (auto simp: ring_ok_def)
  have dC: "d < ?C" using d level_less[OF ok] by simp
  have lev: "level r' = level r - d"
    using d ht dC by (auto simp: level_def r' dist_eq wrap_add split: if_splits)
  have "((?t + d) mod ?C + i) mod ?C = (?t + (d + i)) mod ?C" for i
    by (simp add: mod_add_left_eq add.assoc)
  moreover have col: "column r' = column r" by (rule ext) (simp add: column_def r')
  moreover have "queue_of r' ! i = queue_of r ! (d + i)" if "i < level r - d" for i
  proof -
    have "d + i < level r" using that by simp
    then show ?thesis using col calculation(1)[of i] that by (simp add: queue_of_def lev r')
  qed
  ultimately show "queue_of r' = drop d (queue_of r)"
    using d by (intro list_eq_iff_nth_eq[THEN iffD2]) (simp add: lev)
  show "ring_ok r'" using ok ht by (simp add: ring_ok_def r')
qed

text \<open>One channel of a read: the samples at the front of the queue, then silence.\<close>

definition channel_out :: "'a::zero list list \<Rightarrow> nat \<Rightarrow> nat \<Rightarrow> nat \<Rightarrow> 'a list" where
  "channel_out q c real n = map (\<lambda>s. q ! s ! c) [0..<real] @ replicate (n - real) 0"

lemma read_channel:
  assumes ok: "ring_ok r" and c: "c < chans_of r" and real: "real \<le> level r" "real \<le> n"
    and out: "n \<le> length out"
  shows "\<exists>pos. forn real (\<lambda>s (out, pos). do {
             v \<leftarrow> rd (rg_buf r) (c * cap_of r + unat pos);
             out \<leftarrow> wr out s v;
             Some (out, (pos + 1) AND rg_mask r)
           }) (out, rg_tail r) = Some (map (\<lambda>s. queue_of r ! s ! c) [0..<real] @ drop real out, pos)"
proof -
  let ?C = "cap_of r" and ?t = "unat (rg_tail r)"
  have t: "?t < ?C" and len: "length (rg_buf r) = chans_of r * ?C" using ok by (auto simp: ring_ok_def)
  let ?P = "\<lambda>i (o', pos :: u32). unat pos = (?t + i) mod ?C \<and>
     o' = map (\<lambda>s. queue_of r ! s ! c) [0..<i] @ drop i out"
  let ?body = "\<lambda>s (out, pos). do {
             v \<leftarrow> rd (rg_buf r) (c * ?C + unat pos);
             out \<leftarrow> wr out s v;
             Some (out, (pos + 1) AND rg_mask r)
           }"
  have "\<exists>x. forn real ?body (out, rg_tail r) = Some x \<and> ?P real x"
  proof (rule forn_rule[where P = ?P])
    show "?P 0 (out, rg_tail r)" using t by simp
    fix i x
    assume i: "i < real" and "?P i x"
    then obtain pos where x: "x = (map (\<lambda>s. queue_of r ! s ! c) [0..<i] @ drop i out, pos)"
      and pos: "unat pos = (?t + i) mod ?C" by (cases x) auto
    have "unat pos < ?C" using pos t by simp
    then have idx: "c * ?C + unat pos < length (rg_buf r)" using slot_index[OF c] len by simp
    have v: "rg_buf r ! (c * ?C + unat pos) = queue_of r ! i ! c"
      using i real c by (simp add: queue_of_def column_def pos)
    have "i < length out" using i real out by linarith
    then have "(map (\<lambda>s. queue_of r ! s ! c) [0..<i] @ drop i out)[i := queue_of r ! i ! c]
        = map (\<lambda>s. queue_of r ! s ! c) [0..<Suc i] @ drop (Suc i) out"
      by (simp add: list_update_append Cons_nth_drop_Suc[symmetric])
    then show "\<exists>x'. ?body i x = Some x' \<and> ?P (Suc i) x'"
      using idx v step_pos[OF ok pos] \<open>i < length out\<close> by (simp add: x wr_def)
  qed
  then show ?thesis by auto
qed

lemma zero_fill:
  "real + k \<le> length out \<Longrightarrow>
   forn k (\<lambda>i out. wr out (real + i) (0::'a::zero)) out = Some (blit out real (replicate k 0))"
  using forn_blit[of k "\<lambda>_. [0]" 1 out "\<lambda>i out. wr out (real + i) 0" real]
  by (simp add: wr_blit map_replicate_const concat_replicate_trivial)

lemma ring_read_eq:
  assumes ok: "ring_ok r" and dst: "min (unat channels) (chans_of r) \<le> length dst"
    "\<forall>c < min (unat channels) (chans_of r). unat n \<le> length (dst ! c)"
  defines "real \<equiv> min (unat n) (level r)"
  shows "\<exists>r' dst'. reac_ring_read_planar r dst channels n = Some (of_nat real, r', dst') \<and>
    ring_ok r' \<and> queue_of r' = drop real (queue_of r) \<and> length dst' = length dst \<and>
    (\<forall>c < length dst. dst' ! c = (if c < min (unat channels) (chans_of r)
       then channel_out (queue_of r) c real (unat n) @ drop (unat n) (dst ! c) else dst ! c)) \<and>
    rg_capacity r' = rg_capacity r \<and> rg_channels r' = rg_channels r \<and> rg_overruns r' = rg_overruns r \<and>
    rg_underruns r' = rg_underruns r + of_nat (unat n - real)"
proof -
  let ?C = "cap_of r" and ?q = "queue_of r" and ?n = "unat n"
  define avail where "avail = reac_ring_readable r"
  have av: "unat avail = level r" using unat_readable[OF ok] by (simp add: avail_def)
  define rl where "rl = (if avail < n then avail else n)"
  have rl: "unat rl = real" using av by (auto simp: rl_def real_def word_less_nat_alt)
  have rl2: "rl = of_nat real" unfolding rl[symmetric] by (simp add: of_nat_unat)
  define nch where "nch = (if channels < rg_channels r then channels else rg_channels r)"
  have nch: "unat nch = min (unat channels) (chans_of r)" by (auto simp: nch_def word_less_nat_alt)
  have bounds: "real \<le> level r" "real \<le> ?n" by (simp_all add: real_def)
  let ?row = "\<lambda>c. channel_out ?q c real ?n @ drop ?n (dst ! c)"
  let ?P = "\<lambda>i d. length d = length dst \<and> (\<forall>c < length dst. d ! c = (if c < i then ?row c else dst ! c))"
  let ?body = "\<lambda>c dst. do {
         out \<leftarrow> rd dst c;
         (out, pos) \<leftarrow> forn real (\<lambda>s (out, pos). do {
             v \<leftarrow> rd (rg_buf r) (c * ?C + unat pos);
             out \<leftarrow> wr out s v;
             Some (out, (pos + 1) AND rg_mask r)
           }) (out, rg_tail r);
         out \<leftarrow> forn (?n - real) (\<lambda>k out. wr out (real + k) 0) out;
         wr dst c out
       }"
  have "\<exists>d. forn (unat nch) ?body dst = Some d \<and> ?P (unat nch) d"
  proof (rule forn_rule[where P = ?P])
    show "?P 0 dst" by simp
    fix c d
    assume c: "c < unat nch" and d: "?P c d"
    then have cl: "c < length dst" "c < chans_of r" "?n \<le> length (dst ! c)" using dst nch by auto
    obtain pos where one: "forn real (\<lambda>s (out, pos). do {
             v \<leftarrow> rd (rg_buf r) (c * ?C + unat pos);
             out \<leftarrow> wr out s v;
             Some (out, (pos + 1) AND rg_mask r)
           }) (dst ! c, rg_tail r) = Some (map (\<lambda>s. ?q ! s ! c) [0..<real] @ drop real (dst ! c), pos)"
      using read_channel[OF ok cl(2) bounds cl(3)] by auto
    have two: "forn (?n - real) (\<lambda>k out. wr out (real + k) 0) (map (\<lambda>s. ?q ! s ! c) [0..<real] @ drop real (dst ! c))
        = Some (?row c)"
      using zero_fill[of real "?n - real" "map (\<lambda>s. ?q ! s ! c) [0..<real] @ drop real (dst ! c)"] bounds cl(3)
      by (simp add: blit_def channel_out_def)
    have "?body c d = Some (d[c := ?row c])" using d cl one two by (simp add: wr_def)
    then show "\<exists>d'. ?body c d = Some d' \<and> ?P (Suc c) d'"
      using d cl by (auto simp: nth_list_update less_Suc_eq)
  qed
  then obtain dst' where loop: "forn (unat nch) ?body dst = Some dst'" and P: "?P (unat nch) dst'" by blast
  define r1 where "r1 = r\<lparr>rg_tail := (rg_tail r + rl) AND rg_mask r\<rparr>"
  define r2 where "r2 = (if rl < n then r1\<lparr>rg_underruns := rg_underruns r1 + ucast (n - rl)\<rparr> else r1)"
  have run: "reac_ring_read_planar r dst channels n = Some (rl, r2, dst')"
    unfolding reac_ring_read_planar_def avail_def[symmetric] rl_def[symmetric] nch_def[symmetric] Let_def rl
      r2_def r1_def using loop by simp
  have sel: "rg_head r2 = rg_head r" "rg_buf r2 = rg_buf r" "rg_capacity r2 = rg_capacity r"
      "rg_channels r2 = rg_channels r" "rg_mask r2 = rg_mask r" "rg_overruns r2 = rg_overruns r"
      "rg_tail r2 = (rg_tail r + rl) AND rg_mask r"
    by (simp_all add: r2_def r1_def)
  have tail: "unat (rg_tail r2) = (unat (rg_tail r) + real) mod ?C"
    using advance_pos[OF ok, of "rg_tail r" rl] rl by (simp add: sel)
  have "rg_underruns r2 = rg_underruns r + of_nat (?n - real)"
  proof (cases "rl < n")
    case True
    then have "unat (n - rl) = ?n - real" using rl by (simp add: unat_sub word_le_nat_alt word_less_nat_alt)
    then have "ucast (n - rl) = (of_nat (?n - real) :: u64)" by (metis of_nat_unat)
    then show ?thesis using True by (simp add: r2_def r1_def)
  next
    case False
    then show ?thesis using rl bounds(2) by (simp add: r2_def r1_def word_less_nat_alt)
  qed
  then show ?thesis
    using run[unfolded rl2] queue_after_advance[OF ok bounds(1) tail sel(1,2,3,4,5)] P nch sel by auto
qed

lemma ring_trim_eq:
  fixes keep :: u32
  assumes ok: "ring_ok r"
  defines "d \<equiv> level r - unat keep"
  shows "\<exists>r'. reac_ring_trim r keep = (of_nat d, r') \<and> ring_ok r' \<and> queue_of r' = drop d (queue_of r) \<and>
    rg_capacity r' = rg_capacity r \<and> rg_channels r' = rg_channels r \<and>
    rg_underruns r' = rg_underruns r \<and> rg_overruns r' = rg_overruns r"
proof (cases "level r \<le> unat keep")
  case True
  then show ?thesis
    using ok unat_readable[OF ok] by (simp add: reac_ring_trim_def word_le_nat_alt d_def)
next
  case False
  define dw where "dw = reac_ring_readable r - keep"
  have dw: "unat dw = d"
    using False unat_readable[OF ok] by (simp add: dw_def unat_sub word_le_nat_alt d_def)
  have dw2: "dw = of_nat d" unfolding dw[symmetric] by (simp add: of_nat_unat)
  define r' where "r' = r\<lparr>rg_tail := (rg_tail r + dw) AND rg_mask r\<rparr>"
  have "\<not> reac_ring_readable r \<le> keep" using False unat_readable[OF ok] by (simp add: word_le_nat_alt)
  then have "reac_ring_trim r keep = (dw, r')"
    by (simp add: reac_ring_trim_def r'_def dw_def[symmetric])
  moreover have "unat (rg_tail r') = (unat (rg_tail r) + d) mod cap_of r"
    using advance_pos[OF ok, of "rg_tail r" dw] dw by (simp add: r'_def)
  ultimately show ?thesis
    using queue_after_advance[OF ok, of d r'] dw2 by (simp add: r'_def d_def)
qed

subsection \<open>The ring as a queue\<close>

text \<open>
  The contract of a bounded queue with lossy ends: an operation appends the items it accepts and
  removes items from the front.  The history lemma holds for every provider.
\<close>

primrec fifo_run :: "('op \<Rightarrow> 'r \<Rightarrow> 'r option) \<Rightarrow> 'op list \<Rightarrow> 'r \<Rightarrow> 'r option" where
  "fifo_run step [] r = Some r"
| "fifo_run step (op # ops) r = step op r \<bind> fifo_run step ops"

text \<open>The items put in and taken out by a run, in order.\<close>

primrec fifo_in :: "('op \<Rightarrow> 'r \<Rightarrow> 'r option) \<Rightarrow> ('op \<Rightarrow> 'r \<Rightarrow> 'x list) \<Rightarrow> 'op list \<Rightarrow> 'r \<Rightarrow> 'x list" where
  "fifo_in step ins [] r = []"
| "fifo_in step ins (op # ops) r =
     ins op r @ (case step op r of None \<Rightarrow> [] | Some r' \<Rightarrow> fifo_in step ins ops r')"

primrec fifo_out :: "('op \<Rightarrow> 'r \<Rightarrow> 'r option) \<Rightarrow> ('op \<Rightarrow> 'r \<Rightarrow> 'x list) \<Rightarrow> 'op list \<Rightarrow> 'r \<Rightarrow> 'x list" where
  "fifo_out step del [] r = []"
| "fifo_out step del (op # ops) r =
     del op r @ (case step op r of None \<Rightarrow> [] | Some r' \<Rightarrow> fifo_out step del ops r')"

locale lossy_fifo =
  fixes inv :: "'r \<Rightarrow> bool" and queue :: "'r \<Rightarrow> 'x list" and legal :: "'op \<Rightarrow> 'r \<Rightarrow> bool"
    and step :: "'op \<Rightarrow> 'r \<Rightarrow> 'r option" and ins :: "'op \<Rightarrow> 'r \<Rightarrow> 'x list" and del :: "'op \<Rightarrow> 'r \<Rightarrow> 'x list"
  assumes step_ok: "inv r \<Longrightarrow> legal op r \<Longrightarrow>
      \<exists>r'. step op r = Some r' \<and> inv r' \<and> del op r @ queue r' = queue r @ ins op r \<and>
        (\<forall>op'. legal op' r' = legal op' r)"
begin

lemma history:
  assumes "inv r" and "\<forall>op \<in> set ops. legal op r"
  shows "\<exists>r'. fifo_run step ops r = Some r' \<and> inv r' \<and>
    fifo_out step del ops r @ queue r' = queue r @ fifo_in step ins ops r"
  using assms
proof (induction ops arbitrary: r)
  case Nil
  then show ?case by simp
next
  case (Cons op ops)
  then obtain r1 where r1: "step op r = Some r1" "inv r1" "del op r @ queue r1 = queue r @ ins op r"
      "\<forall>op'. legal op' r1 = legal op' r"
    using step_ok[of r op] by auto
  then obtain r2 where "fifo_run step ops r1 = Some r2" "inv r2"
      "fifo_out step del ops r1 @ queue r2 = queue r1 @ fifo_in step ins ops r1"
    using Cons.IH[of r1] Cons.prems(2) by auto
  moreover from this(3) r1(3) have "del op r @ fifo_out step del ops r1 @ queue r2
      = queue r @ ins op r @ fifo_in step ins ops r1" by (metis append.assoc)
  ultimately show ?case using r1(1) by simp
qed

end

datatype 'a ring_op = RingWrite "'a list" u32 | RingRead "'a list list" u32 u32 | RingTrim u32

fun ring_step :: "'a::zero ring_op \<Rightarrow> 'a reac_ring \<Rightarrow> 'a reac_ring option" where
  "ring_step (RingWrite src n) r = map_option snd (reac_ring_write r src n)"
| "ring_step (RingRead dst ch n) r = map_option (\<lambda>x. fst (snd x)) (reac_ring_read_planar r dst ch n)"
| "ring_step (RingTrim keep) r = Some (snd (reac_ring_trim r keep))"

fun ring_legal :: "'a ring_op \<Rightarrow> 'a reac_ring \<Rightarrow> bool" where
  "ring_legal (RingWrite src n) r \<longleftrightarrow> chans_of r * unat n \<le> length src \<and> unat n < cap_of r"
| "ring_legal (RingRead dst ch n) r \<longleftrightarrow> min (unat ch) (chans_of r) \<le> length dst \<and>
     (\<forall>c < min (unat ch) (chans_of r). unat n \<le> length (dst ! c))"
| "ring_legal (RingTrim keep) r \<longleftrightarrow> True"

fun ring_ins :: "'a ring_op \<Rightarrow> 'a reac_ring \<Rightarrow> 'a list list" where
  "ring_ins (RingWrite src n) r =
     accepted (chans_of r) (unat n) src (min (unat n) (cap_of r - 1 - length (queue_of r)))"
| "ring_ins _ r = []"

fun ring_del :: "'a ring_op \<Rightarrow> 'a reac_ring \<Rightarrow> 'a list list" where
  "ring_del (RingWrite src n) r = []"
| "ring_del (RingRead dst ch n) r = take (unat n) (queue_of r)"
| "ring_del (RingTrim keep) r = take (length (queue_of r) - unat keep) (queue_of r)"

interpretation ring: lossy_fifo ring_ok queue_of ring_legal ring_step ring_ins ring_del
proof
  fix r :: "'a::zero reac_ring" and op :: "'a ring_op"
  assume ok: "ring_ok r" and legal: "ring_legal op r"
  have stable: "(\<forall>op'. ring_legal op' r' = ring_legal op' r)"
    if "rg_capacity r' = rg_capacity r" "rg_channels r' = rg_channels r" for r' :: "'a reac_ring"
  proof
    fix op' :: "'a ring_op"
    show "ring_legal op' r' = ring_legal op' r" by (cases op') (simp_all add: that)
  qed
  show "\<exists>r'. ring_step op r = Some r' \<and> ring_ok r' \<and>
      ring_del op r @ queue_of r' = queue_of r @ ring_ins op r \<and>
      (\<forall>op'. ring_legal op' r' = ring_legal op' r)"
  proof (cases op)
    case (RingWrite src n)
    then have n: "min (unat n) (cap_of r - 1) = unat n" "chans_of r * unat n \<le> length src"
      using legal by auto
    obtain r' where "reac_ring_write r src n = Some (of_nat (min (unat n) (cap_of r - 1 - level r)), r')"
        "ring_ok r'" "queue_of r' = queue_of r @ ring_ins op r" "rg_capacity r' = rg_capacity r"
        "rg_channels r' = rg_channels r"
      using ring_write_eq[OF ok n(2)] unfolding n(1) RingWrite ring_ins.simps length_queue_of by blast
    then show ?thesis using stable[of r'] unfolding RingWrite by simp
  next
    case (RingRead dst ch n)
    have "take (unat n) (queue_of r) = take (min (unat n) (level r)) (queue_of r)" by (simp add: min_def)
    moreover obtain r' dst' where "reac_ring_read_planar r dst ch n = Some (of_nat (min (unat n) (level r)), r', dst')"
        "ring_ok r'" "queue_of r' = drop (min (unat n) (level r)) (queue_of r)"
        "rg_capacity r' = rg_capacity r" "rg_channels r' = rg_channels r"
      using ring_read_eq[OF ok, of ch dst n] legal unfolding RingRead ring_legal.simps by blast
    ultimately show ?thesis using stable[of r'] unfolding RingRead by simp
  next
    case (RingTrim keep)
    obtain r' where "reac_ring_trim r keep = (of_nat (level r - unat keep), r')" "ring_ok r'"
        "queue_of r' = drop (level r - unat keep) (queue_of r)"
        "rg_capacity r' = rg_capacity r" "rg_channels r' = rg_channels r"
      using ring_trim_eq[OF ok, of keep] by blast
    then show ?thesis using stable[of r'] unfolding RingTrim by simp
  qed
qed

lemma ring_init_ok:
  assumes "unat capacity \<le> 2 ^ 31" and "calloc (unat (next_pow2 capacity) * unat channels)"
  shows "\<exists>r'. reac_ring_init calloc r channels capacity = (0, r') \<and> ring_ok r' \<and> queue_of r' = [] \<and>
    rg_channels r' = channels \<and> rg_capacity r' = next_pow2 capacity \<and> rg_overruns r' = 0 \<and> rg_underruns r' = 0"
proof -
  obtain k where k: "1 \<le> k" "k \<le> 31" "unat (next_pow2 capacity) = 2 ^ k"
    using next_pow2_cases[of capacity] assms(1) by auto
  then show ?thesis
    using assms(2)
    by (auto simp: reac_ring_init_def Let_def ring_ok_def queue_of_def level_def ring_dist_def mult.commute)
qed



text \<open>
  A write keeps what is in the ring and appends as many of the block's time steps as fit, from the
  block's start: on overrun it is the newest time steps that are dropped, and the
  overrun counter grows by their number.
\<close>

theorem ring_write_drops_newest:
  assumes "ring_ok r" and "chans_of r * unat n \<le> length src" and "unat n < cap_of r"
    and "w = min (unat n) (cap_of r - 1 - length (queue_of r))"
  shows "\<exists>r'. reac_ring_write r src n = Some (of_nat w, r') \<and> ring_ok r' \<and>
    queue_of r' = queue_of r @ map (\<lambda>s. map (\<lambda>c. src ! (c * unat n + s)) [0..<chans_of r]) [0..<w] \<and>
    rg_overruns r' = rg_overruns r + of_nat (unat n - w) \<and> rg_tail r' = rg_tail r"
proof -
  have "min (unat n) (cap_of r - 1) = unat n" using assms(3) by simp
  then show ?thesis
    using ring_write_eq[OF assms(1,2)] assms(4) unfolding accepted_def length_queue_of by metis
qed

theorem ring_write_drops_newest_witness:
  "\<exists>r'. reac_ring_write (snd (reac_ring_init (\<lambda>_. True) undefined 1 2)) [7::int] 1 = Some (1, r') \<and>
     queue_of r' = [[7]]"
proof -
  let ?r = "snd (reac_ring_init (\<lambda>_. True) undefined 1 2) :: int reac_ring"
  have r: "ring_ok ?r" "queue_of ?r = []" "rg_channels ?r = 1" "rg_capacity ?r = next_pow2 2"
    using ring_init_ok[of 2 "\<lambda>_. True" 1 "undefined :: int reac_ring"] by auto
  moreover have "next_pow2 2 = 2" by (simp add: next_pow2_def Let_def)
  ultimately show ?thesis using ring_write_drops_newest[of ?r 1 "[7]" 1] by auto
qed

text \<open>
  A read fills exactly \<open>n\<close> samples of every destination channel, with the oldest time
  steps of the ring followed by zeros when there are too few, removes what it delivered,
  and counts the missing samples (not quanta) as underruns.  Buffers beyond the channel
  count and samples beyond \<open>n\<close> are not touched.
\<close>

theorem ring_read_fills:
  assumes "ring_ok r" and "unat channels \<le> chans_of r" and "length dst = unat channels"
    and "\<forall>out \<in> set dst. unat n \<le> length out" and "real = min (unat n) (length (queue_of r))"
  shows "\<exists>r' dst'. reac_ring_read_planar r dst channels n = Some (of_nat real, r', dst') \<and> ring_ok r' \<and>
    queue_of r' = drop real (queue_of r) \<and>
    dst' = map (\<lambda>c. map (\<lambda>s. queue_of r ! s ! c) [0..<real] @ replicate (unat n - real) 0
                      @ drop (unat n) (dst ! c)) [0..<unat channels] \<and>
    rg_underruns r' = rg_underruns r + of_nat (unat n - real)"
proof -
  let ?q = "queue_of r"
  have m: "min (unat channels) (chans_of r) = unat channels" using assms(2) by simp
  have rl: "min (unat n) (level r) = real" using assms(5) by simp
  have d: "unat channels \<le> length dst" "\<forall>c < unat channels. unat n \<le> length (dst ! c)" using assms(3,4) by auto
  obtain r' dst' where r': "reac_ring_read_planar r dst channels n = Some (of_nat real, r', dst')"
      "ring_ok r'" "queue_of r' = drop real ?q" "length dst' = length dst"
      "\<forall>c < length dst. dst' ! c = (if c < unat channels
         then channel_out ?q c real (unat n) @ drop (unat n) (dst ! c) else dst ! c)"
      "rg_underruns r' = rg_underruns r + of_nat (unat n - real)"
    using ring_read_eq[OF assms(1), of channels dst n, unfolded m, OF d] unfolding rl by blast
  have "dst' = map (\<lambda>c. map (\<lambda>s. ?q ! s ! c) [0..<real] @ replicate (unat n - real) 0
                      @ drop (unat n) (dst ! c)) [0..<unat channels]"
    using r'(4,5) assms(3) by (intro list_eq_iff_nth_eq[THEN iffD2]) (simp add: channel_out_def)
  with r' show ?thesis by blast
qed

theorem ring_read_fills_witness:
  "\<exists>r' dst'. reac_ring_read_planar (snd (reac_ring_init (\<lambda>_. True) undefined 1 2)) [[5::int, 6, 7]] 1 2
     = Some (0, r', dst') \<and> dst' = [[0, 0, 7]]"
proof -
  let ?r = "snd (reac_ring_init (\<lambda>_. True) undefined 1 2) :: int reac_ring"
  have "ring_ok ?r" "queue_of ?r = []" "rg_channels ?r = 1"
    using ring_init_ok[of 2 "\<lambda>_. True" 1 "undefined :: int reac_ring"] by auto
  moreover have "replicate 2 (0::int) = [0, 0]" by (simp add: numeral_2_eq_2)
  ultimately show ?thesis using ring_read_fills[of ?r 1 "[[5, 6, 7]]" 2 0] by auto
qed

text \<open>
  A write wider than the ring mixes channels up: the request is cut to the mask before
  the stride is taken from it, so channel \<open>c\<close> is read at \<open>c * mask\<close> of a block whose
  channels are \<open>n\<close> apart.
\<close>

theorem wide_write_stride:
  assumes "ring_ok r" and "chans_of r * unat n \<le> length src" and "cap_of r \<le> unat n"
    and "queue_of r = []"
  shows "\<exists>r'. reac_ring_write r src n = Some (of_nat (cap_of r - 1), r') \<and>
    queue_of r' = map (\<lambda>s. map (\<lambda>c. src ! (c * (cap_of r - 1) + s)) [0..<chans_of r]) [0..<cap_of r - 1]"
proof -
  have "min (unat n) (cap_of r - 1) = cap_of r - 1" using assms(3) by simp
  moreover have "level r = 0" using assms(4) length_queue_of[of r] by simp
  ultimately show ?thesis using ring_write_eq[OF assms(1,2)] assms(4) by (auto simp: accepted_def)
qed

theorem wide_write_stride_witness:
  "\<exists>r'. reac_ring_write (snd (reac_ring_init (\<lambda>_. True) undefined 2 2)) [10::int, 11, 20, 21] 2 = Some (1, r') \<and>
     queue_of r' = [[10, 11]]"
proof -
  let ?r = "snd (reac_ring_init (\<lambda>_. True) undefined 2 2) :: int reac_ring"
  have "ring_ok ?r" "queue_of ?r = []" "rg_channels ?r = 2" "rg_capacity ?r = next_pow2 2"
    using ring_init_ok[of 2 "\<lambda>_. True" 2 "undefined :: int reac_ring"] by auto
  moreover have "next_pow2 2 = 2" by (simp add: next_pow2_def Let_def)
  moreover have "[0..<2] = [0, 1]" by (simp add: upt_rec)
  ultimately show ?thesis
    using wide_write_stride[of ?r 2 "[10, 11, 20, 21]"] by auto
qed

end
