(* ===== verification/Ring_Spsc.thy ===== *)
theory Ring_Spsc
  imports Reac_Ring
begin

text \<open>
  The ring under its two threads: the feeder thread runs \<open>reac_ring_write\<close> while the realtime
  callback runs \<open>reac_ring_trim\<close> and \<open>reac_ring_read_planar\<close>.  Every load and store of shared memory is a
  step of its own, in the order of the code: the producer samples the free space once,
  stores sample after sample, then publishes the head; the consumer samples the fill once,
  loads sample after sample, then publishes the tail.  The release store of an index and the acquire load
  of it on the other side order the sample accesses, so the steps interleave on one shared state.

  \<open>sent\<close> and \<open>received\<close> record the time steps published by the producer and taken by the
  consumer, the latter from the values the consumer actually loaded.
\<close>

text \<open>A copy loop in progress: its arguments and the number of samples copied.\<close>

datatype 'a producer =
    PIdle
  | PCopy "'a list" nat nat nat  \<comment> \<open>source, stride, time steps to write, samples stored\<close>

datatype 'a consumer =
    CIdle
  | CCopy "'a list list" nat nat  \<comment> \<open>destination, time steps to read, samples loaded\<close>
  | CTrim nat                     \<comment> \<open>time steps to drop\<close>

record 'a spsc =
  sp_ring :: "'a reac_ring"
  sp_prod :: "'a producer"
  sp_cons :: "'a consumer"
  sp_sent :: "'a list list"
  sp_received :: "'a list list"

abbreviation head_slot :: "'a reac_ring \<Rightarrow> nat \<Rightarrow> nat \<Rightarrow> nat" where
  "head_slot r c s \<equiv> c * cap_of r + (unat (rg_head r) + s) mod cap_of r"

abbreviation tail_slot :: "'a reac_ring \<Rightarrow> nat \<Rightarrow> nat \<Rightarrow> nat" where
  "tail_slot r c s \<equiv> c * cap_of r + (unat (rg_tail r) + s) mod cap_of r"

inductive spsc_step :: "'a spsc \<Rightarrow> 'a spsc \<Rightarrow> bool" where
  p_begin: "sp_prod st = PIdle \<Longrightarrow> sp_ring st = r \<Longrightarrow>
     chans_of r * n \<le> length src \<Longrightarrow> n < cap_of r \<Longrightarrow>
     w = min n (unat (reac_ring_writable r)) \<Longrightarrow> 0 < w \<Longrightarrow>
     spsc_step st (st\<lparr>sp_prod := PCopy src n w 0\<rparr>)"
| p_store: "sp_prod st = PCopy src n w j \<Longrightarrow> sp_ring st = r \<Longrightarrow> j < chans_of r * w \<Longrightarrow>
     spsc_step st (st\<lparr>
       sp_ring := r\<lparr>rg_buf := (rg_buf r)[head_slot r (j div w) (j mod w) := src ! (j div w * n + j mod w)]\<rparr>,
       sp_prod := PCopy src n w (Suc j)\<rparr>)"
| p_publish: "sp_prod st = PCopy src n w j \<Longrightarrow> sp_ring st = r \<Longrightarrow> j = chans_of r * w \<Longrightarrow>
     spsc_step st (st\<lparr>
       sp_ring := r\<lparr>rg_head := (rg_head r + of_nat w) AND rg_mask r\<rparr>,
       sp_prod := PIdle,
       sp_sent := sp_sent st @ accepted (chans_of r) n src w\<rparr>)"
| c_begin: "sp_cons st = CIdle \<Longrightarrow> sp_ring st = r \<Longrightarrow>
     length dst = chans_of r \<Longrightarrow> \<forall>out \<in> set dst. n \<le> length out \<Longrightarrow>
     real = min n (unat (reac_ring_readable r)) \<Longrightarrow>
     spsc_step st (st\<lparr>sp_cons := CCopy dst real 0\<rparr>)"
| c_load: "sp_cons st = CCopy dst real j \<Longrightarrow> sp_ring st = r \<Longrightarrow> j < chans_of r * real \<Longrightarrow>
     spsc_step st (st\<lparr>sp_cons := CCopy
       (dst[j div real := (dst ! (j div real))[j mod real := rg_buf r ! tail_slot r (j div real) (j mod real)]])
       real (Suc j)\<rparr>)"
| c_publish: "sp_cons st = CCopy dst real j \<Longrightarrow> sp_ring st = r \<Longrightarrow> j = chans_of r * real \<Longrightarrow>
     spsc_step st (st\<lparr>
       sp_ring := r\<lparr>rg_tail := (rg_tail r + of_nat real) AND rg_mask r\<rparr>,
       sp_cons := CIdle,
       sp_received := sp_received st @ map (\<lambda>s. map (\<lambda>c. dst ! c ! s) [0..<chans_of r]) [0..<real]\<rparr>)"
| c_trim: "sp_cons st = CIdle \<Longrightarrow> sp_ring st = r \<Longrightarrow>
     d = unat (reac_ring_readable r) - keep \<Longrightarrow> 0 < d \<Longrightarrow>
     spsc_step st (st\<lparr>sp_cons := CTrim d\<rparr>)"
| c_drop: "sp_cons st = CTrim d \<Longrightarrow> sp_ring st = r \<Longrightarrow>
     spsc_step st (st\<lparr>
       sp_ring := r\<lparr>rg_tail := (rg_tail r + of_nat d) AND rg_mask r\<rparr>,
       sp_cons := CIdle,
       sp_received := sp_received st @ take d (queue_of r)\<rparr>)"

inductive_cases spsc_stepE: "spsc_step st st'"

text \<open>The states of a ring that starts empty, both threads idle.\<close>

definition spsc_initial :: "'a spsc \<Rightarrow> bool" where
  "spsc_initial st \<longleftrightarrow> ring_ok (sp_ring st) \<and> queue_of (sp_ring st) = [] \<and>
     sp_prod st = PIdle \<and> sp_cons st = CIdle \<and> sp_sent st = [] \<and> sp_received st = []"

inductive spsc_reachable :: "'a spsc \<Rightarrow> bool" where
  reach_init: "spsc_initial st \<Longrightarrow> spsc_reachable st"
| reach_step: "spsc_reachable st \<Longrightarrow> spsc_step st st' \<Longrightarrow> spsc_reachable st'"

subsection \<open>The invariant\<close>

definition producer_ok :: "'a reac_ring \<Rightarrow> 'a producer \<Rightarrow> bool" where
  "producer_ok r p = (case p of PIdle \<Rightarrow> True | PCopy src n w j \<Rightarrow>
     0 < w \<and> w \<le> n \<and> w \<le> cap_of r - 1 - level r \<and> chans_of r * n \<le> length src \<and> j \<le> chans_of r * w \<and>
     (\<forall>e < j. rg_buf r ! head_slot r (e div w) (e mod w) = src ! (e div w * n + e mod w)))"

definition consumer_ok :: "'a reac_ring \<Rightarrow> 'a consumer \<Rightarrow> bool" where
  "consumer_ok r c = (case c of CIdle \<Rightarrow> True
   | CCopy dst real j \<Rightarrow> real \<le> level r \<and> length dst = chans_of r \<and> (\<forall>out \<in> set dst. real \<le> length out) \<and>
       j \<le> chans_of r * real \<and>
       (\<forall>e < j. dst ! (e div real) ! (e mod real) = queue_of r ! (e mod real) ! (e div real))
   | CTrim d \<Rightarrow> d \<le> level r)"

definition spsc_inv :: "'a spsc \<Rightarrow> bool" where
  "spsc_inv st \<longleftrightarrow> ring_ok (sp_ring st) \<and> sp_received st @ queue_of (sp_ring st) = sp_sent st \<and>
     producer_ok (sp_ring st) (sp_prod st) \<and> consumer_ok (sp_ring st) (sp_cons st)"

lemma slots_apart:
  assumes ok: "ring_ok r" and i: "i < level r" and s: "s < cap_of r - 1 - level r"
  shows "(unat (rg_tail r) + i) mod cap_of r \<noteq> (unat (rg_head r) + s) mod cap_of r"
proof -
  have ht: "unat (rg_head r) < cap_of r" "unat (rg_tail r) < cap_of r" using ok by (auto simp: ring_ok_def)
  have "i < cap_of r" "s < cap_of r" using level_less[OF ok] i s by linarith+
  with ht i s show ?thesis by (auto simp: level_def dist_eq wrap_add split: if_splits)
qed

lemma store_frame:
  fixes r :: "'a reac_ring" and v :: 'a
  assumes ok: "ring_ok r" and c: "c < chans_of r" and s: "s < cap_of r - 1 - level r"
  defines "r' \<equiv> r\<lparr>rg_buf := (rg_buf r)[head_slot r c s := v]\<rparr>"
  shows "head_slot r c s < length (rg_buf r)" "ring_ok r'" "queue_of r' = queue_of r" "level r' = level r"
proof -
  let ?C = "cap_of r"
  have C: "0 < ?C" using ring_okD(1)[OF ok] by simp
  have len: "length (rg_buf r) = chans_of r * ?C" using ok by (simp add: ring_ok_def)
  show "head_slot r c s < length (rg_buf r)" unfolding len using c C by (intro slot_index) auto
  show "ring_ok r'" using ok by (simp add: ring_ok_def r'_def)
  show lv: "level r' = level r" by (simp add: level_def r'_def)
  have "column r' ((unat (rg_tail r) + i) mod ?C) = column r ((unat (rg_tail r) + i) mod ?C)" if "i < level r" for i
  proof -
    have "head_slot r c s \<noteq> d * ?C + (unat (rg_tail r) + i) mod ?C" for d
      using slots_apart[OF ok that s] C slot_inj[of "(unat (rg_tail r) + i) mod ?C" ?C] by (metis mod_less_divisor)
    then show ?thesis by (simp add: column_def r'_def nth_list_update_neq)
  qed
  then show "queue_of r' = queue_of r" by (simp add: queue_of_def lv) (simp add: r'_def)
qed

lemma queue_publish:
  assumes ok: "ring_ok r" and w: "w \<le> cap_of r - 1 - level r" "0 < w"
    and copied: "\<forall>e < chans_of r * w. rg_buf r ! head_slot r (e div w) (e mod w) = src ! (e div w * n + e mod w)"
  defines "r' \<equiv> r\<lparr>rg_head := (rg_head r + of_nat w) AND rg_mask r\<rparr>"
  shows "ring_ok r'" "queue_of r' = queue_of r @ accepted (chans_of r) n src w" "level r' = level r + w"
proof -
  let ?C = "cap_of r" and ?h = "unat (rg_head r)"
  have h: "?h < ?C" using ok by (simp add: ring_ok_def)
  have wC: "w < ?C" using w level_less[OF ok] by linarith
  have "?C < 2 ^ 32" using unat_bound(3)[of "rg_capacity r"] by simp
  then have "unat (of_nat w :: u32) = w" using wC by (simp add: unsigned_of_nat take_bit_nat_eq_self)
  then have head: "unat (rg_head r') = (?h + w) mod ?C"
    using advance_pos[OF ok, of "rg_head r" "of_nat w"] by (simp add: r'_def)
  have "rg_buf r ! (d * ?C + q) = (if ring_dist ?C ?h q < w then src ! (d * n + ring_dist ?C ?h q)
        else rg_buf r ! (d * ?C + q))" if d: "d < chans_of r" and q: "q < ?C" for d q
  proof (cases "ring_dist ?C ?h q < w")
    case True
    let ?e = "d * w + ring_dist ?C ?h q"
    have "?e < chans_of r * w" using d True by (rule index_bound)
    moreover have "?e div w = d" "?e mod w = ring_dist ?C ?h q" using True by auto
    ultimately have "rg_buf r ! (d * ?C + (?h + ring_dist ?C ?h q) mod ?C) = src ! (d * n + ring_dist ?C ?h q)"
      using copied by metis
    then show ?thesis using True add_dist[OF h q] by simp
  qed simp
  then have buf: "\<forall>d < chans_of r. \<forall>q < ?C. rg_buf r ! (d * ?C + q) =
      (if ring_dist ?C ?h q < w then src ! (d * n + ring_dist ?C ?h q) else rg_buf r ! (d * ?C + q))"
    by blast
  show "queue_of r' = queue_of r @ accepted (chans_of r) n src w" "level r' = level r + w"
    by (rule queue_after_write[OF ok w(1) buf]; use head in \<open>simp add: r'_def\<close>)+
  show "ring_ok r'" using ok head h by (simp add: ring_ok_def) (simp add: r'_def)
qed

lemma step_index:
  assumes "j < N * (w::nat)"
  shows "j div w < N" "j mod w < w"
proof -
  have w: "0 < w" using assms by (cases w) auto
  show "j div w < N" using assms by (simp add: less_mult_imp_div_less)
  show "j mod w < w" using w by simp
qed

lemma take_advance:
  assumes ok: "ring_ok r" and d: "d \<le> level r"
  defines "r' \<equiv> r\<lparr>rg_tail := (rg_tail r + of_nat d) AND rg_mask r\<rparr>"
  shows "ring_ok r'" "queue_of r' = drop d (queue_of r)" "level r' = level r - d"
proof -
  have "d < cap_of r" using d level_less[OF ok] by simp
  then have "unat (of_nat d :: u32) = d"
    using unat_bound(3)[of "rg_capacity r"] by (simp add: unsigned_of_nat take_bit_nat_eq_self)
  then have "unat (rg_tail r') = (unat (rg_tail r) + d) mod cap_of r"
    using advance_pos[OF ok, of "rg_tail r" "of_nat d"] by (simp add: r'_def)
  from queue_after_advance[OF ok d this] show ok': "ring_ok r'" and q: "queue_of r' = drop d (queue_of r)"
    by (simp_all add: r'_def)
  from arg_cong[OF q, of length] show "level r' = level r - d" by simp
qed

text \<open>Each thread's steps keep its own half of the invariant and the other's.\<close>

lemma producer_step_inv:
  assumes inv: "spsc_inv st" and prod: "sp_prod st = PCopy src n w j"
  defines "r \<equiv> sp_ring st"
  shows "j < chans_of r * w \<Longrightarrow> spsc_inv (st\<lparr>
       sp_ring := r\<lparr>rg_buf := (rg_buf r)[head_slot r (j div w) (j mod w) := src ! (j div w * n + j mod w)]\<rparr>,
       sp_prod := PCopy src n w (Suc j)\<rparr>)"
    and "j = chans_of r * w \<Longrightarrow> spsc_inv (st\<lparr>
       sp_ring := r\<lparr>rg_head := (rg_head r + of_nat w) AND rg_mask r\<rparr>, sp_prod := PIdle,
       sp_sent := sp_sent st @ accepted (chans_of r) n src w\<rparr>)"
proof -
  let ?C = "cap_of r" and ?N = "chans_of r"
  have ok: "ring_ok r" and hist: "sp_received st @ queue_of r = sp_sent st" and cons: "consumer_ok r (sp_cons st)"
    and w: "0 < w" "w \<le> n" "w \<le> ?C - 1 - level r" and src: "?N * n \<le> length src"
    and copied: "\<forall>e < j. rg_buf r ! head_slot r (e div w) (e mod w) = src ! (e div w * n + e mod w)"
    using inv prod by (simp_all add: spsc_inv_def producer_ok_def r_def)
  show "spsc_inv (st\<lparr>
       sp_ring := r\<lparr>rg_buf := (rg_buf r)[head_slot r (j div w) (j mod w) := src ! (j div w * n + j mod w)]\<rparr>,
       sp_prod := PCopy src n w (Suc j)\<rparr>)" if j: "j < ?N * w"
  proof -
    define r' where "r' = r\<lparr>rg_buf := (rg_buf r)[head_slot r (j div w) (j mod w) := src ! (j div w * n + j mod w)]\<rparr>"
    have s: "j mod w < ?C - 1 - level r" using step_index(2)[OF j] w(3) by simp
    note fr = store_frame(1)[OF ok step_index(1)[OF j] s]
      store_frame(2-4)[OF ok step_index(1)[OF j] s, where v = "src ! (j div w * n + j mod w)", folded r'_def]
    have sel: "cap_of r' = ?C" "chans_of r' = ?N" "rg_head r' = rg_head r" by (simp_all add: r'_def)
    have wC: "w < ?C" using w level_less[OF ok] by linarith
    have "rg_buf r' ! head_slot r (e div w) (e mod w) = src ! (e div w * n + e mod w)" if e: "e < Suc j" for e
    proof (cases "e = j")
      case True
      then show ?thesis using fr(1) by (simp add: r'_def)
    next
      case False
      then have e: "e < j" "e < ?N * w" using that j by auto
      have "head_slot r (e div w) (e mod w) \<noteq> head_slot r (j div w) (j mod w)"
      proof
        assume eq: "head_slot r (e div w) (e mod w) = head_slot r (j div w) (j mod w)"
        have C: "0 < ?C" using wC by simp
        have "e div w = j div w" "(unat (rg_head r) + e mod w) mod ?C = (unat (rg_head r) + j mod w) mod ?C"
          using slot_inj[THEN iffD1, OF _ _ eq] C by simp_all
        moreover have "unat (rg_head r) < ?C" using ok by (simp add: ring_ok_def)
        moreover have "e mod w < ?C" "j mod w < ?C"
          using step_index(2)[OF e(2)] step_index(2)[OF j] wC by linarith+
        ultimately have "e mod w = j mod w" by (metis dist_add)
        with \<open>e div w = j div w\<close> False show False by (metis div_mult_mod_eq)
      qed
      then show ?thesis using copied e(1) by (simp add: r'_def nth_list_update_neq)
    qed
    moreover have "consumer_ok r' (sp_cons st)"
      using cons fr(3,4) sel by (simp add: consumer_ok_def split: consumer.splits)
    ultimately show ?thesis
      using fr(2-4) hist w src j unfolding r'_def[symmetric]
      by (simp add: spsc_inv_def producer_ok_def sel)
  qed
  show "spsc_inv (st\<lparr>
       sp_ring := r\<lparr>rg_head := (rg_head r + of_nat w) AND rg_mask r\<rparr>, sp_prod := PIdle,
       sp_sent := sp_sent st @ accepted ?N n src w\<rparr>)" if "j = ?N * w"
  proof -
    define r' where "r' = r\<lparr>rg_head := (rg_head r + of_nat w) AND rg_mask r\<rparr>"
    note pub = queue_publish[OF ok w(3,1) copied[unfolded that], folded r'_def]
    have "chans_of r' = ?N" by (simp add: r'_def)
    moreover have "queue_of r' ! (e mod real) = queue_of r ! (e mod real)" if "real \<le> level r" "e < ?N * real" for e real
      using step_index(2)[OF that(2)] that(1) by (simp add: pub(2) nth_append)
    ultimately have "consumer_ok r' (sp_cons st)"
      using cons pub(3) by (auto simp: consumer_ok_def split: consumer.splits)
    then show ?thesis
      using pub(1,2) hist unfolding r'_def[symmetric] by (simp add: spsc_inv_def producer_ok_def)
  qed
qed

lemma producer_ok_advance:
  assumes "ring_ok r" and "d \<le> level r" and "producer_ok r p"
  shows "producer_ok (r\<lparr>rg_tail := (rg_tail r + of_nat d) AND rg_mask r\<rparr>) p"
  using assms take_advance(3)[OF assms(1,2)] by (auto simp: producer_ok_def split: producer.splits)

lemma load_value:
  assumes ok: "ring_ok r" and real: "real \<le> level r" and j: "j < chans_of r * real"
  shows "rg_buf r ! tail_slot r (j div real) (j mod real) = queue_of r ! (j mod real) ! (j div real)"
  using step_index[OF j] real by (simp add: queue_of_def column_def)

lemma consumer_copy_inv:
  assumes inv: "spsc_inv st" and cons: "sp_cons st = CCopy dst real j"
  defines "r \<equiv> sp_ring st"
  shows "j < chans_of r * real \<Longrightarrow> spsc_inv (st\<lparr>sp_cons := CCopy
       (dst[j div real := (dst ! (j div real))[j mod real := rg_buf r ! tail_slot r (j div real) (j mod real)]])
       real (Suc j)\<rparr>)"
    and "j = chans_of r * real \<Longrightarrow> spsc_inv (st\<lparr>
       sp_ring := r\<lparr>rg_tail := (rg_tail r + of_nat real) AND rg_mask r\<rparr>, sp_cons := CIdle,
       sp_received := sp_received st @ map (\<lambda>s. map (\<lambda>c. dst ! c ! s) [0..<chans_of r]) [0..<real]\<rparr>)"
proof -
  let ?N = "chans_of r" and ?q = "queue_of r"
  have ok: "ring_ok r" and hist: "sp_received st @ ?q = sp_sent st" and prod: "producer_ok r (sp_prod st)"
    and real: "real \<le> level r" and dst: "length dst = ?N" "\<forall>out \<in> set dst. real \<le> length out"
    and copied: "\<forall>e < j. dst ! (e div real) ! (e mod real) = ?q ! (e mod real) ! (e div real)"
    using inv cons by (simp_all add: spsc_inv_def consumer_ok_def r_def)
  show "spsc_inv (st\<lparr>sp_cons := CCopy
       (dst[j div real := (dst ! (j div real))[j mod real := rg_buf r ! tail_slot r (j div real) (j mod real)]])
       real (Suc j)\<rparr>)" if j: "j < ?N * real"
  proof -
    let ?v = "?q ! (j mod real) ! (j div real)"
    let ?dst = "dst[j div real := (dst ! (j div real))[j mod real := ?v]]"
    note jc = step_index[OF j]
    have row: "real \<le> length (dst ! c)" if "c < ?N" for c using dst that by simp
    have "?dst ! (e div real) ! (e mod real) = ?q ! (e mod real) ! (e div real)" if "e < Suc j" for e
    proof (cases "e = j")
      case True
      have "j mod real < length (dst ! (j div real))" using jc(2) row[OF jc(1)] by (rule order_less_le_trans)
      then show ?thesis using True jc(1) dst(1) by simp
    next
      case False
      then have "e < j" "e < ?N * real" using that j by auto
      moreover have "e div real \<noteq> j div real \<or> e mod real \<noteq> j mod real"
        using False by (metis div_mult_mod_eq)
      ultimately show ?thesis
        using copied dst jc row[OF jc(1)] step_index[of e ?N real] by (cases "e div real = j div real") auto
    qed
    moreover have "\<forall>out \<in> set ?dst. real \<le> length out"
      using dst row[OF jc(1)] by (auto dest!: set_update_subset_insert[THEN subsetD])
    ultimately show ?thesis
      using ok hist prod real dst j load_value[OF ok real j]
      by (simp add: spsc_inv_def consumer_ok_def r_def[symmetric])
  qed
  show "spsc_inv (st\<lparr>
       sp_ring := r\<lparr>rg_tail := (rg_tail r + of_nat real) AND rg_mask r\<rparr>, sp_cons := CIdle,
       sp_received := sp_received st @ map (\<lambda>s. map (\<lambda>c. dst ! c ! s) [0..<?N]) [0..<real]\<rparr>)"
    if j: "j = ?N * real"
  proof -
    have cell: "dst ! c ! s = ?q ! s ! c" if "c < ?N" "s < real" for c s
    proof -
      have e: "c * real + s < j" using index_bound[OF that] j by simp
      have "(c * real + s) div real = c" "(c * real + s) mod real = s" using that by auto
      with copied e show ?thesis by metis
    qed
    have "map (\<lambda>s. map (\<lambda>c. dst ! c ! s) [0..<?N]) [0..<real] = take real ?q"
    proof (rule nth_equalityI)
      show "length (map (\<lambda>s. map (\<lambda>c. dst ! c ! s) [0..<?N]) [0..<real]) = length (take real ?q)"
        using real by simp
      fix s assume "s < length (map (\<lambda>s. map (\<lambda>c. dst ! c ! s) [0..<?N]) [0..<real])"
      then have s: "s < real" by simp
      then have len: "length (?q ! s) = ?N" using real by (simp add: queue_of_def column_def)
      have "map (\<lambda>c. dst ! c ! s) [0..<?N] = ?q ! s"
        by (rule nth_equalityI) (use len cell s in simp_all)
      then show "map (\<lambda>s. map (\<lambda>c. dst ! c ! s) [0..<?N]) [0..<real] ! s = take real ?q ! s"
        using s by simp
    qed
    then show ?thesis
      using take_advance(1,2)[OF ok real] producer_ok_advance[OF ok real prod] hist
      by (simp add: spsc_inv_def consumer_ok_def)
  qed
qed

lemma spsc_step_inv:
  assumes step: "spsc_step st st'" and inv: "spsc_inv st"
  shows "spsc_inv st'"
  using step inv
proof (cases rule: spsc_step.cases)
  case (p_begin r n src w)
  have ok: "ring_ok r" using inv p_begin by (simp add: spsc_inv_def)
  then show ?thesis
    using p_begin inv unat_writable[OF ok] by (auto simp: spsc_inv_def producer_ok_def)
next
  case (p_store src n w j r)
  then show ?thesis using producer_step_inv(1)[OF inv p_store(2)] by simp
next
  case (p_publish src n w j r)
  then show ?thesis using producer_step_inv(2)[OF inv p_publish(2)] by simp
next
  case (c_begin r dst n real)
  have ok: "ring_ok r" using inv c_begin by (simp add: spsc_inv_def)
  then show ?thesis
    using c_begin inv unat_readable[OF ok] by (auto simp: spsc_inv_def consumer_ok_def)
next
  case (c_load dst real j r)
  then show ?thesis using consumer_copy_inv(1)[OF inv c_load(2)] by simp
next
  case (c_publish dst real j r)
  then show ?thesis using consumer_copy_inv(2)[OF inv c_publish(2)] by simp
next
  case (c_trim r d keep)
  have ok: "ring_ok r" using inv c_trim by (simp add: spsc_inv_def)
  then show ?thesis
    using c_trim inv unat_readable[OF ok] by (auto simp: spsc_inv_def consumer_ok_def)
next
  case (c_drop d r)
  have ok: "ring_ok r" "d \<le> level r" "producer_ok r (sp_prod st)" "sp_received st @ queue_of r = sp_sent st"
    using inv c_drop by (auto simp: spsc_inv_def consumer_ok_def)
  then show ?thesis
    using c_drop take_advance(1,2)[OF ok(1,2)] producer_ok_advance[OF ok(1-3)]
    by (simp add: spsc_inv_def consumer_ok_def)
qed

lemma spsc_reachable_inv: "spsc_reachable st \<Longrightarrow> spsc_inv st"
proof (induction rule: spsc_reachable.induct)
  case (reach_init st)
  then show ?case by (simp add: spsc_initial_def spsc_inv_def producer_ok_def consumer_ok_def)
next
  case (reach_step st st')
  then show ?case by (blast intro: spsc_step_inv)
qed

text \<open>
  C7.  Whatever the interleaving of the feeder thread with the realtime callback, the time
  steps the consumer took, followed by those in the ring, are the time steps the producer
  published, in order: the consumer never sees a torn, stale or repeated sample.
\<close>

theorem spsc_no_tearing:
  assumes "spsc_reachable st"
  shows "sp_received st @ queue_of (sp_ring st) = sp_sent st \<and>
    length (queue_of (sp_ring st)) < cap_of (sp_ring st)"
  using spsc_reachable_inv[OF assms] level_less[of "sp_ring st"] by (simp add: spsc_inv_def)

text \<open>A ring of four slots and one channel, and a run of it.\<close>

definition demo_ring :: "int list \<Rightarrow> u32 \<Rightarrow> int reac_ring" where
  "demo_ring buf head = \<lparr>rg_buf = buf, rg_capacity = 4, rg_mask = 3, rg_channels = 1,
     rg_head = head, rg_tail = 0, rg_underruns = 0, rg_overruns = 0\<rparr>"

definition demo :: "int list \<Rightarrow> u32 \<Rightarrow> int producer \<Rightarrow> int consumer \<Rightarrow> int list list \<Rightarrow> int spsc" where
  "demo buf head p c out = \<lparr>sp_ring = demo_ring buf head, sp_prod = p, sp_cons = c, sp_sent = out, sp_received = []\<rparr>"

lemma demo_reach_published: "spsc_reachable (demo [7, 0, 0, 0] 1 PIdle CIdle [[7]])"
proof -
  have "ring_ok (demo_ring [0, 0, 0, 0] 0)"
    by (simp add: ring_ok_def demo_ring_def) (rule bexI[of _ 2], simp_all)
  then have "spsc_reachable (demo [0, 0, 0, 0] 0 PIdle CIdle [])"
    by (intro reach_init) (simp add: spsc_initial_def demo_def queue_of_def level_def demo_ring_def ring_dist_def)
  moreover have "spsc_step (demo [0, 0, 0, 0] 0 PIdle CIdle []) (demo [0, 0, 0, 0] 0 (PCopy [7] 1 1 0) CIdle [])"
    using p_begin[of "demo [0, 0, 0, 0] 0 PIdle CIdle []" "demo_ring [0, 0, 0, 0] 0" 1 "[7]" 1]
    by (simp add: demo_def demo_ring_def reac_ring_writable_def reac_ring_readable_def)
  moreover have "spsc_step (demo [0, 0, 0, 0] 0 (PCopy [7] 1 1 0) CIdle []) (demo [7, 0, 0, 0] 0 (PCopy [7] 1 1 1) CIdle [])"
    using p_store[of "demo [0, 0, 0, 0] 0 (PCopy [7] 1 1 0) CIdle []" "[7]" 1 1 0 "demo_ring [0, 0, 0, 0] 0"]
    by (simp add: demo_def demo_ring_def)
  moreover have "spsc_step (demo [7, 0, 0, 0] 0 (PCopy [7] 1 1 1) CIdle []) (demo [7, 0, 0, 0] 1 PIdle CIdle [[7]])"
    using p_publish[of "demo [7, 0, 0, 0] 0 (PCopy [7] 1 1 1) CIdle []" "[7]" 1 1 1 "demo_ring [7, 0, 0, 0] 0"]
    by (simp add: demo_def demo_ring_def accepted_def)
  ultimately show ?thesis by (blast intro: reach_step)
qed

lemma demo_reach_both: "spsc_reachable (demo [7, 0, 0, 0] 1 (PCopy [8] 1 1 0) (CCopy [[0]] 1 0) [[7]])"
proof -
  have "spsc_step (demo [7, 0, 0, 0] 1 PIdle CIdle [[7]]) (demo [7, 0, 0, 0] 1 (PCopy [8] 1 1 0) CIdle [[7]])"
    using p_begin[of "demo [7, 0, 0, 0] 1 PIdle CIdle [[7]]" "demo_ring [7, 0, 0, 0] 1" 1 "[8]" 1]
    by (simp add: demo_def demo_ring_def reac_ring_writable_def reac_ring_readable_def)
  moreover have "spsc_step (demo [7, 0, 0, 0] 1 (PCopy [8] 1 1 0) CIdle [[7]])
      (demo [7, 0, 0, 0] 1 (PCopy [8] 1 1 0) (CCopy [[0]] 1 0) [[7]])"
    using c_begin[of "demo [7, 0, 0, 0] 1 (PCopy [8] 1 1 0) CIdle [[7]]" "demo_ring [7, 0, 0, 0] 1" "[[0]]" 1 1]
    by (simp add: demo_def demo_ring_def reac_ring_writable_def reac_ring_readable_def)
  ultimately show ?thesis using demo_reach_published by (blast intro: reach_step)
qed

theorem spsc_no_tearing_witness:
  "sp_received (demo [7, 0, 0, 0] 1 PIdle CIdle [[7]]) @ queue_of (demo_ring [7, 0, 0, 0] 1) = [[7]]"
  using spsc_no_tearing[OF demo_reach_published] by (simp add: demo_def)

text \<open>
  C24.  While a write and a read are both in progress, the slot the producer is about to
  store to lies inside the buffer and is not the slot the consumer is about to load from,
  nor any other slot of its read: the sample memory has no data race.
\<close>

theorem spsc_race_free:
  assumes "spsc_reachable st" and "sp_prod st = PCopy src n w j" and "sp_cons st = CCopy dst real i"
    and "j < chans_of (sp_ring st) * w" and "s < real"
  shows "head_slot (sp_ring st) (j div w) (j mod w) < length (rg_buf (sp_ring st)) \<and>
    head_slot (sp_ring st) (j div w) (j mod w) \<noteq> tail_slot (sp_ring st) c s"
proof -
  let ?r = "sp_ring st"
  have ok: "ring_ok ?r" and w: "w \<le> cap_of ?r - 1 - level ?r" and real: "real \<le> level ?r"
    using spsc_reachable_inv[OF assms(1)] assms(2,3)
    by (auto simp: spsc_inv_def producer_ok_def consumer_ok_def)
  have "j mod w < cap_of ?r - 1 - level ?r" using step_index(2)[OF assms(4)] w by simp
  then have "(unat (rg_tail ?r) + s) mod cap_of ?r \<noteq> (unat (rg_head ?r) + j mod w) mod cap_of ?r"
    and "head_slot ?r (j div w) (j mod w) < length (rg_buf ?r)"
    using slots_apart[OF ok] store_frame(1)[OF ok step_index(1)[OF assms(4)]] assms(5) real by simp_all
  moreover have "0 < cap_of ?r" using ring_okD(1)[OF ok] by simp
  ultimately show ?thesis by (metis mod_less_divisor slot_inj)
qed

theorem spsc_race_free_witness:
  "head_slot (demo_ring [7, 0, 0, 0] 1) 0 0 \<noteq> tail_slot (demo_ring [7, 0, 0, 0] 1) 0 0"
  using spsc_race_free[OF demo_reach_both, of "[8]" 1 1 0 "[[0]]" 1 0 0 0] by (simp add: demo_def demo_ring_def)

end
