(* ===== verification/C_Float.thy ===== *)
theory C_Float
  imports Complex_Main Plc
begin

text \<open>
  The fragment of single-precision arithmetic the PipeWire bridge uses: the two conversions
  between 24-bit samples and normalised floats, \<open>f32_to_s24le\<close> of \<open>pipewire/src/reac_tx.c\<close> and
  \<open>s24le_to_f32\<close> of \<open>pipewire/src/reac_rx.c\<close>.  A finite float is its exact rational value.  Every operation of the two
  functions is exact on the values it meets: scaling by a power of two, and the conversion of an
  integer of at most 24 bits.  A product beyond the largest float would be an infinity, which
  the clamp treats like the exact product.
\<close>

datatype f32 = Fin rat | PosInf | NegInf | NaN

instantiation f32 :: zero
begin
definition zero_f32 :: f32 where "zero_f32 = Fin 0"
instance ..
end

text \<open>\<open>lrintf\<close> in the default rounding mode: to nearest, ties to even.\<close>

definition lrintf :: "rat \<Rightarrow> int" where
  "lrintf x = (let k = \<lfloor>x\<rfloor>; d = x - of_int k in
     if d < 1 / 2 then k else if d > 1 / 2 then k + 1 else if even k then k else k + 1)"

text \<open>\<open>None\<close> is the conversion of a NaN to an integer, which C leaves unspecified.\<close>

definition f32_quant :: "f32 \<Rightarrow> int option" where
  "f32_quant v = (case v of
     NaN \<Rightarrow> None
   | PosInf \<Rightarrow> Some 8388607
   | NegInf \<Rightarrow> Some (- 8388608)
   | Fin r \<Rightarrow>
       (let x = r * 8388608;
            x = (if x > 8388607 then 8388607 else x);
            x = (if x < - 8388608 then - 8388608 else x)
        in Some (lrintf x)))"

definition f32_to_s24le :: "f32 \<Rightarrow> byte list \<Rightarrow> nat \<Rightarrow> byte list option" where
  "f32_to_s24le v p off = do {
     s \<leftarrow> f32_quant v;
     p \<leftarrow> wr p off (word_of_int (s AND 0xFF));
     p \<leftarrow> wr p (off + 1) (word_of_int (drop_bit 8 s AND 0xFF));
     wr p (off + 2) (word_of_int (drop_bit 16 s AND 0xFF))
   }"

definition s24le_to_f32 :: "byte list \<Rightarrow> nat \<Rightarrow> f32 option" where
  "s24le_to_f32 p off = do {
     b0 \<leftarrow> rd p off;
     b1 \<leftarrow> rd p (off + 1);
     b2 \<leftarrow> rd p (off + 2);
     let v = uint b0 OR push_bit 8 (uint b1) OR push_bit 16 (uint b2);
     let v = (if v AND 0x00800000 \<noteq> 0 then v OR NOT 0x00FFFFFF else v);
     Some (Fin (of_int v / 8388608))
   }"


subsection \<open>Rounding\<close>

lemma lrintf_of_int [simp]: "lrintf (of_int k) = k"
  by (simp add: lrintf_def)

lemma lrintf_error: "\<bar>of_int (lrintf x) - x\<bar> \<le> 1 / 2"
proof -
  have "of_int \<lfloor>x\<rfloor> \<le> x" "x < of_int \<lfloor>x\<rfloor> + 1" by linarith+
  then show ?thesis by (auto simp: lrintf_def Let_def abs_le_iff)
qed

lemma lrintf_bounds: "of_int a \<le> x \<Longrightarrow> x \<le> of_int b \<Longrightarrow> a \<le> lrintf x \<and> lrintf x \<le> b"
proof
  have fl: "of_int \<lfloor>x\<rfloor> \<le> x" "x < of_int \<lfloor>x\<rfloor> + 1" by linarith+
  assume a: "of_int a \<le> x" and b: "x \<le> of_int b"
  have "a \<le> \<lfloor>x\<rfloor>" using a by (simp add: le_floor_iff)
  then show "a \<le> lrintf x" by (simp add: lrintf_def Let_def)
  show "lrintf x \<le> b"
  proof (cases "x = of_int b")
    case True
    then show ?thesis by simp
  next
    case False
    with b have "\<lfloor>x\<rfloor> < b" by (simp add: floor_less_iff)
    then show ?thesis by (simp add: lrintf_def Let_def)
  qed
qed

subsection \<open>The conversions\<close>

definition finite_sample :: "f32 \<Rightarrow> bool" where
  "finite_sample v \<longleftrightarrow> v \<noteq> NaN"

text \<open>The 24-bit value a sample is encoded as, and the float a 24-bit value is decoded to.\<close>

definition quant :: "f32 \<Rightarrow> int" where
  "quant v = the (f32_quant v)"

definition sample_f32 :: "int \<Rightarrow> f32" where
  "sample_f32 k = Fin (of_int k / 8388608)"

lemma f32_quant_Some: "finite_sample v \<Longrightarrow> f32_quant v = Some (quant v) \<and> in24 (quant v)"
proof (cases v)
  case (Fin r)
  define x where "x = (let x = r * 8388608; x = (if x > 8388607 then 8388607 else x)
    in if x < - 8388608 then - 8388608 else x)"
  have "of_int (- 8388608) \<le> x" "x \<le> of_int 8388607" by (auto simp: x_def Let_def)
  from lrintf_bounds[OF this] have "in24 (lrintf x)" by (simp add: in24_def SMIN_def SMAX_def)
  then show ?thesis by (simp add: Fin quant_def f32_quant_def Let_def x_def)
qed (simp_all add: finite_sample_def quant_def f32_quant_def in24_def SMIN_def SMAX_def)

lemma byte_mask: "(word_of_int (x AND 0xFF) :: byte) = word_of_int x"
proof -
  have "x AND 0xFF = take_bit 8 x" by (simp add: take_bit_eq_mask mask_eq_exp_minus_1)
  then show ?thesis by (simp add: bit_simps bit_eq_iff)
qed

lemma f32_to_s24le_eq:
  "finite_sample v \<Longrightarrow> off + 3 \<le> length p \<Longrightarrow> f32_to_s24le v p off = Some (blit p off (enc24 (quant v)))"
  using f32_quant_Some[of v] by (simp add: f32_to_s24le_def byte_mask enc24_def cbuf)

lemma s24le_to_f32_eq:
  "off + 3 \<le> length p \<Longrightarrow> s24le_to_f32 p off = Some (sample_f32 (dec24 (chunk p off 3)))"
  using sign_extend24[OF take_bit_le24]
  by (simp add: s24le_to_f32_def sample_f32_def dec24_def Let_def)

lemma quant_sample_f32: "in24 k \<Longrightarrow> quant (sample_f32 k) = k"
proof -
  assume k: "in24 k"
  then have "(of_int k :: rat) \<le> of_int 8388607" "of_int (- 8388608) \<le> (of_int k :: rat)"
    unfolding of_int_le_iff by (simp_all add: in24_def SMIN_def SMAX_def)
  then show ?thesis by (simp add: quant_def f32_quant_def sample_f32_def Let_def)
qed

lemma quant_error:
  "- 1 \<le> r \<Longrightarrow> r \<le> 8388607 / 8388608 \<Longrightarrow> \<bar>of_int (quant (Fin r)) / 8388608 - r\<bar> \<le> 1 / 16777216"
proof -
  assume r: "- 1 \<le> r" "r \<le> 8388607 / 8388608"
  then have "quant (Fin r) = lrintf (r * 8388608)"
    by (simp add: quant_def f32_quant_def Let_def)
  then show ?thesis using lrintf_error[of "r * 8388608"] by (simp add: abs_le_iff field_simps)
qed

text \<open>
  C25.  The two sample conversions of the PipeWire bridge are inverse to each other.  Decoding any
  three bytes and encoding the float again restores the bytes.  Encoding a float of the
  representable range and decoding it moves it by at most half a step of the 24-bit scale, and a float
  outside the range, an infinity included, comes back as the nearer end of the range.
\<close>

theorem sample_conversion_roundtrip:
  assumes "off + 3 \<le> length p" and "off + 3 \<le> length q"
  shows "(\<exists>v q'. s24le_to_f32 p off = Some v \<and> f32_to_s24le v q off = Some q' \<and>
      chunk q' off 3 = chunk p off 3) \<and>
    (\<forall>r. \<exists>q' r'. f32_to_s24le (Fin r) q off = Some q' \<and> s24le_to_f32 q' off = Some (Fin r') \<and>
      (if r < - 1 then r' = - 1 else if r > 8388607 / 8388608 then r' = 8388607 / 8388608
       else \<bar>r' - r\<bar> \<le> 1 / 2 ^ 24)) \<and>
    (\<exists>q'. f32_to_s24le PosInf q off = Some q' \<and> s24le_to_f32 q' off = Some (Fin (8388607 / 8388608))) \<and>
    (\<exists>q'. f32_to_s24le NegInf q off = Some q' \<and> s24le_to_f32 q' off = Some (Fin (- 1)))"
proof (intro conjI allI)
  let ?k = "dec24 (chunk p off 3)"
  have fin: "finite_sample (sample_f32 ?k)" by (simp add: finite_sample_def sample_f32_def)
  have rt: "\<exists>q'. f32_to_s24le v q off = Some q' \<and> chunk q' off 3 = enc24 (quant v) \<and>
      s24le_to_f32 q' off = Some (Fin (of_int (quant v) / 8388608))" if "finite_sample v" for v
  proof -
    let ?q = "blit q off (enc24 (quant v))"
    have "chunk ?q off 3 = enc24 (quant v)" using assms(2) by (intro chunk_blit_same) simp_all
    then show ?thesis
      using assms(2) that f32_quant_Some[OF that]
      by (simp add: f32_to_s24le_eq s24le_to_f32_eq dec24_enc24 sample_f32_def)
  qed
  have "enc24 (quant (sample_f32 ?k)) = chunk p off 3"
    using assms(1) by (simp add: quant_sample_f32 dec24_range enc24_dec24)
  then show "\<exists>v q'. s24le_to_f32 p off = Some v \<and> f32_to_s24le v q off = Some q' \<and>
      chunk q' off 3 = chunk p off 3"
    using rt[OF fin] s24le_to_f32_eq[OF assms(1)] by auto
  fix r
  have clip: "r < - 1 \<Longrightarrow> quant (Fin r) = - 8388608" "r > 8388607 / 8388608 \<Longrightarrow> quant (Fin r) = 8388607"
    using lrintf_of_int[of "- 8388608"] lrintf_of_int[of 8388607]
    by (auto simp: quant_def f32_quant_def Let_def field_simps)
  show "\<exists>q' r'. f32_to_s24le (Fin r) q off = Some q' \<and> s24le_to_f32 q' off = Some (Fin r') \<and>
      (if r < - 1 then r' = - 1 else if r > 8388607 / 8388608 then r' = 8388607 / 8388608
       else \<bar>r' - r\<bar> \<le> 1 / 2 ^ 24)"
  proof -
    obtain q' where q': "f32_to_s24le (Fin r) q off = Some q'"
        "s24le_to_f32 q' off = Some (Fin (of_int (quant (Fin r)) / 8388608))"
      using rt[of "Fin r"] by (auto simp: finite_sample_def)
    then show ?thesis
      using clip quant_error[of r]
      by (intro exI[of _ q'] exI[of _ "of_int (quant (Fin r)) / 8388608"]) simp
  qed
  show "\<exists>q'. f32_to_s24le PosInf q off = Some q' \<and> s24le_to_f32 q' off = Some (Fin (8388607 / 8388608))"
    using rt[of PosInf] by (auto simp: finite_sample_def quant_def f32_quant_def)
  show "\<exists>q'. f32_to_s24le NegInf q off = Some q' \<and> s24le_to_f32 q' off = Some (Fin (- 1))"
    using rt[of NegInf] by (auto simp: finite_sample_def quant_def f32_quant_def)
qed

theorem sample_conversion_roundtrip_witness:
  "\<exists>v q'. s24le_to_f32 [0, 0, 0x80] 0 = Some v \<and> f32_to_s24le v [9, 9, 9] 0 = Some q' \<and>
     chunk q' 0 3 = [0, 0, 0x80]"
  using sample_conversion_roundtrip[of 0 "[0, 0, 0x80]" "[9, 9, 9]"] by (simp add: chunk_def)

end
