(* ===== verification/C_Double.thy ===== *)
theory C_Double
  imports C_Float "HOL-Library.Log_Nat"
begin

text \<open>
  Double-precision arithmetic, for the clock-rate estimate of the PipeWire bridge.  A double is its exact
  rational value and every operation rounds its exact result by \<open>dbl\<close>: to 53 significant bits, ties to
  even.  The exponent is unbounded, which is exact here: the magnitudes that occur are far from overflow and
  from the subnormal range.
\<close>

text \<open>The largest \<open>e\<close> with \<open>2 powi e \<le> x\<close>, for a positive \<open>x\<close>.\<close>

definition ilog2 :: "rat \<Rightarrow> int" where
  "ilog2 x = (case quotient_of x of (p, q) \<Rightarrow>
     let k = bitlen p - bitlen q in if 2 powi k \<le> x then k else k - 1)"

definition dbl :: "rat \<Rightarrow> rat" where
  "dbl x = (if x = 0 then 0
     else let e = ilog2 \<bar>x\<bar> - 52 in of_int (lrintf (x / 2 powi e)) * 2 powi e)"

text \<open>The conversion of a double to \<open>int\<close> drops the fraction and is undefined out of range.\<close>

definition dbl_to_int :: "rat \<Rightarrow> int option" where
  "dbl_to_int x = c_int (if x < 0 then \<lceil>x\<rceil> else \<lfloor>x\<rfloor>)"

lemma ilog2_le: "0 < x \<Longrightarrow> 2 powi ilog2 x \<le> x"
proof -
  assume x: "0 < x"
  obtain p q where pq: "quotient_of x = (p, q)" by fastforce
  have q: "0 < q" and xpq: "x = of_int p / of_int q"
    using quotient_of_denom_pos[OF pq] quotient_of_div[OF pq] by auto
  then have p: "0 < p" using x by (simp add: zero_less_divide_iff)
  let ?a = "nat (bitlen p - 1)" and ?b = "nat (bitlen q)"
  have ab: "2 ^ ?a \<le> p" "q < 2 ^ ?b" using bitlen_bounds[OF p] bitlen_bounds[OF q] by auto
  have "bitlen p \<ge> 1" "bitlen q \<ge> 0" using p by (auto simp: bitlen_ge_iff_power bitlen_nonneg)
  then have k: "bitlen p - bitlen q - 1 = int ?a - int ?b" by simp
  have "(2 ^ ?a :: rat) \<le> of_int p" "of_int q \<le> (2 ^ ?b :: rat)"
    using ab by (metis of_int_le_iff of_int_power of_int_numeral less_imp_le)+
  then have "(2 ^ ?a / 2 ^ ?b :: rat) \<le> x" unfolding xpq using q p by (intro frac_le) auto
  moreover have "(2 :: rat) powi (int m - int n) = 2 ^ m / 2 ^ n" for m n
    by (simp add: power_int_diff)
  ultimately have "2 powi (bitlen p - bitlen q - 1) \<le> x" unfolding k by metis
  then show ?thesis by (auto simp: ilog2_def pq Let_def)
qed

lemma ilog2_small: "0 < x \<Longrightarrow> x < 2 ^ 53 \<Longrightarrow> ilog2 x \<le> 52"
proof (rule ccontr)
  assume x: "0 < x" "x < 2 ^ 53" and "\<not> ilog2 x \<le> 52"
  then have "(2 :: rat) powi 53 \<le> 2 powi ilog2 x" by (intro power_int_increasing) auto
  with ilog2_le[OF x(1)] x(2) show False by simp
qed

text \<open>Rounding never crosses an integer of at most 53 bits, so it keeps such an integer exactly.\<close>

lemma dbl_bounds:
  assumes "\<bar>x\<bar> < 2 ^ 53"
  shows "of_int k \<le> x \<Longrightarrow> of_int k \<le> dbl x" "x \<le> of_int k \<Longrightarrow> dbl x \<le> of_int k"
proof -
  define j where "j = nat (52 - ilog2 \<bar>x\<bar>)"
  have d: "dbl x = of_int (lrintf (x * 2 ^ j)) / 2 ^ j" if "x \<noteq> 0"
  proof -
    have "ilog2 \<bar>x\<bar> - 52 = - int j" using ilog2_small[of "\<bar>x\<bar>"] that assms by (simp add: j_def)
    moreover have "(2 :: rat) powi (- int j) = 1 / 2 ^ j" by (simp add: power_int_minus_divide)
    ultimately show ?thesis using that by (simp add: dbl_def)
  qed
  have shift: "(of_int (k * 2 ^ j) :: rat) = of_int k * 2 ^ j" by simp
  show "of_int k \<le> dbl x" if "of_int k \<le> x"
  proof (cases "x = 0")
    case False
    have "of_int (k * 2 ^ j) \<le> x * 2 ^ j" using that by (simp add: mult_right_mono)
    then have "k * 2 ^ j \<le> lrintf (x * 2 ^ j)" using lrintf_bounds[of "k * 2 ^ j" _ "\<lceil>x * 2 ^ j\<rceil>"] by simp
    then have "(of_int (k * 2 ^ j) :: rat) \<le> of_int (lrintf (x * 2 ^ j))" by (rule of_int_le_iff[THEN iffD2])
    then show ?thesis using d[OF False] by (simp add: shift pos_le_divide_eq)
  qed (use that in \<open>simp add: dbl_def\<close>)
  show "dbl x \<le> of_int k" if "x \<le> of_int k"
  proof (cases "x = 0")
    case False
    have "x * 2 ^ j \<le> of_int (k * 2 ^ j)" using that by (simp add: mult_right_mono)
    then have "lrintf (x * 2 ^ j) \<le> k * 2 ^ j" using lrintf_bounds[of "\<lfloor>x * 2 ^ j\<rfloor>" _ "k * 2 ^ j"] by simp
    then have "of_int (lrintf (x * 2 ^ j)) \<le> (of_int (k * 2 ^ j) :: rat)" by (rule of_int_le_iff[THEN iffD2])
    then show ?thesis using d[OF False] by (simp add: shift pos_divide_le_eq)
  qed (use that in \<open>simp add: dbl_def\<close>)
qed

lemma dbl_between:
  "of_int a \<le> x \<Longrightarrow> x \<le> of_int b \<Longrightarrow> - (2 ^ 53) < a \<Longrightarrow> b < 2 ^ 53 \<Longrightarrow> of_int a \<le> dbl x \<and> dbl x \<le> of_int b"
proof -
  assume x: "of_int a \<le> x" "x \<le> of_int b" and ab: "- (2 ^ 53) < a" "b < 2 ^ 53"
  have "(of_int (- (2 ^ 53)) :: rat) < of_int a" "(of_int b :: rat) < of_int (2 ^ 53)"
    using ab by (simp_all only: of_int_less_iff)
  then have "\<bar>x\<bar> < 2 ^ 53" using x by (simp add: abs_less_iff)
  from dbl_bounds[OF this] x show ?thesis by blast
qed

lemma dbl_of_int: "\<bar>k\<bar> < 2 ^ 53 \<Longrightarrow> dbl (of_int k) = of_int k"
proof -
  assume "\<bar>k\<bar> < 2 ^ 53"
  then have "\<bar>of_int k :: rat\<bar> < 2 ^ 53" by (metis of_int_abs of_int_less_iff of_int_power of_int_numeral)
  then show ?thesis using dbl_bounds[of "of_int k" k] by (simp add: order_antisym)
qed

lemma dbl_to_int_bounds:
  assumes "of_int a \<le> x" and "x \<le> of_int b" and "- 2147483648 \<le> a" and "b \<le> 2147483647"
  shows "\<exists>y. dbl_to_int x = Some y \<and> a \<le> y \<and> y \<le> b"
proof -
  let ?y = "if x < 0 then \<lceil>x\<rceil> else \<lfloor>x\<rfloor>"
  have "a \<le> ?y" "?y \<le> b" using assms(1,2) by (auto simp: le_floor_iff ceiling_le_iff) linarith+
  then show ?thesis using assms(3,4) by (auto simp: dbl_to_int_def)
qed

end
