(* ===== verification/Reac_Decode.thy ===== *)
theory Reac_Decode
  imports Libreac
begin

text \<open>
  The frame decoder of \<open>src/reac_decode.c\<close>: validation of a raw Ethernet frame and the
  de-interleave of its audio region into planar little-endian 24-bit PCM.  A buffer and
  the length the caller passes are separate arguments, as in the code.
\<close>

record reac_frame =
  fr_counter :: u16
  fr_valid :: bool

definition reac_frame_inspect ::
  "libreac \<Rightarrow> byte list \<Rightarrow> nat \<Rightarrow> reac_mode \<Rightarrow> reac_frame option" where
  "reac_frame_inspect L raw len mode =
     (let f = \<lparr>fr_counter = 0, fr_valid = False\<rparr> in
      if len \<noteq> REAC_FRAME_BYTES L then Some f
      else do {
        b12 \<leftarrow> rd raw 12;
        if b12 \<noteq> 0x88 then Some f
        else do {
          b13 \<leftarrow> rd raw 13;
          if b13 \<noteq> 0x19 then Some f
          else do {
            e0 \<leftarrow> rd raw (len - 2);
            if e0 \<noteq> REAC_END_MARKER_0 L then Some f
            else do {
              e1 \<leftarrow> rd raw (len - 1);
              if e1 \<noteq> REAC_END_MARKER_1 L then Some f
              else do {
                b14 \<leftarrow> rd raw 14;
                b15 \<leftarrow> rd raw 15;
                Some \<lparr>fr_counter = ucast b14 OR push_bit 8 (ucast b15), fr_valid = True\<rparr>
              }
            }
          }
        }
      })"

definition reac_decode ::
  "libreac \<Rightarrow> byte list \<Rightarrow> nat \<Rightarrow> reac_mode \<Rightarrow> byte list \<Rightarrow> (int \<times> byte list) option" where
  "reac_decode L raw len mode out = do {
     f \<leftarrow> reac_frame_inspect L raw len mode;
     if \<not> fr_valid f then Some (-1, out)
     else do {
       let audio = REAC_L2_HEADER_LEN L;
       let nch = nat (n_channels mode);
       let ns = nat (samples_per_pkt mode);
       (dptr, out) \<leftarrow> forn nch (\<lambda>ch. forn ns (\<lambda>s (dptr, out). do {
           let sptr = audio + (s * nch + ch) * REAC_RESOLUTION L;
           b0 \<leftarrow> rd raw sptr;
           out \<leftarrow> wr out dptr b0;
           b1 \<leftarrow> rd raw (sptr + 1);
           out \<leftarrow> wr out (dptr + 1) b1;
           b2 \<leftarrow> rd raw (sptr + 2);
           out \<leftarrow> wr out (dptr + 2) b2;
           Some (dptr + 3, out)
         })) (0, out);
       Some (samples_per_pkt mode, out)
     }
   }"

subsection \<open>Validation\<close>

text \<open>What makes a frame valid, as a predicate on its bytes.\<close>

definition well_formed :: "byte list \<Rightarrow> nat \<Rightarrow> bool" where
  "well_formed raw len \<longleftrightarrow> len = 1492 \<and> raw ! 12 = 0x88 \<and> raw ! 13 = 0x19 \<and>
     raw ! 1490 = 0xC2 \<and> raw ! 1491 = 0xEA"

definition frame_counter :: "byte list \<Rightarrow> u16" where
  "frame_counter raw = ucast (raw ! 14) OR push_bit 8 (ucast (raw ! 15))"

lemma inspect_eq:
  assumes "documented_geometry L" and "len \<le> length raw"
  shows "reac_frame_inspect L raw len mode =
    Some (if well_formed raw len then \<lparr>fr_counter = frame_counter raw, fr_valid = True\<rparr>
          else \<lparr>fr_counter = 0, fr_valid = False\<rparr>)"
  using assms
  by (simp add: reac_frame_inspect_def well_formed_def frame_counter_def geometry_simps Let_def)

text \<open>The counter is the little-endian value of bytes 14 and 15.\<close>

lemma frame_counter_value: "unat (frame_counter raw) = unat (raw ! 14) + 256 * unat (raw ! 15)"
  by (simp add: frame_counter_def le16_value)

subsection \<open>De-interleave\<close>

text \<open>The three bytes of channel \<open>ch\<close> at time \<open>s\<close> in the sample-major audio region.\<close>

definition wire_sample :: "reac_mode \<Rightarrow> byte list \<Rightarrow> nat \<Rightarrow> nat \<Rightarrow> byte list" where
  "wire_sample m raw ch s = chunk raw (50 + (s * nch_of m + ch) * 3) 3"

definition decoded_pcm :: "reac_mode \<Rightarrow> byte list \<Rightarrow> byte list" where
  "decoded_pcm m raw = planar (nch_of m) (sps_of m) (wire_sample m raw)"

lemma wire_sample_bound:
  assumes "mode_ok m" and "1492 \<le> length raw" and "ch < nch_of m" and "s < sps_of m"
  shows "50 + (s * nch_of m + ch) * 3 + 3 \<le> length raw"
  using index_bound3[OF assms(4,3)] mode_ok_nat(5)[OF assms(1)] assms(2) by (simp add: mult.commute)

lemma length_wire_sample [simp]:
  assumes "mode_ok m" and "1492 \<le> length raw" and "ch < nch_of m" and "s < sps_of m"
  shows "length (wire_sample m raw ch s) = 3"
  using wire_sample_bound[OF assms] by (simp add: wire_sample_def)

lemma length_decoded_pcm [simp]:
  "mode_ok m \<Longrightarrow> 1492 \<le> length raw \<Longrightarrow> length (decoded_pcm m raw) = nch_of m * sps_of m * 3"
  unfolding decoded_pcm_def by (rule length_planar) simp

lemma decode_valid:
  assumes geo: "documented_geometry L" and m: "mode_ok m" and len: "len \<le> length raw"
    and wf: "well_formed raw len" and out: "nch_of m * sps_of m * 3 \<le> length out"
  shows "reac_decode L raw len m out = Some (samples_per_pkt m, blit out 0 (decoded_pcm m raw))"
proof -
  let ?nch = "nch_of m" and ?ns = "sps_of m"
  have raw: "1492 \<le> length raw" using wf len by (simp add: well_formed_def)
  define body where "body ch s = (\<lambda>(dptr, out). do {
        b0 \<leftarrow> rd raw (50 + (s * ?nch + ch) * 3);
        out \<leftarrow> wr out dptr b0;
        b1 \<leftarrow> rd raw (50 + (s * ?nch + ch) * 3 + 1);
        out \<leftarrow> wr out (dptr + 1) b1;
        b2 \<leftarrow> rd raw (50 + (s * ?nch + ch) * 3 + 2);
        out \<leftarrow> wr out (dptr + 2) b2;
        Some (dptr + 3, out)})" for ch s
  have step: "body ch s (d, t) = Some (d + 3, blit t d (wire_sample m raw ch s))"
    if "ch < ?nch" "s < ?ns" "length t = length out" "d = ch * (?ns * 3) + s * 3" for ch s d t
  proof -
    have "d + 3 \<le> length t"
      using index_bound3[OF that(1,2)] that out by (simp add: algebra_simps)
    with wire_sample_bound[OF m raw that(1,2)] show ?thesis
      by (simp add: body_def wire_sample_def cbuf)
  qed
  have inner: "forn ?ns (body ch) (d, t)
      = Some (d + ?ns * 3, blit t d (concat (map (wire_sample m raw ch) [0..<?ns])))"
    if "ch < ?nch" "length t = length out" "d = 0 + ch * (?ns * 3)" for ch d t
  proof (rule forn_blit_ptr)
    show "d + ?ns * 3 \<le> length t"
      using that out mult_le_mono1[of "Suc ch" ?nch "?ns * 3"] by (simp add: algebra_simps)
  qed (use that m raw step in auto)
  have "forn ?nch (\<lambda>ch. forn ?ns (body ch)) (0, out)
      = Some (0 + ?nch * (?ns * 3), blit out 0 (decoded_pcm m raw))"
    unfolding decoded_pcm_def planar_def
    by (rule forn_blit_ptr) (use m raw out inner in \<open>auto simp: length_concat_const mult.assoc\<close>)
  then show ?thesis
    using assms by (simp add: reac_decode_def inspect_eq geometry_simps body_def [abs_def] Let_def)
qed

lemma decode_invalid:
  assumes "documented_geometry L" and "len \<le> length raw" and "\<not> well_formed raw len"
  shows "reac_decode L raw len m out = Some (-1, out)"
  using assms by (simp add: reac_decode_def inspect_eq)

subsection \<open>Correctness\<close>

text \<open>
  C5.  On a buffer of at least \<open>len\<close> bytes the decoder is defined and accepts exactly the
  well-formed frames.  A rejected frame returns \<open>-1\<close> and leaves the output buffer alone; an
  accepted one returns the samples per packet, puts the three wire bytes of every channel
  and time step at their planar position, and writes nothing behind the block.
\<close>

theorem decode_correct:
  assumes "documented_geometry L" and "mode_ok m" and "len \<le> length raw"
    and "nch_of m * sps_of m * 3 \<le> length out"
  shows "\<exists>rc out'. reac_decode L raw len m out = Some (rc, out') \<and> length out' = length out \<and>
    (if well_formed raw len
     then rc = samples_per_pkt m \<and>
       (\<forall>ch < nch_of m. \<forall>s < sps_of m. sample_at (sps_of m) out' ch s = wire_sample m raw ch s) \<and>
       drop (nch_of m * sps_of m * 3) out' = drop (nch_of m * sps_of m * 3) out
     else rc = -1 \<and> out' = out)"
proof (cases "well_formed raw len")
  case True
  let ?pcm = "decoded_pcm m raw"
  have raw: "1492 \<le> length raw" using True assms(3) by (simp add: well_formed_def)
  have len: "length ?pcm = nch_of m * sps_of m * 3" using assms(2) raw by simp
  have "sample_at (sps_of m) (blit out 0 ?pcm) ch s = wire_sample m raw ch s"
    if "ch < nch_of m" "s < sps_of m" for ch s
  proof -
    have "sample_at (sps_of m) (blit out 0 ?pcm) ch s = sample_at (sps_of m) ?pcm ch s"
      using index_bound3[OF that] len unfolding sample_at_def blit_prefix by (intro chunk_append1) simp
    also have "\<dots> = wire_sample m raw ch s"
      unfolding decoded_pcm_def using that assms(2) raw by (intro sample_at_planar) auto
    finally show ?thesis .
  qed
  moreover have "length (blit out 0 ?pcm) = length out" using assms(4) len by (intro length_blit) simp
  ultimately show ?thesis
    using True decode_valid[OF assms(1-3) True assms(4)] len by (simp add: blit_prefix)
next
  case False
  then show ?thesis using decode_invalid[OF assms(1,3) False] by simp
qed

text \<open>A well-formed frame whose first sample of channel 0 is \<open>01 02 03\<close>.\<close>

definition sample_frame :: "byte list" where
  "sample_frame = replicate 12 0 @ [0x88, 0x19, 5, 0] @ replicate 34 0 @ [1, 2, 3]
     @ replicate 1437 0 @ [0xC2, 0xEA]"

lemma sample_frame_well_formed [simp]: "length sample_frame = 1492" "well_formed sample_frame 1492"
  "frame_counter sample_frame = 5"
  by (simp_all add: sample_frame_def well_formed_def frame_counter_def nth_append)

theorem decode_correct_witness:
  "\<exists>out'. reac_decode libreac_doc sample_frame 1492 mode_48k (replicate 1440 9) = Some (12, out') \<and>
     sample_at 12 out' 0 0 = [1, 2, 3]"
proof -
  have "wire_sample mode_48k sample_frame 0 0 = [1, 2, 3]"
    by (simp add: wire_sample_def sample_frame_def chunk_def)
  then show ?thesis
    using decode_correct[of libreac_doc mode_48k 1492 sample_frame "replicate 1440 9"] by auto
qed

end
