(* ===== verification/Os.thy ===== *)
theory Os
  imports Reac_Prelude
begin

text \<open>
  The operating system calls of the socket code: \<open>src/aes67_send.c\<close>, \<open>src/reac_capture.c\<close> and
  \<open>pipewire/src/reac_tx.c\<close>.  The kernel is not part of the repository, so it is a parameter: a
  record of functions on a state \<open>'w\<close> of the outside world.  What the sources rely on is stated by
  the predicates \<open>documented_fds\<close> (what the calls do to the set of open descriptors) and
  \<open>documented_recv\<close>; \<open>log_os\<close> is one kernel that satisfies them, with a log of the datagrams
  sent and a queue of the frames still to be received.
\<close>

datatype sock_kind = PacketRaw u16 | InetDgram

record sockaddr_ll =
  sll_protocol :: u16
  sll_ifindex :: int
  sll_halen :: nat
  sll_addr :: "byte list"

record sockaddr_in =
  sin_port :: u16
  sin_addr :: "byte list"

datatype sockaddr = SockaddrLl sockaddr_ll | SockaddrIn sockaddr_in

datatype sockopt = IpMulticastTtl byte | IpMulticastLoop byte | IpMulticastIf "byte list"
  | SoBindToDevice string | IpTos int

datatype errno = EINTR | EAGAIN | EOTHER

text \<open>
  \<open>os_ifindex\<close> and \<open>os_ifaddr\<close> are the two \<open>ioctl\<close> requests, with \<open>None\<close> for a failure;
  \<open>os_recv fd cap\<close> is \<open>recv\<close> into a buffer of \<open>cap\<close> bytes; \<open>os_getfl\<close> and \<open>os_setfl\<close> read
  and write the file status flags, of which the sources use only \<open>O_NONBLOCK\<close>.
\<close>

record 'w os =
  os_socket :: "sock_kind \<Rightarrow> 'w \<Rightarrow> int \<times> 'w"
  os_close :: "int \<Rightarrow> 'w \<Rightarrow> 'w"
  os_ifindex :: "int \<Rightarrow> string \<Rightarrow> 'w \<Rightarrow> int option \<times> 'w"
  os_ifaddr :: "int \<Rightarrow> string \<Rightarrow> 'w \<Rightarrow> byte list option \<times> 'w"
  os_bind :: "int \<Rightarrow> sockaddr \<Rightarrow> 'w \<Rightarrow> int \<times> 'w"
  os_setsockopt :: "int \<Rightarrow> sockopt \<Rightarrow> 'w \<Rightarrow> int \<times> 'w"
  os_getfl :: "int \<Rightarrow> 'w \<Rightarrow> bool option \<times> 'w"
  os_setfl :: "int \<Rightarrow> bool \<Rightarrow> 'w \<Rightarrow> int \<times> 'w"
  os_recv :: "int \<Rightarrow> nat \<Rightarrow> 'w \<Rightarrow> (errno + byte list) \<times> 'w"
  os_sendto :: "int \<Rightarrow> byte list \<Rightarrow> sockaddr \<Rightarrow> 'w \<Rightarrow> int \<times> 'w"
  os_inet_pton :: "string \<Rightarrow> byte list option"

definition IFNAMSIZ :: nat where "IFNAMSIZ = 16"

text \<open>The interface name that \<open>strncpy\<close> leaves in a zeroed \<open>struct ifreq\<close>.\<close>

definition ifr_name :: "string \<Rightarrow> string" where
  "ifr_name ifname = take (IFNAMSIZ - 1) ifname"

subsection \<open>Documented behaviour\<close>

text \<open>
  \<open>fds w\<close> is the set of the descriptors open in \<open>w\<close>.  \<open>socket\<close> gives a fresh descriptor or fails
  without effect on them, \<open>close\<close> releases one, no other call changes them.
\<close>

definition documented_fds :: "'w os \<Rightarrow> ('w \<Rightarrow> int set) \<Rightarrow> bool" where
  "documented_fds K fds \<longleftrightarrow>
     (\<forall>k w. let (fd, w') = os_socket K k w in
        if fd < 0 then fds w' = fds w else fd \<notin> fds w \<and> fds w' = insert fd (fds w)) \<and>
     (\<forall>fd w. fds (os_close K fd w) = fds w - {fd}) \<and>
     (\<forall>fd s w. fds (snd (os_ifindex K fd s w)) = fds w) \<and>
     (\<forall>fd s w. fds (snd (os_ifaddr K fd s w)) = fds w) \<and>
     (\<forall>fd a w. fds (snd (os_bind K fd a w)) = fds w) \<and>
     (\<forall>fd x w. fds (snd (os_setsockopt K fd x w)) = fds w) \<and>
     (\<forall>fd w. fds (snd (os_getfl K fd w)) = fds w) \<and>
     (\<forall>fd b w. fds (snd (os_setfl K fd b w)) = fds w) \<and>
     (\<forall>fd n w. fds (snd (os_recv K fd n w)) = fds w) \<and>
     (\<forall>fd bs a w. fds (snd (os_sendto K fd bs a w)) = fds w)"

definition documented_recv :: "'w os \<Rightarrow> bool" where
  "documented_recv K \<longleftrightarrow> (\<forall>fd n w bs w'. os_recv K fd n w = (Inr bs, w') \<longrightarrow> length bs \<le> n)"

text \<open>What neither a send nor a receive changes: an observation that all the other calls keep.\<close>

definition control_keeps :: "'w os \<Rightarrow> ('w \<Rightarrow> 'o) \<Rightarrow> bool" where
  "control_keeps K obs \<longleftrightarrow>
     (\<forall>k w. obs (snd (os_socket K k w)) = obs w) \<and>
     (\<forall>fd w. obs (os_close K fd w) = obs w) \<and>
     (\<forall>fd s w. obs (snd (os_ifindex K fd s w)) = obs w) \<and>
     (\<forall>fd s w. obs (snd (os_ifaddr K fd s w)) = obs w) \<and>
     (\<forall>fd a w. obs (snd (os_bind K fd a w)) = obs w) \<and>
     (\<forall>fd x w. obs (snd (os_setsockopt K fd x w)) = obs w) \<and>
     (\<forall>fd w. obs (snd (os_getfl K fd w)) = obs w) \<and>
     (\<forall>fd b w. obs (snd (os_setfl K fd b w)) = obs w)"

lemma control_keepsD:
  assumes "control_keeps K obs"
  shows "obs (snd (os_socket K k w)) = obs w" "obs (os_close K fd w) = obs w"
    "obs (snd (os_ifindex K fd s w)) = obs w" "obs (snd (os_ifaddr K fd s w)) = obs w"
    "obs (snd (os_bind K fd a w)) = obs w" "obs (snd (os_setsockopt K fd x w)) = obs w"
    "obs (snd (os_getfl K fd w)) = obs w" "obs (snd (os_setfl K fd nb w)) = obs w"
  using assms by (simp_all add: control_keeps_def)

text \<open>\<open>sent w\<close> is the history of the datagrams handed to the kernel: \<open>sendto\<close> adds one, no other call changes it.\<close>

definition documented_trace :: "'w os \<Rightarrow> ('w \<Rightarrow> (int \<times> byte list \<times> sockaddr) list) \<Rightarrow> bool" where
  "documented_trace K sent \<longleftrightarrow> control_keeps K sent \<and>
     (\<forall>fd bs a w. sent (snd (os_sendto K fd bs a w)) = sent w @ [(fd, bs, a)]) \<and>
     (\<forall>fd n w. sent (snd (os_recv K fd n w)) = sent w)"

text \<open>
  \<open>pending w\<close> are the frames that will still arrive: \<open>recv\<close> takes the next one, cut to the buffer, and fails
  when there is none; no other call changes them.
\<close>

definition documented_inbox :: "'w os \<Rightarrow> ('w \<Rightarrow> byte list list) \<Rightarrow> bool" where
  "documented_inbox K pending \<longleftrightarrow> control_keeps K pending \<and>
     (\<forall>fd n w. case pending w of
        [] \<Rightarrow> isl (fst (os_recv K fd n w)) \<and> pending (snd (os_recv K fd n w)) = []
      | f # fs \<Rightarrow> fst (os_recv K fd n w) = Inr (take n f) \<and> pending (snd (os_recv K fd n w)) = fs) \<and>
     (\<forall>fd bs a w. pending (snd (os_sendto K fd bs a w)) = pending w)"

lemma documented_inboxD:
  assumes "documented_inbox K pending"
  shows "pending w = [] \<Longrightarrow> \<exists>e w'. os_recv K fd n w = (Inl e, w') \<and> pending w' = []"
    "pending w = f # fs \<Longrightarrow> \<exists>w'. os_recv K fd n w = (Inr (take n f), w') \<and> pending w' = fs"
    "pending (snd (os_sendto K fd bs a w)) = pending w" "control_keeps K pending"
proof -
  note D = assms[unfolded documented_inbox_def, THEN conjunct2, THEN conjunct1, rule_format, of fd n w]
  show "pending w = [] \<Longrightarrow> \<exists>e w'. os_recv K fd n w = (Inl e, w') \<and> pending w' = []"
    using D by (cases "os_recv K fd n w") (auto simp: isl_def)
  show "pending w = f # fs \<Longrightarrow> \<exists>w'. os_recv K fd n w = (Inr (take n f), w') \<and> pending w' = fs"
    using D by (cases "os_recv K fd n w") auto
  show "pending (snd (os_sendto K fd bs a w)) = pending w" "control_keeps K pending"
    using assms by (simp_all add: documented_inbox_def)
qed

lemma documented_traceD:
  assumes "documented_trace K sent"
  shows "sent (snd (os_sendto K fd bs a w)) = sent w @ [(fd, bs, a)]"
    "sent (snd (os_recv K fd n w)) = sent w" "control_keeps K sent"
  using assms by (simp_all add: documented_trace_def)

lemma documented_fdsD:
  assumes "documented_fds K fds"
  shows "os_socket K k w = (fd, w') \<Longrightarrow> fd < 0 \<Longrightarrow> fds w' = fds w"
    "os_socket K k w = (fd, w') \<Longrightarrow> 0 \<le> fd \<Longrightarrow> fd \<notin> fds w \<and> fds w' = insert fd (fds w)"
    "fds (os_close K fd w) = fds w - {fd}"
    "os_ifindex K fd s w = (i, w') \<Longrightarrow> fds w' = fds w"
    "os_ifaddr K fd s w = (ad, w') \<Longrightarrow> fds w' = fds w"
    "os_bind K fd a w = (r, w') \<Longrightarrow> fds w' = fds w"
    "os_setsockopt K fd x w = (r, w') \<Longrightarrow> fds w' = fds w"
    "os_getfl K fd w = (fl, w') \<Longrightarrow> fds w' = fds w"
    "os_setfl K fd nb w = (r, w') \<Longrightarrow> fds w' = fds w"
    "os_recv K fd n w = (rr, w') \<Longrightarrow> fds w' = fds w"
    "os_sendto K fd bs a w = (r, w') \<Longrightarrow> fds w' = fds w"
proof -
  note D = assms[unfolded documented_fds_def]
  show "os_socket K k w = (fd, w') \<Longrightarrow> fd < 0 \<Longrightarrow> fds w' = fds w"
    and "os_socket K k w = (fd, w') \<Longrightarrow> 0 \<le> fd \<Longrightarrow> fd \<notin> fds w \<and> fds w' = insert fd (fds w)"
    using D[THEN conjunct1, THEN spec, THEN spec, of k w] by (simp_all split: if_splits)
  from D have "\<forall>fd w. fds (os_close K fd w) = fds w - {fd}" by (elim conjE) assumption
  then show "fds (os_close K fd w) = fds w - {fd}" by simp
  from D have E: "\<forall>fd s w. fds (snd (os_ifindex K fd s w)) = fds w"
    "\<forall>fd s w. fds (snd (os_ifaddr K fd s w)) = fds w"
    "\<forall>fd a w. fds (snd (os_bind K fd a w)) = fds w"
    "\<forall>fd x w. fds (snd (os_setsockopt K fd x w)) = fds w"
    "\<forall>fd w. fds (snd (os_getfl K fd w)) = fds w"
    "\<forall>fd b w. fds (snd (os_setfl K fd b w)) = fds w"
    "\<forall>fd n w. fds (snd (os_recv K fd n w)) = fds w"
    "\<forall>fd bs a w. fds (snd (os_sendto K fd bs a w)) = fds w"
    by simp_all
  show "os_ifindex K fd s w = (i, w') \<Longrightarrow> fds w' = fds w" using E(1) by (metis snd_conv)
  show "os_ifaddr K fd s w = (ad, w') \<Longrightarrow> fds w' = fds w" using E(2) by (metis snd_conv)
  show "os_bind K fd a w = (r, w') \<Longrightarrow> fds w' = fds w" using E(3) by (metis snd_conv)
  show "os_setsockopt K fd x w = (r, w') \<Longrightarrow> fds w' = fds w" using E(4) by (metis snd_conv)
  show "os_getfl K fd w = (fl, w') \<Longrightarrow> fds w' = fds w" using E(5) by (metis snd_conv)
  show "os_setfl K fd nb w = (r, w') \<Longrightarrow> fds w' = fds w" using E(6) by (metis snd_conv)
  show "os_recv K fd n w = (rr, w') \<Longrightarrow> fds w' = fds w" using E(7) by (metis snd_conv)
  show "os_sendto K fd bs a w = (r, w') \<Longrightarrow> fds w' = fds w" using E(8) by (metis snd_conv)
qed

subsection \<open>A kernel that satisfies it\<close>

record log_world =
  lw_fds :: "int set"
  lw_next :: int
  lw_sent :: "(int \<times> byte list \<times> sockaddr) list"
  lw_inbox :: "byte list list"
  lw_slept :: "int list"

definition log_os :: "log_world os" where
  "log_os = \<lparr>
     os_socket = (\<lambda>k w. if lw_next w \<in> lw_fds w \<or> lw_next w < 0 then (- 1, w)
        else (lw_next w, w\<lparr>lw_fds := insert (lw_next w) (lw_fds w), lw_next := lw_next w + 1\<rparr>)),
     os_close = (\<lambda>fd w. w\<lparr>lw_fds := lw_fds w - {fd}\<rparr>),
     os_ifindex = (\<lambda>fd s w. (if s = ''reac0'' then Some 7 else None, w)),
     os_ifaddr = (\<lambda>fd s w. (if s = ''br-lan'' then Some [10, 0, 0, 1] else None, w)),
     os_bind = (\<lambda>fd a w. (0, w)),
     os_setsockopt = (\<lambda>fd x w. (0, w)),
     os_getfl = (\<lambda>fd w. (Some True, w)),
     os_setfl = (\<lambda>fd b w. (0, w)),
     os_recv = (\<lambda>fd n w. case lw_inbox w of [] \<Rightarrow> (Inl EAGAIN, w)
        | f # fs \<Rightarrow> (Inr (take n f), w\<lparr>lw_inbox := fs\<rparr>)),
     os_sendto = (\<lambda>fd bs a w. (int (length bs), w\<lparr>lw_sent := lw_sent w @ [(fd, bs, a)]\<rparr>)),
     os_inet_pton = (\<lambda>s. if s = ''239.69.10.0'' then Some [239, 69, 10, 0]
        else if s = ''224.0.0.56'' then Some [224, 0, 0, 56]
        else if s = ''0.0.0.0'' then Some [0, 0, 0, 0] else None)\<rparr>"

definition log_start :: log_world where
  "log_start = \<lparr>lw_fds = {}, lw_next = 3, lw_sent = [], lw_inbox = [], lw_slept = []\<rparr>"

lemma log_os_simps [simp]:
  "os_socket log_os k w = (if lw_next w \<in> lw_fds w \<or> lw_next w < 0 then (- 1, w)
     else (lw_next w, w\<lparr>lw_fds := insert (lw_next w) (lw_fds w), lw_next := lw_next w + 1\<rparr>))"
  "os_close log_os fd w = w\<lparr>lw_fds := lw_fds w - {fd}\<rparr>"
  "os_ifindex log_os fd s w = (if s = ''reac0'' then Some 7 else None, w)"
  "os_ifaddr log_os fd s w = (if s = ''br-lan'' then Some [10, 0, 0, 1] else None, w)"
  "os_bind log_os fd a w = (0, w)" "os_setsockopt log_os fd x w = (0, w)"
  "os_getfl log_os fd w = (Some True, w)" "os_setfl log_os fd b w = (0, w)"
  "os_recv log_os fd n w = (case lw_inbox w of [] \<Rightarrow> (Inl EAGAIN, w)
     | f # fs \<Rightarrow> (Inr (take n f), w\<lparr>lw_inbox := fs\<rparr>))"
  "os_sendto log_os fd bs a w = (int (length bs), w\<lparr>lw_sent := lw_sent w @ [(fd, bs, a)]\<rparr>)"
  by (simp_all add: log_os_def)

lemma documented_recvD: "documented_recv K \<Longrightarrow> os_recv K fd n w = (Inr bs, w') \<Longrightarrow> length bs \<le> n"
  unfolding documented_recv_def by blast

lemma log_os_documented [simp]: "documented_fds log_os lw_fds" "documented_recv log_os" "documented_trace log_os lw_sent"
    "documented_inbox log_os lw_inbox"
  by (auto simp: documented_fds_def documented_recv_def documented_trace_def documented_inbox_def control_keeps_def
      split: list.splits)

end
