(* ===== verification/Reac_Capture.thy ===== *)
theory Reac_Capture
  imports Os
begin

text \<open>
  Live capture from a raw packet socket, \<open>src/reac_capture.c\<close> (the Linux branch).  The read loop is a partial
  function on the kernel state: \<open>None\<close> is a call that never returns, or a write outside the caller's buffer.
\<close>

record reac_capture =
  cap_fd :: int

definition ETH_P_REAC :: u16 where "ETH_P_REAC = 0x8819"

definition reac_capture_open :: "'w os \<Rightarrow> string \<Rightarrow> 'w \<Rightarrow> int \<times> reac_capture \<times> 'w" where
  "reac_capture_open K ifname w =
     (let c = \<lparr>cap_fd = - 1\<rparr>; (fd, w) = os_socket K (PacketRaw ETH_P_REAC) w in
      if fd < 0 then (- 1, c, w)
      else case os_ifindex K fd (ifr_name ifname) w of
             (None, w) \<Rightarrow> (- 1, c, os_close K fd w)
           | (Some i, w) \<Rightarrow>
               (let sll = \<lparr>sll_protocol = ETH_P_REAC, sll_ifindex = i, sll_halen = 0, sll_addr = replicate 8 0\<rparr>;
                    (rc, w) = os_bind K fd (SockaddrLl sll) w in
                if rc < 0 then (- 1, c, os_close K fd w)
                else (0, c\<lparr>cap_fd := fd\<rparr>, w)))"

definition reac_capture_set_nonblock :: "'w os \<Rightarrow> reac_capture \<Rightarrow> bool \<Rightarrow> 'w \<Rightarrow> int \<times> 'w" where
  "reac_capture_set_nonblock K c nonblock w =
     (if cap_fd c < 0 then (- 1, w)
      else case os_getfl K (cap_fd c) w of
             (None, w) \<Rightarrow> (- 1, w)
           | (Some fl, w) \<Rightarrow>
               (let (rc, w) = os_setfl K (cap_fd c) nonblock w in (if rc < 0 then - 1 else 0, w)))"

partial_function (option) reac_capture_next ::
  "'w os \<Rightarrow> reac_capture \<Rightarrow> byte list \<Rightarrow> nat \<Rightarrow> 'w \<Rightarrow> (int \<times> byte list \<times> 'w) option" where
  "reac_capture_next K c buf cap w =
     (if cap_fd c < 0 then Some (- 1, buf, w)
      else case os_recv K (cap_fd c) cap w of
        (Inl e, w) \<Rightarrow> Some (if e = EINTR \<or> e = EAGAIN then 0 else - 1, buf, w)
      | (Inr bs, w) \<Rightarrow> do {
          buf \<leftarrow> memcpy buf 0 bs 0 (length bs);
          hit \<leftarrow> (if 14 \<le> length bs then do {
               b12 \<leftarrow> rd buf 12;
               if b12 = 0x88 then do { b13 \<leftarrow> rd buf 13; Some (b13 = 0x19) } else Some False
             } else Some False);
          if hit then Some (int (length bs), buf, w)
          else (case os_getfl K (cap_fd c) w of
                  (fl, w) \<Rightarrow> if fl = Some True then Some (0, buf, w) else reac_capture_next K c buf cap w)
        })"

definition reac_capture_close :: "'w os \<Rightarrow> reac_capture \<Rightarrow> 'w \<Rightarrow> reac_capture \<times> 'w" where
  "reac_capture_close K c w =
     (if cap_fd c \<ge> 0 then (c\<lparr>cap_fd := - 1\<rparr>, os_close K (cap_fd c) w) else (c, w))"

subsection \<open>Reading\<close>

definition reac_ethertype :: "byte list \<Rightarrow> bool" where
  "reac_ethertype bs \<longleftrightarrow> 14 \<le> length bs \<and> bs ! 12 = 0x88 \<and> bs ! 13 = 0x19"

text \<open>One round of the loop, in terms of the frame received.\<close>

lemma capture_round:
  assumes "0 \<le> cap_fd c" and "os_recv K (cap_fd c) cap w = (Inr bs, w1)"
    and "length bs \<le> cap" and "cap \<le> length buf"
  shows "reac_capture_next K c buf cap w =
    (if reac_ethertype bs then Some (int (length bs), blit buf 0 bs, w1)
     else case os_getfl K (cap_fd c) w1 of
       (fl, w2) \<Rightarrow> if fl = Some True then Some (0, blit buf 0 bs, w2)
                  else reac_capture_next K c (blit buf 0 bs) cap w2)"
proof -
  have "memcpy buf 0 bs 0 (length bs) = Some (blit buf 0 bs)"
    using assms(3,4) by (simp add: memcpy_def)
  moreover have "14 \<le> length bs \<Longrightarrow> rd (blit buf 0 bs) 12 = Some (bs ! 12) \<and> rd (blit buf 0 bs) 13 = Some (bs ! 13)"
    using assms(3,4) by (simp add: blit_prefix nth_append)
  ultimately show ?thesis
    using assms(1,2) by (subst reac_capture_next.simps) (auto simp: reac_ethertype_def)
qed

lemma capture_error:
  "0 \<le> cap_fd c \<Longrightarrow> os_recv K (cap_fd c) cap w = (Inl e, w1) \<Longrightarrow>
     reac_capture_next K c buf cap w = Some (if e = EINTR \<or> e = EAGAIN then 0 else - 1, buf, w1)"
  by (subst reac_capture_next.simps) simp

text \<open>
  On a non-blocking socket every read returns after one \<open>recv\<close>.  A positive result is
  the length of a frame with the REAC ethertype, which fits the buffer and is its first
  bytes; a foreign frame and an empty queue give 0, any other error \<open>-1\<close>.
\<close>

theorem capture_nonblocking:
  assumes "documented_recv K" and "0 \<le> cap_fd c" and "cap \<le> length buf"
    and "\<And>w. fst (os_getfl K (cap_fd c) w) = Some True"
  shows "\<exists>n buf' w'. reac_capture_next K c buf cap w = Some (n, buf', w') \<and> length buf' = length buf \<and>
    (case fst (os_recv K (cap_fd c) cap w) of
       Inl e \<Rightarrow> buf' = buf \<and> n = (if e = EINTR \<or> e = EAGAIN then 0 else - 1)
     | Inr bs \<Rightarrow> buf' = blit buf 0 bs \<and> n = (if reac_ethertype bs then int (length bs) else 0) \<and>
         n \<le> int cap)"
proof (cases "os_recv K (cap_fd c) cap w")
  case (Pair x w1)
  show ?thesis
  proof (cases x)
    case (Inl e)
    then show ?thesis using capture_error[OF assms(2), of K cap w e w1 buf] Pair by auto
  next
    case (Inr bs)
    then have bs: "length bs \<le> cap" using Pair documented_recvD[OF assms(1)] by simp
    obtain w2 where g: "os_getfl K (cap_fd c) w1 = (Some True, w2)"
      using assms(4)[of w1] by (metis prod.collapse)
    from capture_round[OF assms(2) _ bs assms(3), of K w w1] show ?thesis
      using Pair Inr bs assms(3) g by (auto simp: split: if_splits)
  qed
qed

theorem capture_nonblocking_witness:
  "\<exists>n buf' w'. reac_capture_next log_os \<lparr>cap_fd = 3\<rparr> (replicate 64 0) 64
      (log_start\<lparr>lw_inbox := [replicate 12 0 @ [0x88, 0x19, 5]]\<rparr>) = Some (n, buf', w') \<and> n = 15"
  using capture_nonblocking[of log_os "\<lparr>cap_fd = 3\<rparr>" 64 "replicate 64 0"
      "log_start\<lparr>lw_inbox := [replicate 12 0 @ [0x88, 0x19, 5]]\<rparr>"]
  by (auto simp: log_start_def reac_ethertype_def nth_append)

text \<open>The next \<open>recv\<close> calls give the frames \<open>fs\<close> and then \<open>fr\<close>, on a socket in blocking mode.\<close>

primrec recv_script :: "'w os \<Rightarrow> int \<Rightarrow> nat \<Rightarrow> byte list list \<Rightarrow> byte list \<Rightarrow> 'w \<Rightarrow> 'w \<Rightarrow> bool" where
  "recv_script K fd cap [] fr w w' \<longleftrightarrow> os_recv K fd cap w = (Inr fr, w')"
| "recv_script K fd cap (f # fs) fr w w' \<longleftrightarrow>
     (\<exists>w1 w2 fl. os_recv K fd cap w = (Inr f, w1) \<and> os_getfl K fd w1 = (fl, w2) \<and> fl \<noteq> Some True \<and>
        recv_script K fd cap fs fr w2 w')"

text \<open>
  C37.  On a blocking socket a read returns as soon as a frame with the REAC ethertype arrives: if the next
  \<open>recv\<close> calls give the foreign frames \<open>fs\<close> and then a REAC frame \<open>fr\<close>, the call returns the length
  of \<open>fr\<close> with \<open>fr\<close> in the buffer and nothing of the foreign frames in its place.
\<close>

theorem capture_blocking:
  assumes "documented_recv K" and "0 \<le> cap_fd c" and "cap \<le> length buf"
    and "recv_script K (cap_fd c) cap fs fr w w'" and "\<forall>f \<in> set fs. \<not> reac_ethertype f" and "reac_ethertype fr"
  shows "\<exists>buf'. reac_capture_next K c buf cap w = Some (int (length fr), buf', w') \<and>
    take (length fr) buf' = fr \<and> length buf' = length buf"
  using assms(3-5)
proof (induction fs arbitrary: buf w)
  case Nil
  then have "length fr \<le> cap" using documented_recvD[OF assms(1)] by simp
  then show ?case
    using Nil assms(6) capture_round[OF assms(2), of K cap w fr w' buf] by (auto simp: blit_prefix)
next
  case (Cons f fs)
  then obtain w1 w2 fl where r: "os_recv K (cap_fd c) cap w = (Inr f, w1)" "os_getfl K (cap_fd c) w1 = (fl, w2)"
      "fl \<noteq> Some True" "recv_script K (cap_fd c) cap fs fr w2 w'" by auto
  have f: "length f \<le> cap" by (rule documented_recvD[OF assms(1) r(1)])
  then have "reac_capture_next K c buf cap w = reac_capture_next K c (blit buf 0 f) cap w2"
    using capture_round[OF assms(2) r(1) f Cons.prems(1)] r Cons.prems(3) by simp
  moreover have len: "length (blit buf 0 f) = length buf" using f Cons.prems(1) by simp
  ultimately show ?case
    using Cons.IH[of "blit buf 0 f" w2] Cons.prems r(4) by simp
qed

text \<open>The same kernel in blocking mode.\<close>

definition blocking_os :: "log_world os" where
  "blocking_os = log_os\<lparr>os_getfl := \<lambda>fd w. (Some False, w)\<rparr>"

lemma blocking_os_simps [simp]: "documented_recv blocking_os" "os_recv blocking_os = os_recv log_os"
  "os_getfl blocking_os fd w = (Some False, w)"
  using log_os_documented(2) by (simp_all add: documented_recv_def blocking_os_def)

theorem capture_blocking_witness:
  "\<exists>buf'. reac_capture_next blocking_os \<lparr>cap_fd = 3\<rparr> (replicate 64 0) 64
      (log_start\<lparr>lw_inbox := [[1, 2, 3], replicate 12 0 @ [0x88, 0x19]]\<rparr>)
      = Some (14, buf', log_start) \<and> take 14 buf' = replicate 12 0 @ [0x88, 0x19]"
  using capture_blocking[of blocking_os "\<lparr>cap_fd = 3\<rparr>" 64 "replicate 64 0" "[[1, 2, 3]]"
      "replicate 12 0 @ [0x88, 0x19]" "log_start\<lparr>lw_inbox := [[1, 2, 3], replicate 12 0 @ [0x88, 0x19]]\<rparr>" log_start]
  by (auto simp: log_start_def reac_ethertype_def nth_append)

subsection \<open>Descriptors\<close>

lemma capture_fds:
  assumes "documented_fds K fds" and "reac_capture_open K ifname w = (rc, c, w1)"
    and "reac_capture_close K c w1 = (c', w2)"
  shows "(if rc = 0 then 0 \<le> cap_fd c \<and> cap_fd c \<notin> fds w \<and> fds w1 = insert (cap_fd c) (fds w)
          else rc = - 1 \<and> cap_fd c = - 1 \<and> fds w1 = fds w) \<and>
    fds w2 = fds w \<and> reac_capture_close K c' w2 = (c', w2)"
proof -
  note F = documented_fdsD[OF assms(1)]
  obtain fd w0 where s: "os_socket K (PacketRaw ETH_P_REAC) w = (fd, w0)" by fastforce
  obtain i w0' where i: "os_ifindex K fd (ifr_name ifname) w0 = (i, w0')" by fastforce
  obtain rb wb where b: "os_bind K fd (SockaddrLl \<lparr>sll_protocol = ETH_P_REAC, sll_ifindex = the i,
      sll_halen = 0, sll_addr = replicate 8 0\<rparr>) w0' = (rb, wb)" by fastforce
  consider "fd < 0" | "0 \<le> fd" "i = None" | "0 \<le> fd" "i \<noteq> None" "rb < 0" | "0 \<le> fd" "i \<noteq> None" "0 \<le> rb"
    by linarith
  then show ?thesis
  proof cases
    case 1
    then have "rc = - 1" "c = \<lparr>cap_fd = - 1\<rparr>" "w1 = w0" using assms(2) s by (auto simp: reac_capture_open_def)
    then show ?thesis using 1 assms(3) F(1)[OF s] by (auto simp: reac_capture_close_def)
  next
    case 2
    then have "rc = - 1" "c = \<lparr>cap_fd = - 1\<rparr>" "w1 = os_close K fd w0'"
      using assms(2) s i by (auto simp: reac_capture_open_def)
    then show ?thesis using 2 assms(3) F(2)[OF s] F(3) F(4)[OF i] by (auto simp: reac_capture_close_def)
  next
    case 3
    then have "rc = - 1" "c = \<lparr>cap_fd = - 1\<rparr>" "w1 = os_close K fd wb"
      using assms(2) s i b by (auto simp: reac_capture_open_def)
    then show ?thesis using 3 assms(3) F(2)[OF s] F(3) F(4)[OF i] F(6)[OF b] by (auto simp: reac_capture_close_def)
  next
    case 4
    then have "rc = 0" "c = \<lparr>cap_fd = fd\<rparr>" "w1 = wb"
      using assms(2) s i b by (auto simp: reac_capture_open_def)
    then show ?thesis using 4 assms(3) F(2)[OF s] F(3) F(4)[OF i] F(6)[OF b] by (auto simp: reac_capture_close_def)
  qed
qed

text \<open>
  Capture leaks no descriptor: a failed open, whichever of its three calls fails, leaves the open
  descriptors as they were; a successful one adds exactly the one in the structure; closing gives it back.
\<close>

theorem capture_open_close_fds:
  assumes "documented_fds K fds" and "reac_capture_open K ifname w = (rc, c, w1)"
    and "reac_capture_close K c w1 = (c', w2)"
  shows "(if rc = 0 then 0 \<le> cap_fd c \<and> cap_fd c \<notin> fds w \<and> fds w1 = insert (cap_fd c) (fds w)
          else rc = - 1 \<and> cap_fd c = - 1 \<and> fds w1 = fds w) \<and>
    fds w2 = fds w \<and> reac_capture_close K c' w2 = (c', w2)"
  by (rule capture_fds[OF assms])

theorem capture_open_close_fds_witness:
  "\<exists>c w1. reac_capture_open log_os ''reac0'' log_start = (0, c, w1) \<and> cap_fd c = 3 \<and>
     lw_fds (snd (reac_capture_close log_os c w1)) = {}"
proof -
  have o: "reac_capture_open log_os ''reac0'' log_start
      = (0, \<lparr>cap_fd = 3\<rparr>, log_start\<lparr>lw_fds := {3}, lw_next := 4\<rparr>)"
    by (simp add: reac_capture_open_def log_start_def ifr_name_def IFNAMSIZ_def)
  obtain c' w2 where x: "reac_capture_close log_os \<lparr>cap_fd = 3\<rparr> (log_start\<lparr>lw_fds := {3}, lw_next := 4\<rparr>) = (c', w2)"
    by fastforce
  show ?thesis
    using capture_open_close_fds[OF log_os_documented(1) o x] o x by (auto simp: log_start_def)
qed

text \<open>Opening, closing and setting the mode change nothing that only traffic changes.\<close>

lemma capture_control:
  assumes "control_keeps K obs"
  shows "reac_capture_open K ifname w = (rc, c, w1) \<Longrightarrow> obs w1 = obs w"
    "obs (snd (reac_capture_set_nonblock K c nb w)) = obs w" "obs (snd (reac_capture_close K c w)) = obs w"
proof -
  note C = control_keepsD[OF assms]
  show "reac_capture_open K ifname w = (rc, c, w1) \<Longrightarrow> obs w1 = obs w"
    using C(1,2,3,5) unfolding reac_capture_open_def Let_def
    by (auto simp: case_prod_unfold split: if_splits option.splits)
  show "obs (snd (reac_capture_set_nonblock K c nb w)) = obs w"
    using C(7,8) by (simp add: reac_capture_set_nonblock_def case_prod_unfold Let_def split: option.split)
  show "obs (snd (reac_capture_close K c w)) = obs w" using C(2) by (simp add: reac_capture_close_def)
qed

subsection \<open>Reading a finite traffic\<close>

text \<open>The REAC frames among the frames still to arrive, as a buffer of \<open>cap\<close> bytes receives them.\<close>

definition arriving :: "nat \<Rightarrow> byte list list \<Rightarrow> byte list list" where
  "arriving cap fs = filter reac_ethertype (map (take cap) fs)"

lemma capture_next_arriving:
  assumes "documented_inbox K pending" and "documented_trace K sent" and "0 \<le> cap_fd c" and "cap \<le> length buf" and "pending w \<noteq> []"
  shows "\<exists>n buf' w'. reac_capture_next K c buf cap w = Some (n, buf', w') \<and> length buf' = length buf \<and> sent w' = sent w \<and>
    length (pending w') < length (pending w) \<and> (n < 0 \<longrightarrow> pending w' = []) \<and>
    (if n > 0 then nat n \<le> length buf \<and> arriving cap (pending w) = take (nat n) buf' # arriving cap (pending w')
     else arriving cap (pending w) = arriving cap (pending w'))"
  using assms(4,5)
proof (induction "pending w" arbitrary: w buf)
  case Nil
  then show ?case by simp
next
  case (Cons f fs)
  obtain w1 where r: "os_recv K (cap_fd c) cap w = (Inr (take cap f), w1)" "pending w1 = fs"
    using documented_inboxD(2)[OF assms(1) Cons.hyps(2)[symmetric]] by blast
  have s1: "sent w1 = sent w" using documented_traceD(2)[OF assms(2), of "cap_fd c" cap w] r(1) by simp
  obtain fl w2 where g: "os_getfl K (cap_fd c) w1 = (fl, w2)" by fastforce
  have w2: "pending w2 = fs" "sent w2 = sent w"
    using control_keepsD(7)[OF documented_inboxD(4)[OF assms(1)], of "cap_fd c" w1]
      control_keepsD(7)[OF documented_traceD(3)[OF assms(2)], of "cap_fd c" w1] g r s1 by simp_all
  let ?buf = "blit buf 0 (take cap f)"
  have fit: "length (take cap f) \<le> cap" by simp
  have lb: "length ?buf = length buf" using Cons.prems(1) by simp
  note round = capture_round[OF assms(3) r(1) fit Cons.prems(1)]
  have head: "arriving cap (pending w) = (if reac_ethertype (take cap f) then [take cap f] else []) @ arriving cap fs"
    using Cons.hyps(2)[symmetric] by (simp add: arriving_def)
  consider "reac_ethertype (take cap f)" | "\<not> reac_ethertype (take cap f)" "fl = Some True"
    | "\<not> reac_ethertype (take cap f)" "fl \<noteq> Some True" by blast
  then show ?case
  proof cases
    case 1
    then have "take cap f \<noteq> []" by (auto simp: reac_ethertype_def)
    then have "0 < int (length (take cap f))" by simp
    moreover have "take (length (take cap f)) ?buf = take cap f" by (rule take_blit)
    moreover have "length (take cap f) \<le> length buf" using Cons.prems(1) by simp
    ultimately show ?thesis
      using 1 round lb r(2) s1 head Cons.hyps(2)[symmetric] by simp
  next
    case 2
    then show ?thesis using round g lb w2 head Cons.hyps(2)[symmetric] by simp
  next
    case 3
    then have skip: "reac_capture_next K c buf cap w = reac_capture_next K c ?buf cap w2" using round g by simp
    show ?thesis
    proof (cases fs)
      case Nil
      then obtain e w3 where e: "os_recv K (cap_fd c) cap w2 = (Inl e, w3)" "pending w3 = []"
        using documented_inboxD(1)[OF assms(1)] w2(1) by metis
      have "sent w3 = sent w" using documented_traceD(2)[OF assms(2), of "cap_fd c" cap w2] e(1) w2(2) by simp
      then show ?thesis
        using skip capture_error[OF assms(3) e(1)] e(2) lb head 3 Nil Cons.hyps(2)[symmetric] by (simp add: arriving_def)
    next
      case (Cons a as)
      then have "cap \<le> length ?buf" "pending w2 \<noteq> []" using lb Cons.prems(1) w2(1) by simp_all
      from Cons.hyps(1)[OF w2(1)[symmetric] this] obtain n buf' w' where
        "reac_capture_next K c ?buf cap w2 = Some (n, buf', w')" "length buf' = length buf" "sent w' = sent w"
        "length (pending w') < length fs" "n < 0 \<longrightarrow> pending w' = []"
        "if n > 0 then nat n \<le> length buf \<and> arriving cap fs = take (nat n) buf' # arriving cap (pending w')
         else arriving cap fs = arriving cap (pending w')"
        unfolding lb w2 by blast
      then show ?thesis
        using skip head 3 Cons.hyps(2)[symmetric] by (intro exI[of _ n] exI[of _ buf'] exI[of _ w']) simp
    qed
  qed
qed

text \<open>The other calls keep the open descriptors.\<close>

lemma set_nonblock_fds:
  assumes "documented_fds K fds"
  shows "fds (snd (reac_capture_set_nonblock K c nb w)) = fds w"
proof -
  obtain fl w1 where g: "os_getfl K (cap_fd c) w = (fl, w1)" by fastforce
  obtain r w2 where s: "os_setfl K (cap_fd c) nb w1 = (r, w2)" by fastforce
  show ?thesis
    using documented_fdsD(8)[OF assms g] documented_fdsD(9)[OF assms s] g s
    by (auto simp: reac_capture_set_nonblock_def split: option.split)
qed

lemma capture_next_fds:
  assumes "reac_capture_next K c buf cap w = Some r" and "documented_fds K fds"
  shows "fds (snd (snd r)) = fds w"
proof -
  have "documented_fds K fds \<longrightarrow> fds (snd (snd r)) = fds w"
    using assms(1)
  proof (rule reac_capture_next.raw_induct[where P = "\<lambda>K c buf cap w r. documented_fds K fds \<longrightarrow> fds (snd (snd r)) = fds w", rotated])
    fix f :: "'a os \<Rightarrow> reac_capture \<Rightarrow> byte list \<Rightarrow> nat \<Rightarrow> 'a \<Rightarrow> (int \<times> byte list \<times> 'a) option" and K c buf cap w r
    assume IH: "\<And>K c buf cap w r. f K c buf cap w = Some r \<Longrightarrow> documented_fds K fds \<longrightarrow> fds (snd (snd r)) = fds w"
      and step: "(if cap_fd c < 0 then Some (- 1, buf, w)
        else case os_recv K (cap_fd c) cap w of
          (Inl e, w) \<Rightarrow> Some (if e = EINTR \<or> e = EAGAIN then 0 else - 1, buf, w)
        | (Inr bs, w) \<Rightarrow> do {
            buf \<leftarrow> memcpy buf 0 bs 0 (length bs);
            hit \<leftarrow> (if 14 \<le> length bs then do {
                 b12 \<leftarrow> rd buf 12;
                 if b12 = 0x88 then do { b13 \<leftarrow> rd buf 13; Some (b13 = 0x19) } else Some False
               } else Some False);
            if hit then Some (int (length bs), buf, w)
            else (case os_getfl K (cap_fd c) w of
                    (fl, w) \<Rightarrow> if fl = Some True then Some (0, buf, w) else f K c buf cap w)
          }) = Some r"
    obtain x w1 where x: "os_recv K (cap_fd c) cap w = (x, w1)" by fastforce
    obtain fl w2 where g: "os_getfl K (cap_fd c) w1 = (fl, w2)" by fastforce
    show "documented_fds K fds \<longrightarrow> fds (snd (snd r)) = fds w"
    proof
      assume K: "documented_fds K fds"
      note F = documented_fdsD(10)[OF K x] documented_fdsD(8)[OF K g]
      show "fds (snd (snd r)) = fds w"
      proof (cases "cap_fd c < 0 \<or> isl x")
        case True
        then show ?thesis using step F x by (auto split: if_splits sum.splits)
      next
        case False
        then obtain bs where bs: "x = Inr bs" by (cases x) auto
        from step False obtain buf2 hit where r: "(if hit then Some (int (length bs), buf2, w1)
            else if fl = Some True then Some (0, buf2, w2) else f K c buf2 cap w2) = Some r"
          unfolding x bs by (simp add: bind_eq_Some_conv g cong: if_cong) blast
        show ?thesis
        proof (cases "hit \<or> fl = Some True")
          case True
          then show ?thesis using r F by (auto split: if_splits)
        next
          case False
          then have "f K c buf2 cap w2 = Some r" using r by simp
          from IH[THEN mp, OF this K] F show ?thesis by simp
        qed
      qed
    qed
  qed
  then show ?thesis using assms(2) by blast
qed

end
