(* ===== verification/Pcap_Source.thy ===== *)
theory Pcap_Source
  imports Reac_Prelude
begin

text \<open>
  The pcap reader of \<open>src/pcap_source.c\<close>.  A \<open>FILE\<close> is its content and a position; \<open>fread\<close> is given
  as many bytes as are left, \<open>fseek\<close> moves the position and fails below zero.  The width of
  \<open>long\<close> is a parameter, 64 or 32 bits: the daemon is built for both.  The diagnostic on
  stderr is left out.  The loop of \<open>pcap_source_next\<close> is a partial function: \<open>None\<close> is
  a call that does not return, or a write outside the caller's buffer.
\<close>

record cfile =
  fl_data :: "byte list"
  fl_pos :: nat

record pcap_source =
  ps_f :: "cfile option"
  ps_swapped :: bool

definition PCAP_MAGIC :: u32 where "PCAP_MAGIC = 0xA1B2C3D4"
definition PCAP_MAGIC_SWAP :: u32 where "PCAP_MAGIC_SWAP = 0xD4C3B2A1"

definition fread :: "nat \<Rightarrow> cfile \<Rightarrow> byte list \<times> cfile" where
  "fread n f = (let bs = chunk (fl_data f) (fl_pos f) n in (bs, f\<lparr>fl_pos := fl_pos f + length bs\<rparr>))"

definition fseek_cur :: "int \<Rightarrow> cfile \<Rightarrow> cfile option" where
  "fseek_cur off f =
     (if int (fl_pos f) + off < 0 then None else Some (f\<lparr>fl_pos := nat (int (fl_pos f) + off)\<rparr>))"

text \<open>The conversion of a 32-bit unsigned value to \<open>long\<close>.\<close>

definition to_long :: "nat \<Rightarrow> u32 \<Rightarrow> int" where
  "to_long long_bits v = (if long_bits = 32 then sint v else uint v)"

definition le32 :: "byte \<Rightarrow> byte \<Rightarrow> byte \<Rightarrow> byte \<Rightarrow> u32" where
  "le32 a b c d = ucast a OR push_bit 8 (ucast b) OR push_bit 16 (ucast c) OR push_bit 24 (ucast d)"

text \<open>\<open>__builtin_bswap32\<close> reverses the four bytes.\<close>

definition bswap32 :: "u32 \<Rightarrow> u32" where
  "bswap32 v = le32 (ucast (drop_bit 24 v)) (ucast (drop_bit 16 v)) (ucast (drop_bit 8 v)) (ucast v)"

definition rd_u32 :: "byte list \<Rightarrow> nat \<Rightarrow> bool \<Rightarrow> u32 option" where
  "rd_u32 p off swap = do {
     b0 \<leftarrow> rd p off;
     b1 \<leftarrow> rd p (off + 1);
     b2 \<leftarrow> rd p (off + 2);
     b3 \<leftarrow> rd p (off + 3);
     let v = le32 b0 b1 b2 b3;
     Some (if swap then bswap32 v else v)
   }"

text \<open>\<open>fopen\<close> is a parameter: the file behind the path, if it can be opened.\<close>

definition pcap_source_open :: "cfile option \<Rightarrow> pcap_source \<Rightarrow> (int \<times> pcap_source) option" where
  "pcap_source_open fopen ps = (case fopen of
     None \<Rightarrow> Some (-1, ps\<lparr>ps_f := None\<rparr>)
   | Some f \<Rightarrow>
       (let (gh, f) = fread 24 f in
        if length gh \<noteq> 24 then Some (-1, ps\<lparr>ps_f := None\<rparr>)
        else do {
          magic \<leftarrow> rd_u32 gh 0 False;
          if magic = PCAP_MAGIC then Some (0, ps\<lparr>ps_f := Some f, ps_swapped := False\<rparr>)
          else if magic = PCAP_MAGIC_SWAP then Some (0, ps\<lparr>ps_f := Some f, ps_swapped := True\<rparr>)
          else Some (-1, ps\<lparr>ps_f := None\<rparr>)
        }))"

partial_function (option) pcap_source_next ::
  "nat \<Rightarrow> pcap_source \<Rightarrow> byte list \<Rightarrow> nat \<Rightarrow> u64 option \<Rightarrow> (int \<times> pcap_source \<times> byte list \<times> u64 option) option" where
  "pcap_source_next long_bits ps buf cap ts_usec = (case ps_f ps of
     None \<Rightarrow> Some (-1, ps, buf, ts_usec)
   | Some f \<Rightarrow>
       (let (ph, f) = fread 16 f; ps = ps\<lparr>ps_f := Some f\<rparr> in
        if length ph = 0 then Some (0, ps, buf, ts_usec)
        else if length ph \<noteq> 16 then Some (-1, ps, buf, ts_usec)
        else do {
          sec \<leftarrow> rd_u32 ph 0 (ps_swapped ps);
          usec \<leftarrow> rd_u32 ph 4 (ps_swapped ps);
          incl \<leftarrow> rd_u32 ph 8 (ps_swapped ps);
          if unat incl > cap then
            (case fseek_cur (to_long long_bits incl) f of
               None \<Rightarrow> Some (-1, ps, buf, ts_usec)
             | Some f \<Rightarrow> pcap_source_next long_bits (ps\<lparr>ps_f := Some f\<rparr>) buf cap ts_usec)
          else do {
            let (body, f) = fread (unat incl) f;
            let ps = ps\<lparr>ps_f := Some f\<rparr>;
            buf \<leftarrow> memcpy buf 0 body 0 (length body);
            if length body \<noteq> unat incl then Some (-1, ps, buf, ts_usec)
            else Some (to_long long_bits incl, ps, buf,
                   map_option (\<lambda>_. (ucast sec :: u64) * 1000000 + ucast usec) ts_usec)
          }
        }))"

definition pcap_source_close :: "pcap_source \<Rightarrow> pcap_source" where
  "pcap_source_close ps = ps\<lparr>ps_f := None\<rparr>"

subsection \<open>Words of a record header\<close>

lemma unat_le32: "unat (le32 a b c d) = unat a + 256 * unat b + 65536 * unat c + 16777216 * unat d"
proof -
  have "le32 a b c d = ucast a + push_bit 8 (ucast b) + push_bit 16 (ucast c) + push_bit 24 (ucast d)"
    unfolding le32_def
    by (subst disjunctive_add [symmetric], auto simp: bit_simps dest: bit_imp_le_length)+
  moreover have "unat (push_bit 8 (ucast b) :: u32) = 256 * unat b"
      "unat (push_bit 16 (ucast c) :: u32) = 65536 * unat c"
      "unat (push_bit 24 (ucast d) :: u32) = 16777216 * unat d"
    using unat_bound(1)[of b] unat_bound(1)[of c] unat_bound(1)[of d]
    by (simp_all add: push_bit_eq_mult unat_word_ariths unat_ucast_byte)
  ultimately show ?thesis
    using unat_bound(1)[of a] unat_bound(1)[of b] unat_bound(1)[of c] unat_bound(1)[of d]
    by (simp add: unat_word_ariths unat_ucast_byte)
qed

definition enc32 :: "bool \<Rightarrow> u32 \<Rightarrow> byte list" where
  "enc32 swap v = (let bs = [ucast v, ucast (drop_bit 8 v), ucast (drop_bit 16 v), ucast (drop_bit 24 v)]
                   in if swap then rev bs else bs)"

lemma length_enc32 [simp]: "length (enc32 sw v) = 4"
  by (simp add: enc32_def Let_def)

lemma le32_bytes: "le32 (ucast v) (ucast (drop_bit 8 v)) (ucast (drop_bit 16 v)) (ucast (drop_bit 24 v)) = v"
proof -
  let ?n = "unat v"
  have "unat (ucast v :: byte) = ?n mod 256" using byte_of_word(2)[of 0 v] by simp
  moreover have "?n div 16777216 mod 256 = ?n div 16777216" using unat_bound(3)[of v] by simp
  moreover have "?n mod 256 + 256 * (?n div 256) = ?n" "?n div 256 mod 256 + 256 * (?n div 65536) = ?n div 256"
      "?n div 65536 mod 256 + 256 * (?n div 16777216) = ?n div 65536"
    using mod_mult_div_eq[of ?n 256] mod_mult_div_eq[of "?n div 256" 256] mod_mult_div_eq[of "?n div 65536" 256]
    by (simp_all add: div_mult2_eq[symmetric] add.commute)
  then have "?n mod 256 + 256 * (?n div 256 mod 256) + 65536 * (?n div 65536 mod 256)
      + 16777216 * (?n div 16777216) = ?n" by linarith
  ultimately have "unat (le32 (ucast v) (ucast (drop_bit 8 v)) (ucast (drop_bit 16 v)) (ucast (drop_bit 24 v))) = ?n"
    by (simp add: unat_le32 byte_of_word)
  then show ?thesis by (rule word_unat_eq_iff[THEN iffD2])
qed

lemma le32_split:
  "ucast (le32 a b c d) = a" "ucast (drop_bit 8 (le32 a b c d)) = b"
  "ucast (drop_bit 16 (le32 a b c d)) = c" "ucast (drop_bit 24 (le32 a b c d)) = (d :: byte)"
proof -
  let ?n = "unat (le32 a b c d)"
  have n: "?n = unat a + 256 * (unat b + 256 * (unat c + 256 * unat d))" by (simp add: unat_le32)
  have ba: "unat a < 256" "unat b < 256" "unat c < 256" "unat d < 256" by (simp_all add: unat_bound)
  have digit: "(x + 256 * y) mod 256 = x" "(x + 256 * y) div 256 = y" if "x < 256" for x y :: nat
    using that by simp_all
  have d1: "?n mod 256 = unat a" "?n div 256 = unat b + 256 * (unat c + 256 * unat d)"
    unfolding n using digit[OF ba(1)] by blast+
  have d2: "?n div 256 mod 256 = unat b" "?n div 256 div 256 = unat c + 256 * unat d"
    unfolding d1 using digit[OF ba(2)] by blast+
  have d3: "?n div 256 div 256 mod 256 = unat c" "?n div 256 div 256 div 256 = unat d"
    unfolding d2 using digit[OF ba(3)] by blast+
  have "unat (ucast (le32 a b c d) :: byte) = unat a" using byte_of_word(2)[of 0 "le32 a b c d"] d1 by simp
  then show "ucast (le32 a b c d) = a" by (rule word_unat_eq_iff[THEN iffD2])
  have "unat (ucast (drop_bit 8 (le32 a b c d)) :: byte) = unat b" using d2 by (simp add: byte_of_word)
  then show "ucast (drop_bit 8 (le32 a b c d)) = b" by (rule word_unat_eq_iff[THEN iffD2])
  have "unat (ucast (drop_bit 16 (le32 a b c d)) :: byte) = unat c"
    using d3 by (simp add: byte_of_word div_mult2_eq[symmetric])
  then show "ucast (drop_bit 16 (le32 a b c d)) = c" by (rule word_unat_eq_iff[THEN iffD2])
  have "unat (ucast (drop_bit 24 (le32 a b c d)) :: byte) = unat d"
    using d3 ba by (simp add: byte_of_word div_mult2_eq[symmetric])
  then show "ucast (drop_bit 24 (le32 a b c d)) = (d :: byte)" by (rule word_unat_eq_iff[THEN iffD2])
qed

lemma bswap_le32: "bswap32 (le32 a b c d) = le32 d c b a"
  by (simp add: bswap32_def le32_split)

lemma rd_u32_enc:
  assumes "chunk p off 4 = enc32 sw v"
  shows "rd_u32 p off sw = Some v"
proof -
  have len: "off + 4 \<le> length p" using arg_cong[OF assms, of length] by simp
  have nth: "p ! (off + i) = enc32 sw v ! i" if "i < 4" for i
    using that len arg_cong[OF assms, of "\<lambda>xs. xs ! i"] by simp
  show ?thesis
    using nth[of 0] nth[of 1] nth[of 2] nth[of 3] len
    by (cases sw) (simp_all add: rd_u32_def enc32_def bswap_le32 le32_bytes numeral_3_eq_3 numeral_2_eq_2)
qed

lemma rd_u32_defined: "off + 4 \<le> length p \<Longrightarrow> \<exists>v. rd_u32 p off sw = Some v"
  by (simp add: rd_u32_def Let_def)

subsection \<open>A file of records\<close>

record pcap_rec =
  pr_sec :: u32
  pr_usec :: u32
  pr_orig :: u32
  pr_body :: "byte list"

definition pcap_header :: "bool \<Rightarrow> pcap_rec \<Rightarrow> byte list" where
  "pcap_header sw x = enc32 sw (pr_sec x) @ enc32 sw (pr_usec x)
     @ enc32 sw (of_nat (length (pr_body x))) @ enc32 sw (pr_orig x)"

definition pcap_bytes :: "bool \<Rightarrow> pcap_rec list \<Rightarrow> byte list" where
  "pcap_bytes sw rs = concat (map (\<lambda>x. pcap_header sw x @ pr_body x) rs)"

definition rec_ok :: "pcap_rec \<Rightarrow> bool" where
  "rec_ok x \<longleftrightarrow> length (pr_body x) < 2 ^ 32"

lemma length_pcap_header [simp]: "length (pcap_header sw x) = 16"
  by (simp add: pcap_header_def)

lemma header_words:
  "rd_u32 (pcap_header sw x) 0 sw = Some (pr_sec x)"
  "rd_u32 (pcap_header sw x) 4 sw = Some (pr_usec x)"
  "rd_u32 (pcap_header sw x) 8 sw = Some (of_nat (length (pr_body x)))"
  by (rule rd_u32_enc; simp add: pcap_header_def chunk_def)+

lemma unat_body_length: "rec_ok x \<Longrightarrow> unat (of_nat (length (pr_body x)) :: u32) = length (pr_body x)"
  by (simp add: rec_ok_def unsigned_of_nat take_bit_nat_eq_self)

lemma to_long_of_nat:
  "n < 2 ^ 32 \<Longrightarrow> long_bits \<noteq> 32 \<or> n < 2 ^ 31 \<Longrightarrow> to_long long_bits (of_nat n) = int n"
  by (auto simp: to_long_def unsigned_of_nat take_bit_nat_eq_self signed_of_nat signed_take_bit_int_eq_self)

lemma fread_eq: "fread n \<lparr>fl_data = d, fl_pos = p\<rparr> = (chunk d p n, \<lparr>fl_data = d, fl_pos = p + min n (length d - p)\<rparr>)"
  by (simp add: fread_def Let_def)

text \<open>One step of the reader at the head of a record, and at the end of the file.\<close>

lemma next_at_end:
  "ps_f ps = Some \<lparr>fl_data = d, fl_pos = length d\<rparr> \<Longrightarrow> pcap_source_next lb ps buf cap ts = Some (0, ps, buf, ts)"
  by (subst pcap_source_next.simps) (simp add: fread_eq chunk_def)

lemma next_at_record:
  assumes f: "ps_f ps = Some \<lparr>fl_data = pre @ pcap_header sw x @ pr_body x @ rest, fl_pos = length pre\<rparr>"
    and sw: "ps_swapped ps = sw" and x: "rec_ok x" and lb: "lb \<noteq> 32 \<or> length (pr_body x) < 2 ^ 31"
    and cap: "cap \<le> length buf"
  shows "pcap_source_next lb ps buf cap ts =
    (let ps' = ps\<lparr>ps_f := Some \<lparr>fl_data = pre @ pcap_header sw x @ pr_body x @ rest,
                                fl_pos = length pre + 16 + length (pr_body x)\<rparr>\<rparr> in
     if cap < length (pr_body x) then pcap_source_next lb ps' buf cap ts
     else Some (int (length (pr_body x)), ps', blit buf 0 (pr_body x),
            map_option (\<lambda>_. (ucast (pr_sec x) :: u64) * 1000000 + ucast (pr_usec x)) ts))"
proof -
  let ?d = "pre @ pcap_header sw x @ pr_body x @ rest" and ?n = "length (pr_body x)"
  have a: "fread 16 \<lparr>fl_data = ?d, fl_pos = length pre\<rparr>
      = (pcap_header sw x, \<lparr>fl_data = ?d, fl_pos = length pre + 16\<rparr>)"
    by (simp add: fread_eq chunk_def)
  have b: "fread ?n \<lparr>fl_data = ?d, fl_pos = length pre + 16\<rparr>
      = (pr_body x, \<lparr>fl_data = ?d, fl_pos = length pre + 16 + ?n\<rparr>)"
    by (simp add: fread_eq chunk_def)
  have l: "to_long lb (of_nat ?n) = int ?n" using to_long_of_nat[of ?n lb] x lb by (simp add: rec_ok_def)
  have c: "fseek_cur (int ?n) \<lparr>fl_data = ?d, fl_pos = length pre + 16\<rparr>
      = Some \<lparr>fl_data = ?d, fl_pos = length pre + 16 + ?n\<rparr>"
    by (simp add: fseek_cur_def nat_add_distrib)
  have hw: "rd_u32 (pcap_header sw x) 0 (ps_swapped ps) = Some (pr_sec x)"
      "rd_u32 (pcap_header sw x) 4 (ps_swapped ps) = Some (pr_usec x)"
      "rd_u32 (pcap_header sw x) 8 (ps_swapped ps) = Some (of_nat ?n)"
    unfolding sw by (rule header_words)+
  have ne: "pcap_header sw x \<noteq> []" using length_pcap_header[of sw x] by fastforce
  show ?thesis
    by (subst pcap_source_next.simps)
      (use cap in \<open>simp add: f a b c hw l ne unat_body_length[OF x] Let_def memcpy_def chunk_def\<close>)
qed

subsection \<open>Replaying a capture\<close>

text \<open>The callers' loop \<open>while ((n = pcap_source_next(\<dots>)) > 0) body\<close>.\<close>

partial_function (option) pcap_loop ::
  "nat \<Rightarrow> ('s \<Rightarrow> byte list \<Rightarrow> nat \<Rightarrow> 's option) \<Rightarrow> pcap_source \<Rightarrow> byte list \<Rightarrow> nat \<Rightarrow> 's \<Rightarrow>
   (int \<times> pcap_source \<times> 's) option" where
  "pcap_loop long_bits body ps buf cap s = do {
     (n, ps, buf, ts) \<leftarrow> pcap_source_next long_bits ps buf cap None;
     if n > 0 then do {
       s \<leftarrow> body s buf (nat n);
       pcap_loop long_bits body ps buf cap s
     } else Some (n, ps, s)
   }"

text \<open>
  The buffers a replay delivers: a record that fits overwrites the front of the buffer the
  previous one left behind; one that does not is skipped.
\<close>

fun delivered :: "nat \<Rightarrow> byte list \<Rightarrow> pcap_rec list \<Rightarrow> (byte list \<times> nat) list" where
  "delivered cap buf [] = []"
| "delivered cap buf (x # rs) =
     (if cap < length (pr_body x) then delivered cap buf rs
      else (blit buf 0 (pr_body x), length (pr_body x)) # delivered cap (blit buf 0 (pr_body x)) rs)"

primrec feed :: "('s \<Rightarrow> byte list \<Rightarrow> nat \<Rightarrow> 's option) \<Rightarrow> (byte list \<times> nat) list \<Rightarrow> 's \<Rightarrow> 's option" where
  "feed body [] s = Some s"
| "feed body (fr # frs) s = body s (fst fr) (snd fr) \<bind> feed body frs"

lemma delivered_facts:
  assumes "cap \<le> length buf"
  shows "map (\<lambda>fr. take (snd fr) (fst fr)) (delivered cap buf rs) = filter (\<lambda>b. length b \<le> cap) (map pr_body rs)"
    and "fr \<in> set (delivered cap buf rs) \<Longrightarrow> length (fst fr) = length buf \<and> snd fr \<le> cap"
  using assms
proof (induction rs arbitrary: buf)
  case (Cons x rs)
  { case 1 then show ?case using Cons.IH(1)[of buf] Cons.IH(1)[of "blit buf 0 (pr_body x)"]
      by (auto simp: blit_prefix)
  next
    case 2 then show ?case using Cons.IH(2)[of buf] Cons.IH(2)[of "blit buf 0 (pr_body x)"]
      by (auto split: if_splits)
  }
qed simp_all

definition good_recs :: "nat \<Rightarrow> pcap_rec list \<Rightarrow> bool" where
  "good_recs lb rs \<longleftrightarrow> (\<forall>x \<in> set rs. rec_ok x \<and> pr_body x \<noteq> [] \<and> (lb \<noteq> 32 \<or> length (pr_body x) < 2 ^ 31))"

lemma pcap_loop_skip:
  assumes "pcap_source_next lb ps buf cap None = pcap_source_next lb ps' buf cap None"
  shows "pcap_loop lb body ps buf cap s = pcap_loop lb body ps' buf cap s"
  by (subst (1 2) pcap_loop.simps) (simp add: assms)

text \<open>An invariant of the body is an invariant of a replay, whatever the file holds.\<close>

lemma pcap_loop_keeps:
  assumes "pcap_loop lb body ps buf cap s = Some r" and "\<And>s buf n s'. Q s \<Longrightarrow> body s buf n = Some s' \<Longrightarrow> Q s'" and "Q s"
  shows "Q (snd (snd r))"
proof -
  let ?P = "\<lambda>(lb :: nat) body (ps :: pcap_source) (buf :: byte list) (cap :: nat) s r.
    (\<forall>s buf n s'. Q s \<longrightarrow> body s buf n = Some s' \<longrightarrow> Q s') \<longrightarrow> Q s \<longrightarrow> Q (snd (snd r))"
  have "?P lb body ps buf cap s r"
    using assms(1)
  proof (rule pcap_loop.raw_induct[where P = ?P, rotated], intro impI)
    fix f :: "nat \<Rightarrow> ('a \<Rightarrow> byte list \<Rightarrow> nat \<Rightarrow> 'a option) \<Rightarrow> pcap_source \<Rightarrow> byte list \<Rightarrow> nat \<Rightarrow> 'a \<Rightarrow> (int \<times> pcap_source \<times> 'a) option"
      and lb body ps buf cap s r
    assume IH: "\<And>lb body ps buf cap s r. f lb body ps buf cap s = Some r \<Longrightarrow> ?P lb body ps buf cap s r"
      and body: "\<forall>s buf n s'. Q s \<longrightarrow> body s buf n = Some s' \<longrightarrow> Q s'" and s: "Q s"
      and step: "do { (n, ps, buf, ts) \<leftarrow> pcap_source_next lb ps buf cap None;
         if n > 0 then do { s \<leftarrow> body s buf (nat n); f lb body ps buf cap s } else Some (n, ps, s) } = Some r"
    obtain n ps1 buf1 ts where x: "pcap_source_next lb ps buf cap None = Some (n, ps1, buf1, ts)"
      using step by (cases "pcap_source_next lb ps buf cap None") auto
    show "Q (snd (snd r))"
    proof (cases "n > 0")
      case True
      then obtain s1 where s1: "body s buf1 (nat n) = Some s1" "f lb body ps1 buf1 cap s1 = Some r"
        using step x by (cases "body s buf1 (nat n)") simp_all
      have "Q s1" using body s s1(1) by blast
      with IH[OF s1(2)] body show ?thesis by blast
    next
      case False
      then show ?thesis using step x s by auto
    qed
  qed
  then show ?thesis using assms(2,3) by blast
qed

lemma pcap_loop_eq:
  assumes "ps_f ps = Some \<lparr>fl_data = pre @ pcap_bytes sw rs, fl_pos = length pre\<rparr>" and "ps_swapped ps = sw"
    and "good_recs lb rs" and "cap \<le> length buf"
  shows "pcap_loop lb body ps buf cap s = do {
      s \<leftarrow> feed body (delivered cap buf rs) s;
      Some (0, ps\<lparr>ps_f := Some \<lparr>fl_data = pre @ pcap_bytes sw rs,
                                fl_pos = length (pre @ pcap_bytes sw rs)\<rparr>\<rparr>, s) }"
  using assms
proof (induction rs arbitrary: pre ps buf s)
  case Nil
  then have "pcap_source_next lb ps buf cap None = Some (0, ps, buf, None)"
    by (intro next_at_end) (simp add: pcap_bytes_def)
  then show ?case using Nil.prems(1) by (subst pcap_loop.simps) (cases ps, simp add: pcap_bytes_def)
next
  case (Cons x rs)
  let ?pre = "pre @ pcap_header sw x @ pr_body x"
  define ps' where "ps' = ps\<lparr>ps_f := Some \<lparr>fl_data = ?pre @ pcap_bytes sw rs, fl_pos = length ?pre\<rparr>\<rparr>"
  have x: "rec_ok x" "pr_body x \<noteq> []" "lb \<noteq> 32 \<or> length (pr_body x) < 2 ^ 31" and rs: "good_recs lb rs"
    using Cons.prems(3) by (auto simp: good_recs_def)
  have f: "ps_f ps = Some \<lparr>fl_data = pre @ pcap_header sw x @ pr_body x @ pcap_bytes sw rs, fl_pos = length pre\<rparr>"
    using Cons.prems(1) by (simp add: pcap_bytes_def)
  note nxt = next_at_record[OF f Cons.prems(2) x(1,3) Cons.prems(4), where ts = None]
  have ps': "ps_f ps' = Some \<lparr>fl_data = ?pre @ pcap_bytes sw rs, fl_pos = length ?pre\<rparr>" "ps_swapped ps' = sw"
    using Cons.prems(2) by (simp_all add: ps'_def)
  show ?case
  proof (cases "cap < length (pr_body x)")
    case True
    then have "pcap_source_next lb ps buf cap None = pcap_source_next lb ps' buf cap None"
      using nxt by (simp add: ps'_def Let_def add.assoc)
    then have "pcap_loop lb body ps buf cap s = pcap_loop lb body ps' buf cap s" by (rule pcap_loop_skip)
    with Cons.IH[OF ps' rs Cons.prems(4)] True show ?thesis by (simp add: ps'_def pcap_bytes_def add.assoc)
  next
    case False
    let ?buf = "blit buf 0 (pr_body x)"
    have buf: "cap \<le> length ?buf" using False Cons.prems(4) by simp
    have "pcap_source_next lb ps buf cap None = Some (int (length (pr_body x)), ps', ?buf, None)"
      using nxt False by (simp add: ps'_def Let_def add.assoc)
    then have "pcap_loop lb body ps buf cap s
        = do { s \<leftarrow> body s ?buf (length (pr_body x)); pcap_loop lb body ps' ?buf cap s }"
      using x(2) by (subst pcap_loop.simps) simp
    then show ?thesis
      using False Cons.IH[OF ps' rs buf] by (simp add: ps'_def pcap_bytes_def add.assoc)
  qed
qed

lemma magic_read:
  "rd_u32 (enc32 sw PCAP_MAGIC @ xs) 0 False = Some (if sw then PCAP_MAGIC_SWAP else PCAP_MAGIC)"
  by (cases sw) (simp_all add: rd_u32_def rd_def enc32_def Let_def le32_def PCAP_MAGIC_def PCAP_MAGIC_SWAP_def)

lemma magic_ne: "PCAP_MAGIC_SWAP \<noteq> PCAP_MAGIC"
  by (simp add: PCAP_MAGIC_def PCAP_MAGIC_SWAP_def)

lemma capture_replays:
  assumes "data = enc32 sw PCAP_MAGIC @ rest20 @ pcap_bytes sw rs" and "length rest20 = 20"
    and "good_recs lb rs" and "cap \<le> length buf"
  shows "\<exists>ps ps' frs. pcap_source_open (Some \<lparr>fl_data = data, fl_pos = 0\<rparr>) ps0 = Some (0, ps) \<and>
    (\<forall>body s. pcap_loop lb body ps buf cap s = do { s \<leftarrow> feed body frs s; Some (0, ps', s) }) \<and>
    map (\<lambda>fr. take (snd fr) (fst fr)) frs = filter (\<lambda>b. length b \<le> cap) (map pr_body rs) \<and>
    (\<forall>fr \<in> set frs. length (fst fr) = length buf \<and> snd fr \<le> cap)"
proof -
  let ?pre = "enc32 sw PCAP_MAGIC @ rest20"
  define ps where "ps = ps0\<lparr>ps_f := Some \<lparr>fl_data = ?pre @ pcap_bytes sw rs, fl_pos = length ?pre\<rparr>, ps_swapped := sw\<rparr>"
  have "fread 24 \<lparr>fl_data = data, fl_pos = 0\<rparr> = (?pre, \<lparr>fl_data = data, fl_pos = 24\<rparr>)"
    using assms(1,2) by (simp add: fread_eq chunk_def)
  then have "pcap_source_open (Some \<lparr>fl_data = data, fl_pos = 0\<rparr>) ps0 = Some (0, ps)"
    using assms(1,2)
    by (cases sw) (simp_all add: pcap_source_open_def magic_read magic_ne ps_def)
  moreover have f: "ps_f ps = Some \<lparr>fl_data = ?pre @ pcap_bytes sw rs, fl_pos = length ?pre\<rparr>" "ps_swapped ps = sw"
    by (simp_all add: ps_def)
  have "\<forall>body s. pcap_loop lb body ps buf cap s = do { s \<leftarrow> feed body (delivered cap buf rs) s;
      Some (0, ps\<lparr>ps_f := Some \<lparr>fl_data = ?pre @ pcap_bytes sw rs, fl_pos = length (?pre @ pcap_bytes sw rs)\<rparr>\<rparr>, s) }"
    by (intro allI pcap_loop_eq[OF f assms(3,4)])
  moreover have "map (\<lambda>fr. take (snd fr) (fst fr)) (delivered cap buf rs) = filter (\<lambda>b. length b \<le> cap) (map pr_body rs)"
    "\<forall>fr \<in> set (delivered cap buf rs). length (fst fr) = length buf \<and> snd fr \<le> cap"
    using delivered_facts[OF assms(4), where rs = rs] by auto
  ultimately show ?thesis by (intro exI conjI) assumption+
qed

text \<open>
  C22.  Replaying a well-formed capture of either byte order, with non-empty records, opens
  the file, hands the loop body exactly the records that fit the buffer, in order and
  byte for byte, skips the others, and ends with the end-of-file code.
\<close>

theorem pcap_replay:
  assumes "data = enc32 sw PCAP_MAGIC @ rest20 @ pcap_bytes sw rs" and "length rest20 = 20"
    and "good_recs lb rs" and "cap \<le> length buf"
  shows "\<exists>ps ps' frs. pcap_source_open (Some \<lparr>fl_data = data, fl_pos = 0\<rparr>) ps0 = Some (0, ps) \<and>
    (\<forall>body s. pcap_loop lb body ps buf cap s = do { s \<leftarrow> feed body frs s; Some (0, ps', s) }) \<and>
    map (\<lambda>fr. take (snd fr) (fst fr)) frs = filter (\<lambda>b. length b \<le> cap) (map pr_body rs) \<and>
    (\<forall>fr \<in> set frs. length (fst fr) = length buf \<and> snd fr \<le> cap)"
  by (rule capture_replays[OF assms])

definition sample_rec :: pcap_rec where
  "sample_rec = \<lparr>pr_sec = 1, pr_usec = 2, pr_orig = 3, pr_body = [10, 20, 30]\<rparr>"

theorem pcap_replay_witness:
  "\<exists>ps ps' frs. pcap_source_open (Some \<lparr>fl_data = enc32 True PCAP_MAGIC @ replicate 20 0 @ pcap_bytes True [sample_rec],
      fl_pos = 0\<rparr>) undefined = Some (0, ps) \<and>
    pcap_loop 64 (\<lambda>s b n. Some (s @ [take n b])) ps (replicate 8 0) 8 []
      = do { s \<leftarrow> feed (\<lambda>s b n. Some (s @ [take n b])) frs []; Some (0, ps', s) } \<and>
    map (\<lambda>fr. take (snd fr) (fst fr)) frs = [[10, 20, 30]]"
proof -
  let ?d = "enc32 True PCAP_MAGIC @ replicate 20 0 @ pcap_bytes True [sample_rec]"
  have good: "good_recs 64 [sample_rec]" by (simp add: good_recs_def rec_ok_def sample_rec_def)
  have fit: "8 \<le> length (replicate 8 (0 :: byte))" by simp
  have "filter (\<lambda>b. length b \<le> 8) (map pr_body [sample_rec]) = [[10, 20, 30]]" by (simp add: sample_rec_def)
  moreover obtain ps ps' frs where
    "pcap_source_open (Some \<lparr>fl_data = ?d, fl_pos = 0\<rparr>) undefined = Some (0, ps)"
    "\<forall>body s. pcap_loop 64 body ps (replicate 8 0) 8 (s :: byte list list)
       = do { s \<leftarrow> feed body frs s; Some (0, ps', s) }"
    "map (\<lambda>fr. take (snd fr) (fst fr)) frs = filter (\<lambda>b. length b \<le> 8) (map pr_body [sample_rec])"
    using pcap_replay[OF refl[of ?d] length_replicate good fit, of undefined] by (elim exE conjE) blast
  ultimately show ?thesis by (intro exI[of _ ps] exI[of _ ps'] exI[of _ frs]) simp
qed

text \<open>A record header, and what a record that does not fit the buffer does.\<close>

lemma record_header:
  assumes "length ph = 16"
  shows "\<exists>a b c. rd_u32 ph 0 sw = Some a \<and> rd_u32 ph 4 sw = Some b \<and> rd_u32 ph 8 sw = Some c"
  using rd_u32_defined[of 0 ph] rd_u32_defined[of 4 ph] rd_u32_defined[of 8 ph] assms by simp

lemma pcap_next_oversized:
  assumes "ps_f ps = Some \<lparr>fl_data = d, fl_pos = p\<rparr>" and "length (chunk d p 16) = 16" and "rd_u32 (chunk d p 16) 8 (ps_swapped ps) = Some c"
    and "cap < unat c" and "fseek_cur (to_long long_bits c) \<lparr>fl_data = d, fl_pos = p + 16\<rparr> = Some f"
  shows "pcap_source_next long_bits ps buf cap ts = pcap_source_next long_bits (ps\<lparr>ps_f := Some f\<rparr>) buf cap ts"
proof -
  have "chunk d p 16 \<noteq> []" using assms(2) by fastforce
  then show ?thesis
    using assms record_header[OF assms(2), of "ps_swapped ps"] by (subst (1) pcap_source_next.simps) (auto simp: fread_eq Let_def)
qed

text \<open>
  C35.  Where \<open>long\<close> has 64 bits the reader returns on every file, however corrupt, and writes only
  inside the caller's buffer.
\<close>

theorem pcap_next_returns:
  assumes "long_bits \<noteq> 32" and "cap \<le> length buf"
  shows "\<exists>n ps' buf' ts'. pcap_source_next long_bits ps buf cap ts = Some (n, ps', buf', ts') \<and>
    length buf' = length buf \<and> n \<le> int cap"
proof (cases "ps_f ps")
  case None
  then show ?thesis by (subst pcap_source_next.simps) simp
next
  case (Some f)
  then show ?thesis
  proof (induction "length (fl_data f) - fl_pos f" arbitrary: ps f rule: less_induct)
    case less
    obtain d p where f: "f = \<lparr>fl_data = d, fl_pos = p\<rparr>" by (cases f) auto
    let ?ph = "chunk d p 16"
    show ?case
    proof (cases "length ?ph = 16")
      case False
      then have "length d - p < 16" by simp
      then show ?thesis
        using less.prems by (subst (1) pcap_source_next.simps) (simp add: f fread_eq Let_def)
    next
      case True
      then obtain a b c where w: "rd_u32 ?ph 0 (ps_swapped ps) = Some a"
        "rd_u32 ?ph 4 (ps_swapped ps) = Some b" "rd_u32 ?ph 8 (ps_swapped ps) = Some c" using record_header by blast
      have len: "p + 16 \<le> length d" using True by simp
      have ne: "?ph \<noteq> []" using True by fastforce
      have l: "to_long long_bits c = uint c" using assms(1) by (simp add: to_long_def)
      show ?thesis
      proof (cases "cap < unat c")
        case big: True
        let ?f = "\<lparr>fl_data = d, fl_pos = p + 16 + unat c\<rparr>"
        have "\<not> int p + 16 + uint c < 0" using unsigned_greater_eq[of c, where ?'a = int] by linarith
        then have "fseek_cur (to_long long_bits c) \<lparr>fl_data = d, fl_pos = p + 16\<rparr> = Some ?f"
          unfolding l by (simp add: fseek_cur_def nat_add_distrib)
        then have "pcap_source_next long_bits ps buf cap ts = pcap_source_next long_bits (ps\<lparr>ps_f := Some ?f\<rparr>) buf cap ts"
          using less.prems w True big by (intro pcap_next_oversized) (simp_all add: f)
        then show ?thesis using less.hyps[of ?f "ps\<lparr>ps_f := Some ?f\<rparr>"] f len by simp
      next
        case False
        then have "int (unat c) \<le> int cap" unfolding of_nat_le_iff by simp
        then have "uint c \<le> int cap" by simp
        with False show ?thesis
          using less.prems len w l ne True assms(2)
          by (subst (1) pcap_source_next.simps) (auto simp: f fread_eq memcpy_def Let_def)
      qed
    qed
  qed
qed

theorem pcap_next_returns_witness:
  "\<exists>n ps' buf' ts'. pcap_source_next 64 \<lparr>ps_f = Some \<lparr>fl_data = replicate 16 255, fl_pos = 0\<rparr>, ps_swapped = False\<rparr>
     (replicate 4 0) 4 None = Some (n, ps', buf', ts') \<and> length buf' = 4 \<and> n \<le> 4"
  using pcap_next_returns[of 64 4 "replicate 4 0"] by simp

text \<open>
  C36.  Where \<open>long\<close> has 32 bits a record length of \<open>0xFFFFFFF0\<close> is a relative seek by -16, back to
  the header just read: the call never returns.
\<close>

theorem pcap_next_hangs:
  assumes "ps_f ps = Some \<lparr>fl_data = d, fl_pos = p\<rparr>" and "p + 16 \<le> length d"
    and "chunk d (p + 8) 4 = enc32 (ps_swapped ps) 0xFFFFFFF0" and "cap < 0xFFFFFFF0"
  shows "pcap_source_next 32 ps buf cap ts = None"
proof -
  let ?ph = "chunk d p 16"
  have ph: "length ?ph = 16" "?ph \<noteq> []" using assms(2) by (simp, fastforce simp: chunk_def)
  have "chunk ?ph 8 4 = enc32 (ps_swapped ps) 0xFFFFFFF0" using assms(3) by (simp add: chunk_chunk)
  then have incl: "rd_u32 ?ph 8 (ps_swapped ps) = Some 0xFFFFFFF0" by (rule rd_u32_enc)
  obtain a b where ab: "rd_u32 ?ph 0 (ps_swapped ps) = Some a" "rd_u32 ?ph 4 (ps_swapped ps) = Some b" using record_header[OF ph(1)] by blast
  have seek: "fseek_cur (to_long 32 0xFFFFFFF0) \<lparr>fl_data = d, fl_pos = p + 16\<rparr> = Some \<lparr>fl_data = d, fl_pos = p\<rparr>"
    by (simp add: fseek_cur_def to_long_def)
  have same: "ps\<lparr>ps_f := Some \<lparr>fl_data = d, fl_pos = p\<rparr>\<rparr> = ps" using assms(1) by (cases ps) simp
  let ?P = "\<lambda>(lb :: nat) (ps' :: pcap_source) buf' cap' ts' y. \<not> (lb = 32 \<and> ps' = ps \<and> buf' = buf \<and> cap' = cap \<and> ts' = ts)"
  have False if "pcap_source_next 32 ps buf cap ts = Some y" for y
  proof -
    have "?P 32 ps buf cap ts y"
    proof (rule pcap_source_next.raw_induct[where P = ?P, OF _ that])
      fix f lb ps' buf' cap' ts' y
      assume IH: "\<And>lb ps' buf' cap' ts' y. f lb ps' buf' cap' ts' = Some y \<Longrightarrow> ?P lb ps' buf' cap' ts' y"
        and body: "(case ps_f ps' of None \<Rightarrow> Some (-1, ps', buf', ts') | Some f' \<Rightarrow>
       (let (ph, f') = fread 16 f'; ps' = ps'\<lparr>ps_f := Some f'\<rparr> in
        if length ph = 0 then Some (0, ps', buf', ts')
        else if length ph \<noteq> 16 then Some (-1, ps', buf', ts')
        else do {
          sec \<leftarrow> rd_u32 ph 0 (ps_swapped ps');
          usec \<leftarrow> rd_u32 ph 4 (ps_swapped ps');
          incl \<leftarrow> rd_u32 ph 8 (ps_swapped ps');
          if unat incl > cap' then
            (case fseek_cur (to_long lb incl) f' of
               None \<Rightarrow> Some (-1, ps', buf', ts')
             | Some f' \<Rightarrow> f lb (ps'\<lparr>ps_f := Some f'\<rparr>) buf' cap' ts')
          else do {
            let (body, f') = fread (unat incl) f';
            let ps' = ps'\<lparr>ps_f := Some f'\<rparr>;
            buf' \<leftarrow> memcpy buf' 0 body 0 (length body);
            if length body \<noteq> unat incl then Some (-1, ps', buf', ts')
            else Some (to_long lb incl, ps', buf',
                   map_option (\<lambda>_. (ucast sec :: u64) * 1000000 + ucast usec) ts')
          }
        })) = Some y"
      show "?P lb ps' buf' cap' ts' y"
      proof
        assume eq: "lb = 32 \<and> ps' = ps \<and> buf' = buf \<and> cap' = cap \<and> ts' = ts"
        have "f 32 ps buf cap ts = Some y"
          using body eq assms ph incl ab seek same by (simp add: fread_eq Let_def)
        with IH eq show False by blast
      qed
    qed
    then show False by simp
  qed
  then show ?thesis by (cases "pcap_source_next 32 ps buf cap ts") auto
qed

theorem pcap_next_hangs_witness:
  "pcap_source_next 32 \<lparr>ps_f = Some \<lparr>fl_data = replicate 8 0 @ enc32 False 0xFFFFFFF0 @ replicate 4 0, fl_pos = 0\<rparr>,
     ps_swapped = False\<rparr> (replicate 2048 0) 2048 None = None"
  using pcap_next_hangs[of "\<lparr>ps_f = Some \<lparr>fl_data = replicate 8 0 @ enc32 False 0xFFFFFFF0 @ replicate 4 0, fl_pos = 0\<rparr>,
      ps_swapped = False\<rparr>" "replicate 8 0 @ enc32 False 0xFFFFFFF0 @ replicate 4 0" 0 2048]
  by (simp add: chunk_def)

text \<open>
  A record of length zero is reported with the end-of-file code: the loop stops there and
  the records behind it are never read.
\<close>

theorem empty_record_ends_replay:
  assumes "ps_f ps = Some \<lparr>fl_data = pre @ pcap_bytes (ps_swapped ps) (x # rs), fl_pos = length pre\<rparr>"
    and "pr_body x = []" and "cap \<le> length buf"
  shows "\<exists>ps'. pcap_loop lb body ps buf cap s = Some (0, ps', s)"
proof -
  have f: "ps_f ps = Some \<lparr>fl_data = pre @ pcap_header (ps_swapped ps) x @ pr_body x @ pcap_bytes (ps_swapped ps) rs,
      fl_pos = length pre\<rparr>"
    using assms(1) by (simp add: pcap_bytes_def)
  show ?thesis
    using next_at_record[OF f refl _ _ assms(3), of lb None] assms(2)
    by (subst pcap_loop.simps) (simp add: rec_ok_def Let_def)
qed

theorem empty_record_ends_replay_witness:
  "\<exists>ps'. pcap_loop 64 (\<lambda>s b n. Some (s @ [take n b]))
     \<lparr>ps_f = Some \<lparr>fl_data = pcap_bytes False [sample_rec\<lparr>pr_body := []\<rparr>, sample_rec], fl_pos = 0\<rparr>, ps_swapped = False\<rparr>
     (replicate 8 0) 8 [] = Some (0, ps', [])"
  using empty_record_ends_replay[of "\<lparr>ps_f = Some \<lparr>fl_data = pcap_bytes False [sample_rec\<lparr>pr_body := []\<rparr>, sample_rec],
      fl_pos = 0\<rparr>, ps_swapped = False\<rparr>" "[]" "sample_rec\<lparr>pr_body := []\<rparr>" "[sample_rec]" 8 "replicate 8 0"] by simp

end
