(* ===== verification/Reac_Rx.thy ===== *)
theory Reac_Rx
  imports C_Double Reac_Decode Reac_Ring Reac_Capture Pcap_Source
begin

text \<open>
  The receive feeder of the PipeWire bridge, \<open>pipewire/src/reac_rx.c\<close>: it decodes each frame, converts it to
  float, appends it to the sample ring, counts lost frames and estimates the clock error.  The
  ring the feeder shares with the source node is passed beside its own state.  The function-local static variables
  of \<open>update_ppm\<close> are the record \<open>ppm_window\<close>; the readings of the monotonic clock are arguments.
\<close>

datatype reac_rx_kind = REAC_RX_PCAP | REAC_RX_LIVE

record reac_rx_cfg =
  rc_kind :: reac_rx_kind
  rc_source :: string
  rc_forced_rate :: int
  rc_pcap_realtime :: bool

record reac_rx =
  rx_cfg :: reac_rx_cfg
  rx_sample_rate :: int
  rx_running :: bool
  rx_ppm_error_milli :: int
  rx_frames_ok :: u64
  rx_frames_bad :: u64
  rx_counter_gaps :: u64

record ppm_window =
  win_start_ns :: u64
  win_frames :: u32
  win_last_counter :: u16
  win_have_last :: bool

definition feed_frame ::
  "libreac \<Rightarrow> reac_rx \<Rightarrow> f32 reac_ring \<Rightarrow> reac_mode \<Rightarrow> byte list \<Rightarrow> nat \<Rightarrow> (reac_rx \<times> f32 reac_ring) option" where
  "feed_frame L rx ring mode frame len = do {
     (ns, s24) \<leftarrow> reac_decode L frame len mode
        (replicate (REAC_MAX_CHANNELS L * REAC_SAMPLES_PER_PKT L * REAC_RESOLUTION L) 0);
     if ns < 0 then Some (rx\<lparr>rx_frames_bad := rx_frames_bad rx + 1\<rparr>, ring)
     else do {
       let nch = nat (n_channels mode);
       pcm \<leftarrow> forn nch (\<lambda>ch. forn (nat ns) (\<lambda>s pcm. do {
           v \<leftarrow> s24le_to_f32 s24 ((ch * nat ns + s) * 3);
           wr pcm (ch * nat ns + s) v
         })) (replicate (REAC_MAX_CHANNELS L * REAC_SAMPLES_PER_PKT L) 0);
       (_, ring) \<leftarrow> reac_ring_write ring pcm (word_of_int ns);
       Some (rx\<lparr>rx_frames_ok := rx_frames_ok rx + 1\<rparr>, ring)
     }
   }"

text \<open>The \<open>double\<close> expression of the window, each operation rounded.\<close>

definition ppm_milli :: "libreac \<Rightarrow> u32 \<Rightarrow> u64 \<Rightarrow> int \<Rightarrow> int option" where
  "ppm_milli L frames dt rate = (
     let obs_pps = dbl (dbl (of_nat (unat frames) * 1000000000) / dbl (of_nat (unat dt)));
         nom_pps = dbl (of_int rate / of_nat (REAC_SAMPLES_PER_PKT L));
         ppm = dbl (dbl (dbl (obs_pps - nom_pps) / nom_pps) * 1000000)
     in dbl_to_int (dbl (ppm * 1000)))"

definition update_ppm ::
  "libreac \<Rightarrow> reac_rx \<Rightarrow> ppm_window \<Rightarrow> u16 \<Rightarrow> u64 \<Rightarrow> (reac_rx \<times> ppm_window) option" where
  "update_ppm L rx st counter now_ns = do {
     let st = (if win_have_last st
               then st\<lparr>win_frames := win_frames st + (ucast (reac_counter_gap L (win_last_counter st) counter) + 1)\<rparr>
               else st\<lparr>win_start_ns := now_ns, win_have_last := True\<rparr>);
     let st = st\<lparr>win_last_counter := counter\<rparr>;
     let dt = now_ns - win_start_ns st;
     if dt \<ge> 250000000 then do {
       e \<leftarrow> ppm_milli L (win_frames st) dt (rx_sample_rate rx);
       Some (rx\<lparr>rx_ppm_error_milli := e\<rparr>, st\<lparr>win_start_ns := now_ns, win_frames := 0\<rparr>)
     }
     else Some (rx, st)
   }"

text \<open>The local variables of the receive loop.\<close>

record rx_locals =
  rl_last_counter :: u16
  rl_have_counter :: bool
  rl_pcap_first_ts :: u64
  rl_wall_first_ns :: u64

text \<open>
  The part of a round of \<open>rx_loop\<close> after a frame of \<open>n\<close> bytes has been read.  \<open>now1\<close> and \<open>now2\<close> are what the
  two calls of \<open>mono_ns\<close> give; the last component of the result is the deadline slept to, if any.
\<close>

definition rx_handle ::
  "libreac \<Rightarrow> reac_mode \<Rightarrow> reac_rx \<Rightarrow> f32 reac_ring \<Rightarrow> rx_locals \<Rightarrow> ppm_window \<Rightarrow> byte list \<Rightarrow> int \<Rightarrow> u64 \<Rightarrow>
   u64 \<Rightarrow> u64 \<Rightarrow> (reac_rx \<times> f32 reac_ring \<times> rx_locals \<times> ppm_window \<times> u64 option) option" where
  "rx_handle L mode rx ring lv win frame n pcap_ts now1 now2 = (
     if n \<le> 0 then Some (rx, ring, lv, win, None)
     else if \<not> reac_frame_is_reac L (take (nat n) frame) then Some (rx, ring, lv, win, None)
     else do {
       let live = (rc_kind (rx_cfg rx) = REAC_RX_LIVE);
       let paced = (\<not> live \<and> rc_pcap_realtime (rx_cfg rx) \<and> pcap_ts \<noteq> 0);
       let lv = (if paced \<and> rl_wall_first_ns lv = 0
                 then lv\<lparr>rl_wall_first_ns := now1, rl_pcap_first_ts := pcap_ts\<rparr> else lv);
       let target = (if paced then Some (rl_wall_first_ns lv + (pcap_ts - rl_pcap_first_ts lv) * 1000) else None);
       let counter = reac_frame_counter L frame;
       let gap = reac_counter_gap L (rl_last_counter lv) counter;
       let rx = (if rl_have_counter lv \<and> gap \<noteq> 0
                 then rx\<lparr>rx_counter_gaps := rx_counter_gaps rx + ucast gap\<rparr> else rx);
       let lv = lv\<lparr>rl_last_counter := counter, rl_have_counter := True\<rparr>;
       (rx, win) \<leftarrow> update_ppm L rx win counter now2;
       (rx, ring) \<leftarrow> feed_frame L rx ring mode frame (nat n);
       Some (rx, ring, lv, win, target)
     })"

text \<open>A round of the loop on a capture file, which is opened again at its end.\<close>

definition rx_pcap_round ::
  "nat \<Rightarrow> cfile option \<Rightarrow> libreac \<Rightarrow> reac_mode \<Rightarrow> u64 \<times> u64 \<Rightarrow>
   reac_rx \<times> f32 reac_ring \<times> rx_locals \<times> ppm_window \<times> pcap_source \<times> byte list \<Rightarrow>
   (reac_rx \<times> f32 reac_ring \<times> rx_locals \<times> ppm_window \<times> pcap_source \<times> byte list) option" where
  "rx_pcap_round long_bits fopen L mode clk = (\<lambda>(rx, ring, lv, win, ps, frame). do {
     (n, ps, frame, ts) \<leftarrow> pcap_source_next long_bits ps frame (REAC_FRAME_BYTES L + 64) (Some 0);
     if n = 0 then do {
       (_, ps) \<leftarrow> pcap_source_open fopen (pcap_source_close ps);
       Some (rx, ring, lv\<lparr>rl_have_counter := False, rl_wall_first_ns := 0\<rparr>, win, ps, frame)
     }
     else do {
       (rx, ring, lv, win, _) \<leftarrow> rx_handle L mode rx ring lv win frame n (the ts) (fst clk) (snd clk);
       Some (rx, ring, lv, win, ps, frame)
     }
   })"

text \<open>A round of the loop on a live interface.\<close>

definition rx_live_round ::
  "'w os \<Rightarrow> libreac \<Rightarrow> reac_mode \<Rightarrow> u64 \<times> u64 \<Rightarrow>
   reac_rx \<times> f32 reac_ring \<times> rx_locals \<times> ppm_window \<times> reac_capture \<times> byte list \<times> 'w \<Rightarrow>
   (reac_rx \<times> f32 reac_ring \<times> rx_locals \<times> ppm_window \<times> reac_capture \<times> byte list \<times> 'w) option" where
  "rx_live_round K L mode clk = (\<lambda>(rx, ring, lv, win, cap, frame, w). do {
     (n, frame, w) \<leftarrow> reac_capture_next K cap frame (REAC_FRAME_BYTES L + 64) w;
     (rx, ring, lv, win, _) \<leftarrow> rx_handle L mode rx ring lv win frame n 0 (fst clk) (snd clk);
     Some (rx, ring, lv, win, cap, frame, w)
   })"

text \<open>\<open>detect\<close> is \<open>reac_detect_rate_fd\<close> of libreac, \<open>calloc\<close> the allocator behind the ring.\<close>

definition reac_rx_open ::
  "'w os \<Rightarrow> (int \<Rightarrow> int) \<Rightarrow> (nat \<Rightarrow> bool) \<Rightarrow> libreac \<Rightarrow> reac_rx_cfg \<Rightarrow> f32 reac_ring \<Rightarrow> 'w \<Rightarrow>
   int \<times> reac_rx \<times> f32 reac_ring \<times> 'w" where
  "reac_rx_open K detect calloc L cfg ring w = (
     let rx = \<lparr>rx_cfg = cfg, rx_sample_rate = 0, rx_running = False, rx_ppm_error_milli = 0,
               rx_frames_ok = 0, rx_frames_bad = 0, rx_counter_gaps = 0\<rparr>;
         (ok, rx, w) =
           (if rc_forced_rate cfg \<noteq> 0 then (True, rx\<lparr>rx_sample_rate := rc_forced_rate cfg\<rparr>, w)
            else if rc_kind cfg = REAC_RX_LIVE then
              (case reac_capture_open K (rc_source cfg) w of (rc, cap, w) \<Rightarrow>
                 if rc \<noteq> 0 then (False, rx, w)
                 else let r = detect (cap_fd cap); (_, w) = reac_capture_close K cap w
                      in (True, rx\<lparr>rx_sample_rate := (if r > 0 then r else 48000)\<rparr>, w))
            else (True, rx\<lparr>rx_sample_rate := 48000\<rparr>, w))
     in if \<not> ok then (- 1, rx, ring, w)
        else
          let depth = word_of_int (rx_sample_rate rx sdiv 4);
              (rc, ring) = reac_ring_init calloc ring (of_nat (REAC_MAX_CHANNELS L)) depth
          in (if rc \<noteq> 0 then - 1 else 0, rx, ring, w))"

subsection \<open>Feeding the ring\<close>

text \<open>The twelve time steps of a frame, each the float samples of the forty channels.\<close>

definition frame_steps :: "reac_mode \<Rightarrow> byte list \<Rightarrow> f32 list list" where
  "frame_steps m fr =
     map (\<lambda>s. map (\<lambda>ch. sample_f32 (dec24 (wire_sample m fr ch s))) [0..<nch_of m]) [0..<sps_of m]"

definition wire_mode :: "reac_mode \<Rightarrow> bool" where
  "wire_mode m \<longleftrightarrow> n_channels m = 40 \<and> samples_per_pkt m = 12"

lemma wire_modeD: "wire_mode m \<Longrightarrow> mode_ok m \<and> nch_of m = 40 \<and> sps_of m = 12"
  by (simp add: wire_mode_def mode_ok_def)

lemma nth_concat_rows:
  assumes "\<And>i. i < n \<Longrightarrow> length (g i) = k" and "i < n" and "j < k"
  shows "concat (map g [0..<n]) ! (i * k + j) = g i ! j"
proof -
  have "i * k + k \<le> n * k" using assms(2) by (metis Suc_leI add.commute mult_Suc mult_le_mono1)
  then have "i * k + j < length (concat (map g [0..<n]))" using assms by (simp add: length_concat_const)
  then have "chunk (concat (map g [0..<n])) (i * k) k ! j = concat (map g [0..<n]) ! (i * k + j)"
    using assms(3) by (intro nth_chunk) auto
  then show ?thesis using chunk_concat_map[of n g k i] assms by simp
qed

lemma convert_loop:
  assumes "length s24 = nch * ns * 3" and "length pcm = nch * ns"
  shows "forn nch (\<lambda>ch. forn ns (\<lambda>s pcm. do {
           v \<leftarrow> s24le_to_f32 s24 ((ch * ns + s) * 3);
           wr pcm (ch * ns + s) v
         })) pcm
    = Some (concat (map (\<lambda>ch. map (\<lambda>s. sample_f32 (dec24 (sample_at ns s24 ch s))) [0..<ns]) [0..<nch]))"
proof -
  let ?v = "\<lambda>ch s. sample_f32 (dec24 (sample_at ns s24 ch s))"
  have inner: "forn ns (\<lambda>s pcm. do { v \<leftarrow> s24le_to_f32 s24 ((ch * ns + s) * 3); wr pcm (ch * ns + s) v }) t
      = Some (blit t (0 + ch * ns) (map (?v ch) [0..<ns]))"
    if ch: "ch < nch" and t: "length t = length pcm" for ch t
  proof -
    have "Suc ch * ns \<le> nch * ns" using ch by (intro mult_le_mono1) simp
    then have fit: "ch * ns + ns \<le> length t" using t assms(2) by simp
    have "forn ns (\<lambda>s pcm. do { v \<leftarrow> s24le_to_f32 s24 ((ch * ns + s) * 3); wr pcm (ch * ns + s) v }) t
      = Some (blit t (ch * ns) (concat (map (\<lambda>s. [?v ch s]) [0..<ns])))"
    proof (rule forn_blit[where k = 1])
      fix s and u :: "f32 list" assume s: "s < ns" and u: "length u = length t"
      have "(ch * ns + s) * 3 + 3 \<le> length s24" using index_bound3[OF ch s] assms(1) by simp
      then have "s24le_to_f32 s24 ((ch * ns + s) * 3) = Some (?v ch s)"
        by (simp add: s24le_to_f32_eq sample_at_def)
      moreover have "ch * ns + s < length u" using s u fit by simp
      ultimately show "s24le_to_f32 s24 ((ch * ns + s) * 3) \<bind> wr u (ch * ns + s)
          = Some (blit u (ch * ns + s * 1) [?v ch s])" by (simp add: wr_blit)
    qed (use fit in auto)
    then show ?thesis by simp
  qed
  have "forn nch (\<lambda>ch. forn ns (\<lambda>s pcm. do {
           v \<leftarrow> s24le_to_f32 s24 ((ch * ns + s) * 3);
           wr pcm (ch * ns + s) v
         })) pcm = Some (blit pcm 0 (concat (map (\<lambda>ch. map (?v ch) [0..<ns]) [0..<nch])))"
    by (rule forn_blit[where k = ns]) (use assms inner in auto)
  then show ?thesis using assms(2) by (simp add: blit_full length_concat_const)
qed

lemma feed_frame_eq:
  assumes geo: "documented_geometry L" and m: "wire_mode m" and len: "len \<le> length fr"
    and ring: "ring_ok ring" "chans_of ring = 40" "12 < cap_of ring"
  defines "room \<equiv> cap_of ring - 1 - length (queue_of ring)"
  shows "\<exists>ring'. feed_frame L rx ring m fr len =
      Some (if well_formed fr len then rx\<lparr>rx_frames_ok := rx_frames_ok rx + 1\<rparr>
            else rx\<lparr>rx_frames_bad := rx_frames_bad rx + 1\<rparr>, ring') \<and>
    ring_ok ring' \<and> rg_channels ring' = rg_channels ring \<and> rg_capacity ring' = rg_capacity ring \<and>
    queue_of ring' = queue_of ring @ (if well_formed fr len then take room (frame_steps m fr) else [])"
proof (cases "well_formed fr len")
  case False
  then show ?thesis
    using ring(1) by (simp add: feed_frame_def decode_invalid[OF geo len])
next
  case True
  note mm = wire_modeD[OF m]
  have raw: "1492 \<le> length fr" using True len by (simp add: well_formed_def)
  have pcm: "length (decoded_pcm m fr) = 40 * 12 * 3" using mm raw by simp
  have dec: "reac_decode L fr len m (replicate 1440 0) = Some (12, decoded_pcm m fr)"
    using decode_valid[OF geo _ len True, of m "replicate 1440 0"] mm m pcm
    by (simp add: blit_full wire_mode_def)
  let ?row = "\<lambda>ch. map (\<lambda>s. sample_f32 (dec24 (sample_at 12 (decoded_pcm m fr) ch s))) [0..<12]"
  let ?f = "concat (map ?row [0..<40])"
  have conv: "forn 40 (\<lambda>ch. forn 12 (\<lambda>s p. do {
           v \<leftarrow> s24le_to_f32 (decoded_pcm m fr) ((ch * 12 + s) * 3); wr p (ch * 12 + s) v })) (replicate 480 0)
      = Some ?f"
    using pcm by (intro convert_loop) simp_all
  have at: "?f ! (c * 12 + s) = sample_f32 (dec24 (wire_sample m fr c s))" if "c < 40" "s < 12" for c s
  proof -
    have "sample_at 12 (decoded_pcm m fr) c s = wire_sample m fr c s"
      using that mm raw sample_at_planar[of "nch_of m" "sps_of m" "wire_sample m fr" c s]
      by (simp add: decoded_pcm_def)
    then show ?thesis using nth_concat_rows[of 40 ?row 12 c s] that by simp
  qed
  have "length ?f = 480" by (simp add: length_concat_const)
  then have src: "chans_of ring * unat (12 :: u32) \<le> length ?f" using ring(2) by simp
  have st: "min (unat (12 :: u32)) (cap_of ring - 1) = 12" using ring(3) by simp
  obtain ring' where w: "reac_ring_write ring ?f 12 = Some (of_nat (min 12 room), ring')" "ring_ok ring'"
      "queue_of ring' = queue_of ring @ accepted 40 12 ?f (min 12 room)"
      "rg_capacity ring' = rg_capacity ring" "rg_channels ring' = rg_channels ring"
    using ring_write_eq[OF ring(1) src] unfolding st room_def length_queue_of ring(2) by blast
  have "accepted 40 12 ?f (min 12 room) = take room (frame_steps m fr)"
    using at mm by (simp add: accepted_def frame_steps_def take_map take_upt0 min.commute)
  then show ?thesis
    using True dec conv w by (simp add: feed_frame_def geometry_simps[OF geo] mm)
qed

text \<open>
  The feeder puts a frame into the ring whole and in order.  For a well-formed frame the queue grows by the
  frame's twelve time steps, each with all forty channels, as far as there is room, and the frame
  counts as good; any other frame leaves the queue alone and counts as bad.
\<close>

theorem feed_appends_steps:
  assumes "documented_geometry L" and "wire_mode m" and "len \<le> length fr"
    and "ring_ok ring" and "chans_of ring = 40" and "12 < cap_of ring"
  shows "\<exists>rx' ring'. feed_frame L rx ring m fr len = Some (rx', ring') \<and> ring_ok ring' \<and>
    (if well_formed fr len
     then rx_frames_ok rx' = rx_frames_ok rx + 1 \<and> rx_frames_bad rx' = rx_frames_bad rx \<and>
       queue_of ring' = queue_of ring @ take (cap_of ring - 1 - length (queue_of ring)) (frame_steps m fr)
     else rx_frames_bad rx' = rx_frames_bad rx + 1 \<and> rx_frames_ok rx' = rx_frames_ok rx \<and>
       queue_of ring' = queue_of ring)"
  using feed_frame_eq[OF assms, of rx] by (cases "well_formed fr len") auto

text \<open>An empty ring of forty channels and sixteen frames.\<close>

definition ring16 :: "f32 reac_ring" where
  "ring16 = \<lparr>rg_buf = replicate 640 0, rg_capacity = 16, rg_mask = 15, rg_channels = 40, rg_head = 0, rg_tail = 0,
     rg_underruns = 0, rg_overruns = 0\<rparr>"

lemma ring16_ok [simp]: "ring_ok ring16" "chans_of ring16 = 40" "cap_of ring16 = 16" "queue_of ring16 = []"
  by (auto simp: ring16_def ring_ok_def queue_of_def level_def ring_dist_def intro!: bexI[of _ 4])

definition rx_start :: reac_rx where
  "rx_start = \<lparr>rx_cfg = \<lparr>rc_kind = REAC_RX_PCAP, rc_source = ''x.pcap'', rc_forced_rate = 0, rc_pcap_realtime = True\<rparr>,
     rx_sample_rate = 48000, rx_running = True, rx_ppm_error_milli = 0, rx_frames_ok = 0, rx_frames_bad = 0,
     rx_counter_gaps = 0\<rparr>"

theorem feed_appends_steps_witness:
  "\<exists>rx' ring'. feed_frame libreac_doc rx_start ring16 mode_48k sample_frame 1492 = Some (rx', ring') \<and>
     rx_frames_ok rx' = 1 \<and> queue_of ring' = frame_steps mode_48k sample_frame"
  using feed_appends_steps[of libreac_doc mode_48k 1492 sample_frame ring16 rx_start]
  by (auto simp: wire_mode_def rx_start_def frame_steps_def)

subsection \<open>The clock estimate\<close>

lemma dbl_nat: "n < 2 ^ 53 \<Longrightarrow> dbl (of_nat n) = of_nat n"
  using dbl_of_int[of "int n"] by (simp add: nat_less_numeral_power_cancel_iff)

text \<open>The rounded chain of operations respects every bound that is a whole multiple of the nominal rate.\<close>

lemma ppm_chain:
  fixes N a b :: int and x :: rat
  assumes N: "0 < N" "N \<le> 8000" and x: "of_int ((1 + a) * N) \<le> x" "x \<le> of_int ((1 + b) * N)"
    and ab: "- 1 \<le> a" "b \<le> 1000000"
  shows "of_int (a * 1000000000) \<le> dbl (dbl (dbl (dbl (dbl x - of_int N) / of_int N) * 1000000) * 1000) \<and>
    dbl (dbl (dbl (dbl (dbl x - of_int N) / of_int N) * 1000000) * 1000) \<le> of_int (b * 1000000000)"
proof -
  have lim: "- (2 ^ 53) < k * a \<and> k * b < 2 ^ 53 \<and> - (2 ^ 53) < (1 + a) * k" if "0 < k" "k \<le> 1000000000" for k :: int
  proof -
    have "- k \<le> k * a" using that ab(1) mult_left_mono[of "- 1" a k] by simp
    moreover have kb: "k * b \<le> k * 1000000" using that ab(2) by (intro mult_left_mono) auto
    moreover have "0 \<le> (1 + a) * k" using that ab(1) by simp
    moreover have "k * b < 9007199254740992" using kb that(2) by linarith
    ultimately show ?thesis using that by simp
  qed
  have "(1 + b) * N \<le> 1000001 * N" using N ab(2) by (intro mult_right_mono) auto
  then have "(1 + b) * N < 9007199254740992" using N(2) by linarith
  then have bN: "(1 + b) * N < 2 ^ 53" by simp
  have s1: "of_int ((1 + a) * N) \<le> dbl x \<and> dbl x \<le> of_int ((1 + b) * N)"
    using x bN lim[of N] N by (intro dbl_between) auto
  then have "of_int (N * a) \<le> dbl x - of_int N" "dbl x - of_int N \<le> of_int (N * b)"
    by (simp_all add: algebra_simps)
  then have s2: "of_int (N * a) \<le> dbl (dbl x - of_int N) \<and> dbl (dbl x - of_int N) \<le> of_int (N * b)"
    using lim[of N] N by (intro dbl_between) auto
  then have "of_int a \<le> dbl (dbl x - of_int N) / of_int N" "dbl (dbl x - of_int N) / of_int N \<le> of_int b"
    using N by (simp_all add: field_simps)
  then have s3: "of_int a \<le> dbl (dbl (dbl x - of_int N) / of_int N) \<and>
      dbl (dbl (dbl x - of_int N) / of_int N) \<le> of_int b"
    using lim[of 1] by (intro dbl_between) auto
  then have s4: "of_int (1000000 * a) \<le> dbl (dbl (dbl (dbl x - of_int N) / of_int N) * 1000000) \<and>
      dbl (dbl (dbl (dbl x - of_int N) / of_int N) * 1000000) \<le> of_int (1000000 * b)"
    using lim[of 1000000] by (intro dbl_between) auto
  show ?thesis
    using s4 lim[of 1000000000] by (intro dbl_between) auto
qed

definition reac_rate :: "int \<Rightarrow> bool" where
  "reac_rate r \<longleftrightarrow> r \<in> {44100, 48000, 96000}"

lemma reac_rate_nominal:
  "reac_rate r \<Longrightarrow> \<exists>N. r = 12 * N \<and> 0 < N \<and> N \<le> 8000 \<and> 3675 \<le> N"
  by (auto simp: reac_rate_def intro: exI[of _ 3675] exI[of _ 4000] exI[of _ 8000])

lemma ppm_milli_eq:
  assumes "documented_geometry L" and "unat frames < 2 ^ 23" and "unat dt < 2 ^ 53" and "r = 12 * N" and "0 < N" "N \<le> 8000"
  shows "ppm_milli L frames dt r = dbl_to_int (dbl (dbl (dbl (dbl (dbl
      (of_nat (unat frames) * 1000000000 / of_nat (unat dt)) - of_int N) / of_int N) * 1000000) * 1000))"
proof -
  have "unat frames * 1000000000 < 2 ^ 53" using assms(2) by simp
  then have "dbl (of_nat (unat frames) * 1000000000) = of_nat (unat frames) * 1000000000"
    using dbl_nat[of "unat frames * 1000000000"] by simp
  moreover have "dbl (of_int r / 12) = of_int N" using dbl_of_int[of N] assms(4-6) by simp
  ultimately show ?thesis
    using dbl_nat[OF assms(3)] by (simp add: ppm_milli_def Let_def geometry_simps[OF assms(1)])
qed

text \<open>
  The counter advanced by \<open>frames\<close> in \<open>dt\<close> nanoseconds at least \<open>a\<close>, at most \<open>b\<close> times as fast as nominal.
\<close>

definition speed_le :: "u32 \<Rightarrow> u64 \<Rightarrow> int \<Rightarrow> int \<Rightarrow> bool" where
  "speed_le frames dt r b \<longleftrightarrow> 12 * 1000000000 * int (unat frames) \<le> b * r * int (unat dt)"

definition speed_ge :: "u32 \<Rightarrow> u64 \<Rightarrow> int \<Rightarrow> int \<Rightarrow> bool" where
  "speed_ge frames dt r a \<longleftrightarrow> a * r * int (unat dt) \<le> 12 * 1000000000 * int (unat frames)"

lemma speed_bounds:
  fixes frames :: u32
  assumes "r = 12 * N" and "0 < unat dt"
  defines "x \<equiv> of_nat (unat frames) * 1000000000 / of_nat (unat dt) :: rat"
  shows "speed_le frames dt r b \<Longrightarrow> x \<le> of_int (b * N)" "speed_ge frames dt r a \<Longrightarrow> of_int (a * N) \<le> x"
proof -
  let ?F = "int (unat frames)" and ?D = "int (unat dt)"
  have x: "x = of_int (?F * 1000000000) / of_int ?D" by (simp add: x_def)
  have "0 < ?D" using assms(2) by (simp only: of_nat_0_less_iff)
  then have D: "(0::rat) < of_int ?D" by (simp only: of_int_0_less_iff)
  show "x \<le> of_int (b * N)" if "speed_le frames dt r b"
  proof -
    have "?F * 1000000000 \<le> b * N * ?D" using that by (simp add: speed_le_def assms(1) mult_ac)
    then have "(of_int (?F * 1000000000) :: rat) \<le> of_int (b * N * ?D)" by (simp only: of_int_le_iff)
    then show ?thesis unfolding x pos_divide_le_eq[OF D] by (simp only: of_int_mult)
  qed
  show "of_int (a * N) \<le> x" if "speed_ge frames dt r a"
  proof -
    have "a * N * ?D \<le> ?F * 1000000000" using that by (simp add: speed_ge_def assms(1) mult_ac)
    then have "(of_int (a * N * ?D) :: rat) \<le> of_int (?F * 1000000000)" by (simp only: of_int_le_iff)
    then show ?thesis unfolding x pos_le_divide_eq[OF D] by (simp only: of_int_mult)
  qed
qed

lemma ppm_milli_bounds:
  assumes "documented_geometry L" and "unat frames < 2 ^ 23" and "0 < unat dt" "unat dt < 2 ^ 53" and "reac_rate r"
    and "speed_ge frames dt r (1 + a)" and "speed_le frames dt r (1 + b)" and "- 1 \<le> a" "b \<le> 2"
  shows "\<exists>e. ppm_milli L frames dt r = Some e \<and> a * 1000000000 \<le> e \<and> e \<le> b * 1000000000"
proof -
  obtain N where N: "r = 12 * N" "0 < N" "N \<le> 8000" using reac_rate_nominal[OF assms(5)] by blast
  let ?x = "of_nat (unat frames) * 1000000000 / of_nat (unat dt) :: rat"
  have "of_int ((1 + a) * N) \<le> ?x" "?x \<le> of_int ((1 + b) * N)"
    using speed_bounds[OF N(1) assms(3)] assms(6,7) by blast+
  from ppm_chain[OF N(2,3) this] assms(8,9) show ?thesis
    unfolding ppm_milli_eq[OF assms(1,2,4) N] by (intro dbl_to_int_bounds) auto
qed

text \<open>
  C26.  The clock estimate is defined and has the right sign as long as the counter advances at most three times
  as fast as nominal: with all roundings of the double arithmetic it lies between \<open>-10^9\<close> and
  \<open>2 * 10^9\<close> thousandths of a ppm, is not positive for a slow and not negative for a fast clock, and is
  exactly zero for a clock at the nominal rate.
\<close>

theorem ppm_tracks_clock:
  assumes "documented_geometry L" and "unat frames < 2 ^ 23" and "0 < unat dt" and "unat dt < 2 ^ 53"
    and "reac_rate r" and "speed_le frames dt r 3"
  shows "\<exists>e. ppm_milli L frames dt r = Some e \<and> - 1000000000 \<le> e \<and> e \<le> 2000000000 \<and>
    (speed_le frames dt r 1 \<longrightarrow> e \<le> 0) \<and> (speed_ge frames dt r 1 \<longrightarrow> 0 \<le> e)"
proof -
  note B = ppm_milli_bounds[OF assms(1-5)]
  have lo: "speed_ge frames dt r 0" by (simp add: speed_ge_def)
  obtain e where e: "ppm_milli L frames dt r = Some e" "- 1000000000 \<le> e" "e \<le> 2000000000"
    using B[of "- 1" 2] lo assms(6) by auto
  moreover have "e \<le> 0" if "speed_le frames dt r 1" using B[of "- 1" 0] lo that e(1) by auto
  moreover have "0 \<le> e" if "speed_ge frames dt r 1" using B[of 0 2] assms(6) that e(1) by auto
  ultimately show ?thesis by blast
qed

theorem ppm_tracks_clock_witness:
  "\<exists>e. ppm_milli libreac_doc 1000 250000000 48000 = Some e \<and> e = 0"
  using ppm_tracks_clock[of libreac_doc 1000 250000000 48000]
  by (auto simp: reac_rate_def speed_le_def speed_ge_def)

text \<open>
  A jump of the counter makes the estimate undefined.  Once a window of at least a quarter of a second
  holds at least four times the nominal number of frames, the value stored does not fit an \<open>int\<close> and the
  conversion is undefined behaviour.  The window counts the gap to the next counter as frames,
  so one restart of the counter, as at each end of a looped capture file, is enough.
\<close>

theorem counter_jump_overflows:
  assumes "documented_geometry L" and "win_have_last st" and "reac_rate (rx_sample_rate rx)"
    and "frames = win_frames st + (ucast (reac_counter_gap L (win_last_counter st) counter) + 1)"
    and "dt = now - win_start_ns st" and "dt \<ge> 250000000" and "unat dt < 2 ^ 53"
    and "unat frames < 2 ^ 23" and "speed_ge frames dt (rx_sample_rate rx) 4"
  shows "update_ppm L rx st counter now = None"
proof -
  obtain N where N: "rx_sample_rate rx = 12 * N" "0 < N" "N \<le> 8000" and N1: "3675 \<le> N" using reac_rate_nominal[OF assms(3)] by blast
  have dt: "250000000 \<le> unat dt" using assms(6) by (simp add: word_le_nat_alt)
  let ?x = "of_nat (unat frames) * 1000000000 / of_nat (unat dt) :: rat"
  have x4: "of_int ((1 + 3) * N) \<le> ?x" using speed_bounds(2)[OF N(1), of dt frames 4] assms(9) dt by simp
  have "int (unat frames) * 1000000000 \<le> 1000001 * N * int (unat dt)"
  proof -
    have "int (unat frames) < int 8388608" using assms(8) by (subst of_nat_less_iff) simp
    moreover have "int 250000000 \<le> int (unat dt)" using dt by (subst of_nat_le_iff)
    then have "3675 * 250000000 \<le> N * int (unat dt)" using N1 by (intro mult_mono) auto
    ultimately show ?thesis by linarith
  qed
  then have "speed_le frames dt (rx_sample_rate rx) (1 + 1000000)" by (simp add: speed_le_def N(1))
  then have xb: "?x \<le> of_int ((1 + 1000000) * N)" using speed_bounds(1)[OF N(1), of dt frames "1 + 1000000"] dt by simp
  let ?y = "dbl (dbl (dbl (dbl (dbl ?x - of_int N) / of_int N) * 1000000) * 1000)"
  have "of_int (3 * 1000000000) \<le> ?y" using ppm_chain[OF N(2,3) x4 xb] by simp
  then have "0 \<le> ?y" "3000000000 \<le> \<lfloor>?y\<rfloor>" by (simp_all add: le_floor_iff)
  then have "ppm_milli L frames dt (rx_sample_rate rx) = None"
    unfolding ppm_milli_eq[OF assms(1,8,7) N] by (simp add: dbl_to_int_def)
  then show ?thesis using assms(2,4,5,6) by (simp add: update_ppm_def Let_def)
qed

theorem counter_jump_overflows_witness:
  "update_ppm libreac_doc rx_start \<lparr>win_start_ns = 1000, win_frames = 900, win_last_counter = 5000, win_have_last = True\<rparr>
     100 250001000 = None"
  by (rule counter_jump_overflows[where frames = 61536 and dt = 250000000])
    (simp_all add: rx_start_def reac_rate_def speed_ge_def libreac_doc_def[THEN arg_cong, of reac_counter_gap])

subsection \<open>A round of the receive loop\<close>

lemma update_ppm_gaps:
  "update_ppm L (rx\<lparr>rx_counter_gaps := g\<rparr>) win c now
     = map_option (\<lambda>(r, x). (r\<lparr>rx_counter_gaps := g\<rparr>, x)) (update_ppm L rx win c now)"
proof -
  have b: "x \<bind> (\<lambda>e. Some (f e)) = map_option f x" for x :: "int option" and f :: "int \<Rightarrow> reac_rx \<times> ppm_window"
    by (cases x) auto
  show ?thesis by (cases rx) (simp add: update_ppm_def Let_def b option.map_comp comp_def)
qed

lemma update_ppm_keeps:
  "update_ppm L rx win c now = Some (rx', win') \<Longrightarrow>
     rx_frames_ok rx' = rx_frames_ok rx \<and> rx_frames_bad rx' = rx_frames_bad rx \<and>
     rx_counter_gaps rx' = rx_counter_gaps rx \<and> rx_cfg rx' = rx_cfg rx \<and> rx_sample_rate rx' = rx_sample_rate rx"
  by (auto simp: update_ppm_def Let_def bind_eq_Some_conv split: if_splits)

text \<open>
  A round of the receive loop on a well-formed frame counts the frames lost before it, by the gap
  between the two counters and nothing for the first frame or after a restart of the file,
  remembers its counter, takes over the clock estimate, and appends its time steps to the ring.
\<close>

theorem rx_round_counts_and_feeds:
  assumes "documented_geometry L" and "documented_counter L" and "wire_mode m" and "nat n \<le> length fr"
    and "well_formed fr (nat n)" and "reac_frame_is_reac L (take (nat n) fr)"
    and "ring_ok ring" and "chans_of ring = 40" and "12 < cap_of ring"
    and "update_ppm L rx win (frame_counter fr) now2 = Some (rx1, win1)"
  shows "\<exists>rx' ring' lv' t. rx_handle L m rx ring lv win fr n ts now1 now2 = Some (rx', ring', lv', win1, t) \<and>
    ring_ok ring' \<and>
    queue_of ring' = queue_of ring @ take (cap_of ring - 1 - length (queue_of ring)) (frame_steps m fr) \<and>
    rx_frames_ok rx' = rx_frames_ok rx + 1 \<and> rx_ppm_error_milli rx' = rx_ppm_error_milli rx1 \<and>
    rx_counter_gaps rx' = rx_counter_gaps rx +
      (if rl_have_counter lv then ucast (reac_counter_gap L (rl_last_counter lv) (frame_counter fr)) else 0) \<and>
    rl_have_counter lv' \<and> rl_last_counter lv' = frame_counter fr"
proof -
  have n: "0 < n" using assms(5) by (auto simp: well_formed_def)
  have len: "16 \<le> length fr" using assms(4,5) by (simp add: well_formed_def)
  then have c: "reac_frame_counter L fr = frame_counter fr"
    using assms(2) by (simp add: documented_counter_def frame_counter_def)
  let ?gap = "reac_counter_gap L (rl_last_counter lv) (frame_counter fr)"
  define g where "g = rx_counter_gaps rx + (if rl_have_counter lv then ucast ?gap else 0)"
  have rxg: "(if rl_have_counter lv \<and> ?gap \<noteq> 0 then rx\<lparr>rx_counter_gaps := rx_counter_gaps rx + ucast ?gap\<rparr> else rx)
      = rx\<lparr>rx_counter_gaps := g\<rparr>"
    by (auto simp: g_def)
  have up: "update_ppm L (rx\<lparr>rx_counter_gaps := g\<rparr>) win (frame_counter fr) now2 = Some (rx1\<lparr>rx_counter_gaps := g\<rparr>, win1)"
    using assms(10) by (simp add: update_ppm_gaps)
  obtain ring' where f: "feed_frame L (rx1\<lparr>rx_counter_gaps := g\<rparr>) ring m fr (nat n)
      = Some (rx1\<lparr>rx_counter_gaps := g, rx_frames_ok := rx_frames_ok rx1 + 1\<rparr>, ring')" "ring_ok ring'"
      "queue_of ring' = queue_of ring @ take (cap_of ring - 1 - length (queue_of ring)) (frame_steps m fr)"
    using feed_frame_eq[OF assms(1,3,4,7-9), of "rx1\<lparr>rx_counter_gaps := g\<rparr>"] assms(5) by auto
  have keep: "rx_frames_ok rx1 = rx_frames_ok rx" using update_ppm_keeps[OF assms(10)] by simp
  define paced where "paced \<longleftrightarrow> \<not> rc_kind (rx_cfg rx) = REAC_RX_LIVE \<and> rc_pcap_realtime (rx_cfg rx) \<and> ts \<noteq> 0"
  define lv1 where "lv1 = (if paced \<and> rl_wall_first_ns lv = 0
    then lv\<lparr>rl_wall_first_ns := now1, rl_pcap_first_ts := ts\<rparr> else lv)"
  have lv1: "rl_have_counter lv1 = rl_have_counter lv" "rl_last_counter lv1 = rl_last_counter lv"
    by (simp_all add: lv1_def)
  have "rx_handle L m rx ring lv win fr n ts now1 now2 = Some
      (rx1\<lparr>rx_counter_gaps := g, rx_frames_ok := rx_frames_ok rx1 + 1\<rparr>, ring',
       lv1\<lparr>rl_last_counter := frame_counter fr, rl_have_counter := True\<rparr>, win1,
       if paced then Some (rl_wall_first_ns lv1 + (ts - rl_pcap_first_ts lv1) * 1000) else None)"
    using n assms(6) up f(1)
    unfolding rx_handle_def Let_def paced_def[symmetric] lv1_def[symmetric] lv1 c rxg by simp
  then show ?thesis using f(2,3) keep g_def by auto
qed

theorem rx_round_counts_and_feeds_witness:
  "\<exists>rx' ring' lv' win' t. rx_handle libreac_doc mode_48k rx_start ring16
      \<lparr>rl_last_counter = 2, rl_have_counter = True, rl_pcap_first_ts = 0, rl_wall_first_ns = 0\<rparr>
      \<lparr>win_start_ns = 0, win_frames = 0, win_last_counter = 2, win_have_last = True\<rparr> sample_frame 1492 0 0 1000
      = Some (rx', ring', lv', win', t) \<and> rx_counter_gaps rx' = 2 \<and> rl_last_counter lv' = 5"
proof -
  let ?lv = "\<lparr>rl_last_counter = 2, rl_have_counter = True, rl_pcap_first_ts = 0, rl_wall_first_ns = 0\<rparr>"
  let ?win = "\<lparr>win_start_ns = 0, win_frames = 0, win_last_counter = 2, win_have_last = True\<rparr>"
  have u: "update_ppm libreac_doc rx_start ?win (frame_counter sample_frame) 1000
      = Some (rx_start, \<lparr>win_start_ns = 0, win_frames = 3, win_last_counter = 5, win_have_last = True\<rparr>)"
    by (simp add: update_ppm_def libreac_doc_def[THEN arg_cong, of reac_counter_gap])
  have "reac_frame_is_reac libreac_doc (take (nat 1492) sample_frame)"
    by (simp add: libreac_doc_def sample_frame_def nth_append)
  from rx_round_counts_and_feeds[of libreac_doc mode_48k 1492 sample_frame ring16 rx_start ?win 1000 rx_start,
      OF _ _ _ _ _ this _ _ _ u, of ?lv 0 0]
  show ?thesis by (auto simp: wire_mode_def rx_start_def libreac_doc_def[THEN arg_cong, of reac_counter_gap])
qed

subsection \<open>Opening\<close>

lemma ring_of_rate:
  assumes "\<And>n. calloc n" and x: "0 < x" "x < 2 ^ 31"
  shows "\<exists>r'. reac_ring_init calloc ring 40 (word_of_int (x sdiv 4)) = (0, r') \<and> ring_ok r' \<and> queue_of r' = [] \<and>
    chans_of r' = 40 \<and> x div 4 \<le> int (cap_of r')"
proof -
  define d :: u32 where "d = word_of_int (x sdiv 4)"
  have "x sdiv 4 = x div 4" using x by (simp add: signed_divide_int_def sgn_if)
  then have d: "int (unat d) = x div 4" "unat d \<le> 2 ^ 31"
    using x by (auto simp: d_def unsigned_of_int take_bit_int_eq_self nat_le_iff)
  obtain r' where "reac_ring_init calloc ring 40 d = (0, r')" "ring_ok r'" "queue_of r' = []" "rg_channels r' = 40"
      "rg_capacity r' = next_pow2 d"
    using ring_init_ok[OF d(2), of calloc 40 ring] assms(1) by auto
  moreover have "unat d \<le> unat (next_pow2 d)" using next_pow2_cases[of d] d(2) by auto
  then have "int (unat d) \<le> int (unat (next_pow2 d))" by (simp only: of_nat_le_iff)
  ultimately show ?thesis unfolding d_def[symmetric] using d(1) by auto
qed

text \<open>A receiver that could be opened at a rate of REAC.\<close>

lemma rx_opened:
  assumes "documented_geometry L" and keeps: "control_keeps K obs" and mem: "\<And>n. calloc n"
    and run: "reac_rx_open K detect calloc L cfg ring w = (0, rx, ring', w')" and rate: "reac_rate (rx_sample_rate rx)"
  shows "ring_ok ring' \<and> queue_of ring' = [] \<and> chans_of ring' = 40 \<and> 12 < cap_of ring' \<and> rx_cfg rx = cfg \<and> obs w' = obs w"
proof -
  let ?r = "rx_sample_rate rx"
  have r: "0 < ?r" "?r < 2 ^ 31" "12 < ?r div 4" using rate by (auto simp: reac_rate_def)
  obtain c rc w1 where o: "reac_capture_open K (rc_source cfg) w = (rc, c, w1)" by (metis prod.collapse)
  have w: "obs w1 = obs w" "obs (snd (reac_capture_close K c w1)) = obs w"
    using capture_control(1)[OF keeps o] capture_control(3)[OF keeps] by simp_all
  have "reac_ring_init calloc ring 40 (word_of_int (?r sdiv 4)) = (0, ring') \<and> rx_cfg rx = cfg \<and> obs w' = obs w"
    using run o w unfolding reac_rx_open_def by (auto simp: geometry_simps[OF assms(1)] case_prod_unfold Let_def prod_eq_iff split: if_splits)
  moreover from this obtain "ring_ok ring'" "queue_of ring' = []" "chans_of ring' = 40" "?r div 4 \<le> int (cap_of ring')"
    using ring_of_rate[where calloc = calloc and ring = ring, OF mem r(1,2)] by auto
  moreover from this(4) r(3) have "12 < cap_of ring'" by linarith
  ultimately show ?thesis by blast
qed

text \<open>
  Opening the receiver at a positive rate allocates an empty ring of forty channels that
  holds at least a quarter of a second, and leaks no descriptor whichever way it ends.  With memory
  available it fails only when the rate has to be measured and the interface cannot be opened.
\<close>

lemma rx_open_sizes_ring:
  assumes "documented_geometry L" and "documented_fds K fds" and "\<And>n. calloc n"
    and "rc_forced_rate cfg = 0 \<or> 0 < rc_forced_rate cfg \<and> rc_forced_rate cfg < 2 ^ 31" and "\<And>fd. detect fd < 2 ^ 31"
    and "reac_rx_open K detect calloc L cfg ring w = (rc, rx, ring', w')"
  shows "fds w' = fds w \<and>
    (if rc = 0 then ring_ok ring' \<and> queue_of ring' = [] \<and> chans_of ring' = 40 \<and> 0 < rx_sample_rate rx \<and>
       rx_sample_rate rx div 4 \<le> int (cap_of ring') \<and>
       (rc_forced_rate cfg \<noteq> 0 \<longrightarrow> rx_sample_rate rx = rc_forced_rate cfg)
     else rc = - 1 \<and> rc_kind cfg = REAC_RX_LIVE \<and> rc_forced_rate cfg = 0)"
proof -
  obtain ro c w1 where o: "reac_capture_open K (rc_source cfg) w = (ro, c, w1)" by (metis prod_cases3)
  obtain c' w2 where cl: "reac_capture_close K c w1 = (c', w2)" by fastforce
  note F = capture_fds[OF assms(2) o cl]
  note init = ring_of_rate[where calloc = calloc and ring = ring, OF assms(3)]
  consider "rc_forced_rate cfg \<noteq> 0" | "rc_forced_rate cfg = 0" "rc_kind cfg = REAC_RX_PCAP"
    | "rc_forced_rate cfg = 0" "rc_kind cfg = REAC_RX_LIVE" "ro = 0"
    | "rc_forced_rate cfg = 0" "rc_kind cfg = REAC_RX_LIVE" "ro \<noteq> 0"
    by (cases "rc_kind cfg") auto
  then show ?thesis
  proof cases
    case 1
    then show ?thesis
      using assms(4,6) init[of "rc_forced_rate cfg"] by (auto simp: reac_rx_open_def geometry_simps[OF assms(1)])
  next
    case 2
    then show ?thesis
      using assms(6) init[of 48000] by (auto simp: reac_rx_open_def geometry_simps[OF assms(1)])
  next
    case 3
    let ?r = "if detect (cap_fd c) > 0 then detect (cap_fd c) else 48000"
    have r: "0 < ?r" "?r < 2 ^ 31" using assms(5)[of "cap_fd c"] by auto
    from init[OF this] show ?thesis
      using 3 assms(6) o cl F r(1)
      by (auto simp: reac_rx_open_def geometry_simps[OF assms(1)] Let_def split del: if_split)
  next
    case 4
    then show ?thesis using assms(6) o F by (auto simp: reac_rx_open_def)
  qed
qed

end
