(* ===== verification/Reac_Tx.thy ===== *)
theory Reac_Tx
  imports C_Float Reac_Decode Os
begin

text \<open>
  The REAC frame encoder and raw-socket emitter of \<open>pipewire/src/reac_tx.c\<close>, the inverse of the decoder.
  A \<open>float *const *\<close> argument is a list of optional planes, \<open>None\<close> being a null pointer.
\<close>

record reac_tx =
  tx_fd :: int
  tx_ifindex :: int
  tx_src :: "byte list"
  tx_counter :: u16

definition reac_tx_build ::
  "libreac \<Rightarrow> byte list \<Rightarrow> f32 list option list \<Rightarrow> int \<Rightarrow> int \<Rightarrow> u16 \<Rightarrow> byte list \<Rightarrow>
   (int \<times> byte list) option" where
  "reac_tx_build L out planes nch ns counter src = do {
     out \<leftarrow> memset out 0 0 (REAC_FRAME_BYTES L);
     out \<leftarrow> memset out 0 0xFF 6;
     out \<leftarrow> memcpy out 6 src 0 6;
     out \<leftarrow> wr out 12 (ucast (drop_bit 8 (REAC_ETHERTYPE L) AND 0xFF));
     out \<leftarrow> wr out 13 (ucast (REAC_ETHERTYPE L AND 0xFF));
     out \<leftarrow> wr out (REAC_HDR_COUNTER_OFF L) (ucast (counter AND 0xFF));
     out \<leftarrow> wr out (REAC_HDR_COUNTER_OFF L + 1) (ucast (drop_bit 8 counter AND 0xFF));
     let audio = REAC_AUDIO_OFFSET L;
     let N = REAC_MAX_CHANNELS L;
     let frames = (if ns < int (REAC_SAMPLES_PER_PKT L) then ns else int (REAC_SAMPLES_PER_PKT L));
     out \<leftarrow> forn (nat frames) (\<lambda>s. forn N (\<lambda>ch out. do {
         v \<leftarrow> (if int ch < nch then do {
              p \<leftarrow> rd planes ch;
              case p of None \<Rightarrow> Some 0 | Some xs \<Rightarrow> rd xs s
            } else Some 0);
         f32_to_s24le v out (audio + (s * N + ch) * REAC_RESOLUTION L)
       })) out;
     out \<leftarrow> wr out (REAC_FRAME_BYTES L - 2) (REAC_END_MARKER_0 L);
     out \<leftarrow> wr out (REAC_FRAME_BYTES L - 1) (REAC_END_MARKER_1 L);
     Some (int (REAC_FRAME_BYTES L), out)
   }"

definition reac_tx_open :: "'w os \<Rightarrow> libreac \<Rightarrow> string \<Rightarrow> 'w \<Rightarrow> int \<times> reac_tx \<times> 'w" where
  "reac_tx_open K L ifname w =
     (let tx = \<lparr>tx_fd = - 1, tx_ifindex = 0, tx_src = [0x00, 0x40, 0xab, 0xc4, 0x80, 0xf6], tx_counter = 0\<rparr>;
          (fd, w) = os_socket K (PacketRaw (REAC_ETHERTYPE L)) w in
      if fd < 0 then (- 1, tx, w)
      else case os_ifindex K fd (ifr_name ifname) w of
             (None, w) \<Rightarrow> (- 1, tx, os_close K fd w)
           | (Some i, w) \<Rightarrow> (0, tx\<lparr>tx_ifindex := i, tx_fd := fd\<rparr>, w))"

definition reac_tx_close :: "'w os \<Rightarrow> reac_tx \<Rightarrow> 'w \<Rightarrow> reac_tx \<times> 'w" where
  "reac_tx_close K tx w =
     (tx\<lparr>tx_fd := - 1\<rparr>, if tx_fd tx \<ge> 0 then os_close K (tx_fd tx) w else w)"

definition reac_tx_emit ::
  "'w os \<Rightarrow> libreac \<Rightarrow> reac_tx \<Rightarrow> f32 list option list \<Rightarrow> int \<Rightarrow> int \<Rightarrow> 'w \<Rightarrow> (int \<times> reac_tx \<times> 'w) option" where
  "reac_tx_emit K L tx planes nch ns w = do {
     (_, frame) \<leftarrow> reac_tx_build L (replicate (REAC_FRAME_BYTES L) 0) planes nch ns (tx_counter tx) (tx_src tx);
     let sll = \<lparr>sll_protocol = 0, sll_ifindex = tx_ifindex tx, sll_halen = 6, sll_addr = replicate 6 0xFF\<rparr>;
     let (r, w) = os_sendto K (tx_fd tx) frame (SockaddrLl sll) w;
     Some (r, tx\<lparr>tx_counter := tx_counter tx + 1\<rparr>, w)
   }"

subsection \<open>The built frame\<close>

text \<open>The sample of channel \<open>ch\<close> at time \<open>s\<close>, silent beyond the given channels and for a null plane.\<close>

definition plane_sample :: "f32 list option list \<Rightarrow> int \<Rightarrow> nat \<Rightarrow> nat \<Rightarrow> f32" where
  "plane_sample planes nch ch s =
     (if int ch < nch then case planes ! ch of None \<Rightarrow> 0 | Some xs \<Rightarrow> xs ! s else 0)"

text \<open>Every plane that is read is there, holds the samples read, and holds no NaN.\<close>

definition planes_ok :: "f32 list option list \<Rightarrow> int \<Rightarrow> nat \<Rightarrow> bool" where
  "planes_ok planes nch n \<longleftrightarrow> (\<forall>ch < 40. int ch < nch \<longrightarrow> ch < length planes \<and>
     (case planes ! ch of None \<Rightarrow> True | Some xs \<Rightarrow> n \<le> length xs \<and> (\<forall>s < n. finite_sample (xs ! s))))"

definition tx_header :: "u16 \<Rightarrow> byte list \<Rightarrow> byte list" where
  "tx_header counter src = replicate 6 0xFF @ src @
     [0x88, 0x19, ucast (counter AND 0xFF), ucast (drop_bit 8 counter AND 0xFF)]"

definition tx_frame :: "nat \<Rightarrow> (nat \<Rightarrow> nat \<Rightarrow> f32) \<Rightarrow> u16 \<Rightarrow> byte list \<Rightarrow> byte list" where
  "tx_frame n g counter src = tx_header counter src @ replicate 34 0 @
     interleaved 40 n (\<lambda>ch s. enc24 (quant (g ch s))) @ replicate (1440 - n * 120) 0 @ [0xC2, 0xEA]"

lemma length_audio [simp]: "length (interleaved 40 n (\<lambda>ch s. enc24 (h ch s))) = n * 120"
  by (subst length_interleaved) simp_all

lemma length_tx_header [simp]: "length src = 6 \<Longrightarrow> length (tx_header counter src) = 16"
  by (simp add: tx_header_def)

lemma length_tx_frame [simp]: "length src = 6 \<Longrightarrow> n \<le> 12 \<Longrightarrow> length (tx_frame n g counter src) = 1492"
  by (simp add: tx_frame_def tx_header_def)

lemma finite_zero [simp]: "finite_sample 0"
  by (simp add: finite_sample_def zero_f32_def)

lemma audio_loop:
  assumes "planes_ok planes nch n" and "50 + n * 120 \<le> length out"
  shows "forn n (\<lambda>s. forn 40 (\<lambda>ch out. do {
         v \<leftarrow> (if int ch < nch then do {
              p \<leftarrow> rd planes ch;
              case p of None \<Rightarrow> Some 0 | Some xs \<Rightarrow> rd xs s
            } else Some 0);
         f32_to_s24le v out (50 + (s * 40 + ch) * 3)
       })) out
    = Some (blit out 50 (interleaved 40 n (\<lambda>ch s. enc24 (quant (plane_sample planes nch ch s)))))"
  unfolding interleaved_def planar_def
proof (rule forn_blit[where k = "40 * 3"])
  fix s and t :: "byte list" assume s: "s < n" and t: "length t = length out"
  have fit: "50 + s * 120 + 120 \<le> length t" using s t assms(2) by simp
  show "forn 40 (\<lambda>ch out. do {
         v \<leftarrow> (if int ch < nch then do {
              p \<leftarrow> rd planes ch;
              case p of None \<Rightarrow> Some 0 | Some xs \<Rightarrow> rd xs s
            } else Some 0);
         f32_to_s24le v out (50 + (s * 40 + ch) * 3)
       }) t = Some (blit t (50 + s * (40 * 3))
         (concat (map (\<lambda>ch. enc24 (quant (plane_sample planes nch ch s))) [0..<40])))"
  proof (rule forn_blit[where k = 3])
    fix ch and u :: "byte list" assume ch: "ch < (40::nat)" and u: "length u = length t"
    have v: "(if int ch < nch then rd planes ch \<bind> (\<lambda>p. case p of None \<Rightarrow> Some 0 | Some xs \<Rightarrow> rd xs s) else Some 0)
        = Some (plane_sample planes nch ch s) \<and> finite_sample (plane_sample planes nch ch s)"
      using assms(1) ch s by (auto simp: planes_ok_def plane_sample_def split: option.splits)
    have "50 + (s * 40 + ch) * 3 + 3 \<le> length u" using ch u fit by simp
    with v show "(if int ch < nch then rd planes ch \<bind> (\<lambda>p. case p of None \<Rightarrow> Some 0 | Some xs \<Rightarrow> rd xs s) else Some 0)
        \<bind> (\<lambda>v. f32_to_s24le v u (50 + (s * 40 + ch) * 3))
      = Some (blit u (50 + s * (40 * 3) + ch * 3) (enc24 (quant (plane_sample planes nch ch s))))"
      by (simp add: f32_to_s24le_eq algebra_simps)
  qed (use fit in auto)
qed (use assms in \<open>auto simp: length_concat_const\<close>)

lemma blit_zeros:
  assumes "off + length ys \<le> n"
  shows "blit (replicate n z @ rest) off ys
    = replicate off z @ ys @ replicate (n - off - length ys) z @ rest"
  using assms by (simp add: blit_def)

text \<open>The whole of \<open>reac_tx_build\<close> in one equation.\<close>

lemma tx_build_eq:
  assumes geo: "documented_geometry L" and out: "1492 \<le> length out" and src: "length src = 6"
    and ok: "planes_ok planes nch n" and n: "n = nat (min ns 12)"
  shows "reac_tx_build L out planes nch ns counter src
    = Some (1492, tx_frame n (plane_sample planes nch) counter src @ drop 1492 out)"
proof -
  let ?a = "interleaved 40 n (\<lambda>ch s. enc24 (quant (plane_sample planes nch ch s)))"
  let ?z = "replicate 1492 0 @ drop 1492 out"
  have n12: "n \<le> 12" using n by simp
  have z: "memset out 0 0 1492 = Some ?z" using out by (simp add: memset_def blit_prefix)
  have "\<forall>hdr. length hdr = 16 \<longrightarrow>
      blit (blit ?z 0 hdr) 50 ?a = hdr @ replicate 34 0 @ ?a @ replicate (1442 - n * 120) 0 @ drop 1492 out"
    using n12 out by (simp add: blit_def)
  moreover have "blit (blit (blit (blit (blit (blit ?z 0 (replicate 6 0xFF)) 6 src) 12 [0x88]) 13 [0x19])
      14 [c0]) 15 [c1] = blit ?z 0 (replicate 6 0xFF @ src @ [0x88, 0x19, c0, c1])" for c0 c1
    using src by (simp add: blit_def)
  ultimately have hd: "blit (blit (blit (blit (blit (blit (blit ?z 0 (replicate 6 0xFF)) 6 src) 12 [0x88]) 13 [0x19])
      14 [ucast (counter AND 0xFF)]) 15 [ucast (drop_bit 8 counter AND 0xFF)]) 50 ?a
    = tx_header counter src @ replicate 34 0 @ ?a @ replicate (1442 - n * 120) 0 @ drop 1492 out"
    using src by (simp add: tx_header_def)
  have len: "length (blit (blit (blit (blit (blit (blit ?z 0 (replicate 6 0xFF)) 6 src) 12 [0x88]) 13 [0x19])
      14 [c0]) 15 [c1]) = length out" for c0 c1
    using src out by (simp add: blit_def)
  let ?h = "tx_header counter src @ replicate 34 0 @ ?a"
  have "1442 - n * 120 = 1440 - n * 120 + 2" using n12 by simp
  then have "replicate (1442 - n * 120) (0::byte) = replicate (1440 - n * 120) 0 @ [0, 0]"
    by (simp only: replicate_add) (simp add: numeral_2_eq_2)
  then have tl: "blit (blit (?h @ replicate (1442 - n * 120) 0 @ drop 1492 out) 1490 [0xC2]) 1491 [0xEA]
      = tx_frame n (plane_sample planes nch) counter src @ drop 1492 out"
    using n12 src by (simp add: blit_def tx_frame_def tx_header_def)
  have cs: "chunk src 0 6 = src" using src by (simp add: chunk_def)
  have fr: "nat (if ns < 12 then ns else int (REAC_SAMPLES_PER_PKT L)) = n"
    using n by (simp add: geometry_simps[OF geo])
  show ?thesis
    using z out src len hd tl cs audio_loop[OF ok] n12
    by (simp add: reac_tx_build_def geometry_simps[OF geo] memset_def memcpy_def wr_blit fr
        split del: if_split)
qed


lemma tx_frame_header:
  assumes "length src = 6"
  shows "take 6 (tx_frame n g counter src) = replicate 6 0xFF" "chunk (tx_frame n g counter src) 6 6 = src"
    "frame_counter (tx_frame n g counter src @ rest) = counter"
proof -
  show "take 6 (tx_frame n g counter src) = replicate 6 0xFF" "chunk (tx_frame n g counter src) 6 6 = src"
    using assms by (simp_all add: tx_frame_def tx_header_def chunk_def)
  have b: "ucast (drop_bit 8 counter AND 0xFF) = (ucast (drop_bit 8 counter) :: byte)"
    unfolding word_unat_eq_iff byte_of_word by (simp add: drop_bit_eq_div unat_div)
  have "unat (frame_counter (tx_frame n g counter src @ rest)) = unat counter mod 256 + 256 * (unat counter div 256 mod 256)"
    using assms by (simp add: frame_counter_value tx_frame_def tx_header_def nth_append byte_of_word b)
  then show "frame_counter (tx_frame n g counter src @ rest) = counter"
    using unat_bound(2)[of counter] by (intro word_unat_eq_iff[THEN iffD2]) simp
qed

lemma tx_frame_well_formed:
  "length src = 6 \<Longrightarrow> n \<le> 12 \<Longrightarrow> well_formed (tx_frame n g counter src @ rest) 1492"
  by (auto simp: well_formed_def tx_frame_def tx_header_def nth_append)

lemma tx_frame_sample:
  assumes src: "length src = 6" and n: "n \<le> 12" and m: "nch_of m = 40" and ch: "ch < 40" and s: "s < 12"
  shows "wire_sample m (tx_frame n g counter src @ rest) ch s
    = (if s < n then enc24 (quant (g ch s)) else [0, 0, 0])"
proof -
  let ?a = "interleaved 40 n (\<lambda>ch s. enc24 (quant (g ch s)))"
  let ?z = "replicate (1440 - n * 120) (0::byte)"
  let ?k = "(s * 40 + ch) * 3"
  have "wire_sample m (tx_frame n g counter src @ rest) ch s = chunk (?a @ ?z @ [0xC2, 0xEA] @ rest) ?k 3"
    using src m chunk_append2[of "tx_header counter src @ replicate 34 0" "50 + ?k" "?a @ ?z @ [0xC2, 0xEA] @ rest" 3]
    by (simp add: wire_sample_def tx_frame_def)
  also have "\<dots> = chunk (?a @ ?z) ?k 3"
    using n ch s by (subst append_assoc[symmetric], intro chunk_append1) simp
  also have "\<dots> = (if s < n then enc24 (quant (g ch s)) else [0, 0, 0])"
  proof (cases "s < n")
    case True
    then have "chunk (?a @ ?z) ?k 3 = sample_at 40 ?a s ch"
      unfolding sample_at_def using ch by (intro chunk_append1) simp
    also have "\<dots> = enc24 (quant (g ch s))" using True ch by (intro sample_at_interleaved) simp_all
    finally show ?thesis using True by simp
  next
    case False
    then have "chunk (?a @ ?z) ?k 3 = chunk ?z (?k - n * 120) 3"
      using chunk_append2[of ?a ?k ?z 3] by simp
    also have "\<dots> = replicate 3 0" using False n ch s by (simp add: chunk_def min_def)
    also have "replicate 3 (0::byte) = [0, 0, 0]" by (simp add: numeral_3_eq_3)
    finally show ?thesis using False by simp
  qed
  finally show ?thesis .
qed

text \<open>
  C21.  The encoder builds a frame the decoder accepts.  Given planes that hold what is read, the call
  is defined and fills the first 1492 bytes of the buffer and no others; the frame is
  well-formed, broadcast, from the given source address, and carries the given
  counter; and every channel and time step carries the 24-bit value of its float sample: silence for channels beyond
  those given, for null planes, and beyond the given number of samples.
\<close>

theorem tx_build_correct:
  assumes "documented_geometry L" and "1492 \<le> length out" and "length src = 6"
    and "planes_ok planes nch (nat (min ns 12))"
  shows "\<exists>fr. reac_tx_build L out planes nch ns counter src = Some (1492, fr @ drop 1492 out) \<and>
    length fr = 1492 \<and> well_formed fr 1492 \<and> frame_counter fr = counter \<and>
    take 6 fr = replicate 6 0xFF \<and> chunk fr 6 6 = src \<and>
    (\<forall>ch < 40. \<forall>s < 12. wire_sample mode_48k fr ch s =
       (if int s < ns then enc24 (quant (plane_sample planes nch ch s)) else [0, 0, 0]))"
proof -
  let ?n = "nat (min ns 12)"
  let ?f = "tx_frame ?n (plane_sample planes nch) counter src"
  have n: "?n \<le> 12" "\<And>s. s < 12 \<Longrightarrow> s < ?n \<longleftrightarrow> int s < ns" by auto
  have "\<forall>ch < 40. \<forall>s < 12. wire_sample mode_48k ?f ch s =
       (if int s < ns then enc24 (quant (plane_sample planes nch ch s)) else [0, 0, 0])"
    using tx_frame_sample[OF assms(3) n(1), where m = mode_48k and rest = "[]"] n(2) by simp
  then show ?thesis
    using tx_build_eq[OF assms(1-4) refl, of counter] tx_frame_header[OF assms(3), of ?n]
      tx_frame_header(3)[OF assms(3), where rest = "[]"]
      tx_frame_well_formed[OF assms(3) n(1), where rest = "[]"] n(1) assms(3) by auto
qed

theorem tx_build_correct_witness:
  "\<exists>fr. reac_tx_build libreac_doc (replicate 1492 7) [Some (replicate 12 (Fin (1 / 2)))] 1 12 0x1234
       [0, 0x40, 0xab, 0, 0, 1] = Some (1492, fr) \<and> frame_counter fr = 0x1234 \<and>
     wire_sample mode_48k fr 0 0 = [0, 0, 0x40] \<and> wire_sample mode_48k fr 1 0 = [0, 0, 0]"
proof -
  have q: "quant (Fin (1 / 2)) = 4194304" "quant 0 = 0"
    using lrintf_of_int[of 4194304] lrintf_of_int[of 0]
    by (simp_all add: quant_def f32_quant_def Let_def zero_f32_def)
  have "planes_ok [Some (replicate 12 (Fin (1 / 2)))] 1 12"
    by (simp add: planes_ok_def finite_sample_def)
  then show ?thesis
    using tx_build_correct[where L = libreac_doc and out = "replicate 1492 7" and nch = 1 and ns = 12
        and src = "[0, 0x40, 0xab, 0, 0, 1]" and planes = "[Some (replicate 12 (Fin (1 / 2)))]"
        and counter = "0x1234"]
    by (auto simp: plane_sample_def q enc24_def)
qed

subsection \<open>The emitter\<close>

abbreviation broadcast_ll :: "int \<Rightarrow> sockaddr" where
  "broadcast_ll i \<equiv> SockaddrLl \<lparr>sll_protocol = 0, sll_ifindex = i, sll_halen = 6, sll_addr = replicate 6 0xFF\<rparr>"

lemma tx_emit_eq:
  assumes "documented_geometry L" and "length (tx_src tx) = 6" and "planes_ok planes nch n"
    and "n = nat (min ns 12)"
    and "os_sendto K (tx_fd tx) (tx_frame n (plane_sample planes nch) (tx_counter tx) (tx_src tx))
           (broadcast_ll (tx_ifindex tx)) w = (r, w')"
  shows "reac_tx_emit K L tx planes nch ns w = Some (r, tx\<lparr>tx_counter := tx_counter tx + 1\<rparr>, w')"
  using tx_build_eq[OF assms(1) _ assms(2,3,4), of "replicate 1492 0"] assms(5)
  by (simp add: reac_tx_emit_def geometry_simps[OF assms(1)])

lemma tx_open_fds:
  assumes "documented_fds K fds" and "reac_tx_open K L ifname w = (rc, tx, w1)"
    and "reac_tx_close K tx w1 = (tx', w2)"
  shows "(if rc = 0 then 0 \<le> tx_fd tx \<and> tx_fd tx \<notin> fds w \<and> fds w1 = insert (tx_fd tx) (fds w)
          else rc = - 1 \<and> tx_fd tx = - 1 \<and> fds w1 = fds w) \<and>
    fds w2 = fds w \<and> reac_tx_close K tx' w2 = (tx', w2)"
proof -
  note F = documented_fdsD[OF assms(1)]
  obtain fd w0 where s: "os_socket K (PacketRaw (REAC_ETHERTYPE L)) w = (fd, w0)" by fastforce
  obtain i w0' where i: "os_ifindex K fd (ifr_name ifname) w0 = (i, w0')" by fastforce
  show ?thesis
  proof (cases "fd < 0")
    case True
    then have "rc = - 1" "tx_fd tx = - 1" "w1 = w0" using assms(2) s by (auto simp: reac_tx_open_def)
    then show ?thesis using True assms(3) F(1)[OF s] by (auto simp: reac_tx_close_def)
  next
    case False
    then have fd: "fd \<notin> fds w" "fds w0' = insert fd (fds w)" using F(2)[OF s] F(4)[OF i] by auto
    show ?thesis
    proof (cases i)
      case None
      then have "rc = - 1" "tx_fd tx = - 1" "w1 = os_close K fd w0'"
        using False assms(2) s i by (auto simp: reac_tx_open_def)
      then show ?thesis using assms(3) fd F(3) by (auto simp: reac_tx_close_def)
    next
      case (Some j)
      then have "rc = 0" "tx_fd tx = fd" "w1 = w0'" using False assms(2) s i by (auto simp: reac_tx_open_def)
      then show ?thesis using False assms(3) fd F(3) by (auto simp: reac_tx_close_def)
    qed
  qed
qed

text \<open>
  Opening the transmit socket leaks no descriptor: a failed open leaves the open descriptors as they
  were, a successful one adds exactly the descriptor in the structure, and closing gives it back and
  marks the structure closed, so that a second close does nothing.
\<close>

theorem tx_open_close_fds:
  assumes "documented_fds K fds" and "reac_tx_open K L ifname w = (rc, tx, w1)"
    and "reac_tx_close K tx w1 = (tx', w2)"
  shows "(if rc = 0 then 0 \<le> tx_fd tx \<and> tx_fd tx \<notin> fds w \<and> fds w1 = insert (tx_fd tx) (fds w)
          else rc = - 1 \<and> tx_fd tx = - 1 \<and> fds w1 = fds w) \<and>
    fds w2 = fds w \<and> reac_tx_close K tx' w2 = (tx', w2)"
  by (rule tx_open_fds[OF assms])

theorem tx_open_close_fds_witness:
  "\<exists>tx w1. reac_tx_open log_os libreac_doc ''reac0'' log_start = (0, tx, w1) \<and> tx_fd tx = 3 \<and>
     lw_fds (snd (reac_tx_close log_os tx w1)) = {}"
proof -
  obtain tx w1 where o: "reac_tx_open log_os libreac_doc ''reac0'' log_start = (0, tx, w1)" "tx_fd tx = 3"
    by (simp add: reac_tx_open_def log_start_def ifr_name_def IFNAMSIZ_def)
  moreover obtain tx' w2 where c: "reac_tx_close log_os tx w1 = (tx', w2)" by fastforce
  ultimately show ?thesis
    using tx_open_close_fds[OF log_os_documented(1) o(1) c] by (simp add: log_start_def)
qed

end
