(* ===== verification/Pw_Sink.thy ===== *)
theory Pw_Sink
  imports Reac_Tx
begin

text \<open>
  The playback node of the PipeWire bridge, \<open>pipewire/src/reac_sink_node.c\<close>: its realtime callback collects the
  samples of each quantum in a stage of twelve samples per channel and emits a REAC frame whenever the stage
  is full.  PipeWire is not part of the repository: the buffers \<open>pw_filter_get_dsp_buffer\<close> hands out are an argument, \<open>None\<close>
  for an unlinked port, and so are the outcomes of the calls that create and connect the filter.
\<close>

record reac_sink_cfg =
  sc_ifname :: string
  sc_channels :: int
  sc_sample_rate :: int
  sc_src_mac :: "byte list option"

record reac_sink_node =
  sn_tx :: reac_tx
  sn_tx_open :: bool
  sn_channels :: int
  sn_sample_rate :: int
  sn_stage :: "f32 list list"
  sn_staged :: nat

text \<open>One iteration of the sample loop: stage sample \<open>s\<close> of every channel, emit when the stage is full.\<close>

definition sink_sample ::
  "'w os \<Rightarrow> libreac \<Rightarrow> f32 list option list \<Rightarrow> nat \<Rightarrow> reac_sink_node \<times> 'w \<Rightarrow> (reac_sink_node \<times> 'w) option" where
  "sink_sample K L ins s = (\<lambda>(n, w). do {
     stage \<leftarrow> forn (nat (sn_channels n)) (\<lambda>c stage. do {
         b \<leftarrow> rd ins c;
         v \<leftarrow> (case b of None \<Rightarrow> Some 0 | Some xs \<Rightarrow> rd xs s);
         row \<leftarrow> rd stage c;
         row \<leftarrow> wr row (sn_staged n) v;
         wr stage c row
       }) (sn_stage n);
     let n = n\<lparr>sn_stage := stage, sn_staged := sn_staged n + 1\<rparr>;
     if sn_staged n = REAC_SAMPLES_PER_PKT L then do {
       let planes = map Some (take (nat (sn_channels n)) (sn_stage n));
       (_, tx, w) \<leftarrow> reac_tx_emit K L (sn_tx n) planes (sn_channels n) (int (REAC_SAMPLES_PER_PKT L)) w;
       Some (n\<lparr>sn_tx := tx, sn_staged := 0\<rparr>, w)
     }
     else Some (n, w)
   })"

definition sink_on_process ::
  "'w os \<Rightarrow> libreac \<Rightarrow> reac_sink_node \<Rightarrow> f32 list option list \<Rightarrow> u32 \<Rightarrow> 'w \<Rightarrow> (reac_sink_node \<times> 'w) option" where
  "sink_on_process K L n ins nframes w =
     (if \<not> sn_tx_open n then Some (n, w)
      else do {
        linked \<leftarrow> forn (nat (sn_channels n)) (\<lambda>c k. do {
            b \<leftarrow> rd ins c;
            Some (if b = None then k else k + 1)
          }) (0 :: nat);
        if linked = 0 then Some (n, w)
        else forn (unat nframes) (sink_sample K L ins) (n, w)
      })"

text \<open>
  \<open>alloc_ok\<close>, \<open>filter_ok\<close> and \<open>connect_ok\<close> tell whether \<open>calloc\<close>, \<open>pw_filter_new_simple\<close> and \<open>pw_filter_connect\<close>
  succeed; \<open>None\<close> is the null pointer.
\<close>

definition reac_sink_node_new ::
  "'w os \<Rightarrow> libreac \<Rightarrow> bool \<Rightarrow> bool \<Rightarrow> bool \<Rightarrow> reac_sink_cfg \<Rightarrow> 'w \<Rightarrow> reac_sink_node option \<times> 'w" where
  "reac_sink_node_new K L alloc_ok filter_ok connect_ok cfg w =
     (if \<not> alloc_ok then (None, w)
      else
        let nch = (if sc_channels cfg > int (REAC_MAX_CHANNELS L) then int (REAC_MAX_CHANNELS L) else sc_channels cfg);
            (rc, tx, w) = reac_tx_open K L (sc_ifname cfg) w in
        if rc \<noteq> 0 then (None, w)
        else
          let tx = (case sc_src_mac cfg of None \<Rightarrow> tx | Some mac \<Rightarrow> tx\<lparr>tx_src := mac\<rparr>) in
          if \<not> filter_ok then (None, snd (reac_tx_close K tx w))
          else if \<not> connect_ok then (None, snd (reac_tx_close K tx w))
          else (Some \<lparr>sn_tx = tx, sn_tx_open = True, sn_channels = nch, sn_sample_rate = sc_sample_rate cfg,
                      sn_stage = replicate (REAC_MAX_CHANNELS L) (replicate (REAC_SAMPLES_PER_PKT L) 0),
                      sn_staged = 0\<rparr>, w))"

definition reac_sink_node_destroy :: "'w os \<Rightarrow> reac_sink_node option \<Rightarrow> 'w \<Rightarrow> 'w" where
  "reac_sink_node_destroy K n w = (case n of None \<Rightarrow> w
     | Some n \<Rightarrow> if sn_tx_open n then snd (reac_tx_close K (sn_tx n) w) else w)"

subsection \<open>Grouping by twelve\<close>

definition groups12 :: "'a list \<Rightarrow> 'a list list" where
  "groups12 xs = map (\<lambda>i. chunk xs (12 * i) 12) [0..<length xs div 12]"

definition rest12 :: "'a list \<Rightarrow> 'a list" where
  "rest12 xs = drop (12 * (length xs div 12)) xs"

lemma length_rest12 [simp]: "length (rest12 xs) = length xs mod 12"
  by (simp add: rest12_def minus_mult_div_eq_mod)

lemma rest12_short: "length xs < 12 \<Longrightarrow> groups12 xs = [] \<and> rest12 xs = xs"
  by (simp add: groups12_def rest12_def)

lemma groups12_snoc:
  "groups12 (xs @ [x]) = groups12 xs @ (if length xs mod 12 = 11 then [rest12 xs @ [x]] else [])"
  "rest12 (xs @ [x]) = (if length xs mod 12 = 11 then [] else rest12 xs @ [x])"
proof -
  let ?n = "length xs div 12"
  have cut: "chunk (xs @ [x]) (12 * i) 12 = chunk xs (12 * i) 12" if "i < ?n" for i
  proof (rule chunk_append1)
    have "12 * Suc i \<le> 12 * ?n" using that by (intro mult_le_mono2) simp
    also have "\<dots> \<le> length xs" by simp
    finally show "12 * i + 12 \<le> length xs" by simp
  qed
  have n: "Suc (length xs) div 12 = (if length xs mod 12 = 11 then Suc ?n else ?n)" by (simp add: div_Suc mod_Suc)
  have full: "length xs = 12 * ?n + 11" if "length xs mod 12 = 11"
    using that mult_div_mod_eq[of 12 "length xs"] by simp
  show "groups12 (xs @ [x]) = groups12 xs @ (if length xs mod 12 = 11 then [rest12 xs @ [x]] else [])"
  proof (cases "length xs mod 12 = 11")
    case True
    have "chunk (xs @ [x]) (12 * ?n) 12 = rest12 xs @ [x]"
      using full[OF True] by (simp add: rest12_def chunk_def)
    then show ?thesis using True cut n by (simp add: groups12_def)
  next
    case False
    then show ?thesis using cut n by (simp add: groups12_def)
  qed
  show "rest12 (xs @ [x]) = (if length xs mod 12 = 11 then [] else rest12 xs @ [x])"
    using n full by (auto simp: rest12_def)
qed

lemma groups12_rest: "concat (groups12 xs) @ rest12 xs = xs"
proof (induction xs rule: rev_induct)
  case Nil
  then show ?case by (simp add: groups12_def rest12_def)
next
  case (snoc x xs)
  then show ?case by (auto simp: groups12_snoc)
qed


text \<open>Grouping a stream piece by piece gives the same groups.\<close>

lemma groups12_append:
  "groups12 (xs @ ys) = groups12 xs @ groups12 (rest12 xs @ ys)"
  "rest12 (xs @ ys) = rest12 (rest12 xs @ ys)"
proof -
  have short: "length (rest12 xs) < 12" by simp
  have "groups12 (xs @ ys) = groups12 xs @ groups12 (rest12 xs @ ys) \<and> rest12 (xs @ ys) = rest12 (rest12 xs @ ys)"
  proof (induction ys rule: rev_induct)
    case Nil
    then show ?case using rest12_short[OF short] by simp
  next
    case (snoc y ys)
    have "(length xs mod 12 + length ys) mod 12 = (length xs + length ys) mod 12" by (simp add: mod_add_left_eq)
    then show ?case
      using snoc groups12_snoc[of "xs @ ys" y] groups12_snoc[of "rest12 xs @ ys" y] by auto
  qed
  then show "groups12 (xs @ ys) = groups12 xs @ groups12 (rest12 xs @ ys)" "rest12 (xs @ ys) = rest12 (rest12 xs @ ys)"
    by simp_all
qed

subsection \<open>The stage\<close>

definition sink_ok :: "reac_sink_node \<Rightarrow> bool" where
  "sink_ok n \<longleftrightarrow> 0 \<le> sn_channels n \<and> sn_channels n \<le> 40 \<and> length (sn_stage n) = 40 \<and>
     (\<forall>row \<in> set (sn_stage n). length row = 12) \<and> sn_staged n < 12 \<and> length (tx_src (sn_tx n)) = 6 \<and>
     (\<forall>c < nat (sn_channels n). \<forall>s < sn_staged n. finite_sample (sn_stage n ! c ! s))"

text \<open>The time steps waiting in the stage, and those a quantum brings.\<close>

definition pending :: "reac_sink_node \<Rightarrow> f32 list list" where
  "pending n = map (\<lambda>s. map (\<lambda>c. sn_stage n ! c ! s) [0..<nat (sn_channels n)]) [0..<sn_staged n]"

definition input_step :: "f32 list option list \<Rightarrow> nat \<Rightarrow> nat \<Rightarrow> f32 list" where
  "input_step ins chs s = map (\<lambda>c. case ins ! c of None \<Rightarrow> 0 | Some xs \<Rightarrow> xs ! s) [0..<chs]"

definition ins_ok :: "f32 list option list \<Rightarrow> nat \<Rightarrow> nat \<Rightarrow> bool" where
  "ins_ok ins chs n \<longleftrightarrow> chs \<le> length ins \<and>
     (\<forall>c < chs. case ins ! c of None \<Rightarrow> True | Some xs \<Rightarrow> n \<le> length xs \<and> (\<forall>s < n. finite_sample (xs ! s)))"

definition quantum_steps :: "f32 list option list \<Rightarrow> nat \<Rightarrow> nat \<Rightarrow> f32 list list" where
  "quantum_steps ins chs n =
     (if \<forall>c < chs. ins ! c = None then [] else map (input_step ins chs) [0..<n])"

text \<open>The frame of twelve time steps, and the frames of a list of such groups sent one after the other.\<close>

definition step_frame :: "nat \<Rightarrow> f32 list list \<Rightarrow> u16 \<Rightarrow> byte list \<Rightarrow> byte list" where
  "step_frame chs g counter src = tx_frame 12 (\<lambda>ch s. if ch < chs then g ! s ! ch else 0) counter src"

primrec send_groups :: "'w os \<Rightarrow> nat \<Rightarrow> reac_tx \<Rightarrow> f32 list list list \<Rightarrow> 'w \<Rightarrow> reac_tx \<times> 'w" where
  "send_groups K chs tx [] w = (tx, w)"
| "send_groups K chs tx (g # gs) w =
     send_groups K chs (tx\<lparr>tx_counter := tx_counter tx + 1\<rparr>) gs
       (snd (os_sendto K (tx_fd tx) (step_frame chs g (tx_counter tx) (tx_src tx)) (broadcast_ll (tx_ifindex tx)) w))"

lemma send_groups_append:
  "send_groups K chs tx (gs @ hs) w = (case send_groups K chs tx gs w of (tx, w) \<Rightarrow> send_groups K chs tx hs w)"
  by (induction gs arbitrary: tx w) auto

lemma send_groups_tx:
  "fst (send_groups K chs tx gs w) = tx\<lparr>tx_counter := tx_counter tx + of_nat (length gs)\<rparr>"
  by (induction gs arbitrary: tx w) (auto simp: algebra_simps)

lemma stage_loop:
  assumes "chs \<le> length stage" and "\<And>c. c < chs \<Longrightarrow> k < length (stage ! c)"
    and "ins_ok ins chs m" and "s < m"
  shows "\<exists>st. forn chs (\<lambda>c stage. do {
         b \<leftarrow> rd ins c;
         v \<leftarrow> (case b of None \<Rightarrow> Some 0 | Some xs \<Rightarrow> rd xs s);
         row \<leftarrow> rd stage c;
         row \<leftarrow> wr row k v;
         wr stage c row
       }) stage = Some st \<and> length st = length stage \<and>
    (\<forall>c < length stage. st ! c = (if c < chs then (stage ! c)[k := input_step ins chs s ! c] else stage ! c))"
proof (rule forn_rule[where P = "\<lambda>i st. length st = length stage \<and>
    (\<forall>c < length stage. st ! c = (if c < i then (stage ! c)[k := input_step ins chs s ! c] else stage ! c))"])
  fix i and t :: "f32 list list"
  assume i: "i < chs" and t: "length t = length stage \<and>
    (\<forall>c < length stage. t ! c = (if c < i then (stage ! c)[k := input_step ins chs s ! c] else stage ! c))"
  let ?v = "case ins ! i of None \<Rightarrow> 0 | Some xs \<Rightarrow> xs ! s"
  have "rd ins i = Some (ins ! i)" "(case ins ! i of None \<Rightarrow> Some 0 | Some xs \<Rightarrow> rd xs s) = Some ?v"
    using assms(3,4) i by (auto simp: ins_ok_def split: option.splits)
  moreover have "i < length stage" using i assms(1) by simp
  ultimately show "\<exists>t'. (rd ins i \<bind> (\<lambda>b. (case b of None \<Rightarrow> Some 0 | Some xs \<Rightarrow> rd xs s) \<bind>
        (\<lambda>v. rd t i \<bind> (\<lambda>row. wr row k v \<bind> wr t i)))) = Some t' \<and> length t' = length stage \<and>
      (\<forall>c < length stage. t' ! c = (if c < Suc i then (stage ! c)[k := input_step ins chs s ! c] else stage ! c))"
    using t i assms(2)[OF i] by (auto simp: wr_def input_step_def nth_list_update less_Suc_eq)
qed simp


lemma sink_sample_eq:
  assumes geo: "documented_geometry L" and ok: "sink_ok n" and ins: "ins_ok ins (nat (sn_channels n)) m" and s: "s < m"
  defines "chs \<equiv> nat (sn_channels n)"
  defines "p \<equiv> pending n @ [input_step ins chs s]"
  shows "\<exists>n' w'. sink_sample K L ins s (n, w) = Some (n', w') \<and> sink_ok n' \<and> sn_channels n' = sn_channels n \<and>
    sn_tx_open n' = sn_tx_open n \<and>
    (if length (pending n) = 11
     then pending n' = [] \<and> (sn_tx n', w') = send_groups K chs (sn_tx n) [p] w
     else pending n' = p \<and> sn_tx n' = sn_tx n \<and> w' = w)"
proof -
  let ?k = "sn_staged n" and ?x = "input_step ins chs s"
  have chs: "chs \<le> 40" "int chs = sn_channels n" using ok by (auto simp: sink_ok_def chs_def)
  have rows: "length (sn_stage n) = 40" "\<And>c. c < 40 \<Longrightarrow> length (sn_stage n ! c) = 12" and k: "?k < 12"
    using ok by (auto simp: sink_ok_def)
  obtain st where st: "forn chs (\<lambda>c stage. do {
         b \<leftarrow> rd ins c;
         v \<leftarrow> (case b of None \<Rightarrow> Some 0 | Some xs \<Rightarrow> rd xs s);
         row \<leftarrow> rd stage c;
         row \<leftarrow> wr row ?k v;
         wr stage c row
       }) (sn_stage n) = Some st" "length st = 40"
      "\<And>c. c < 40 \<Longrightarrow> st ! c = (if c < chs then (sn_stage n ! c)[?k := ?x ! c] else sn_stage n ! c)"
    using stage_loop[of chs "sn_stage n" ?k ins m s] rows chs k ins s by (auto simp: chs_def)
  have lx: "length ?x = chs" by (simp add: input_step_def)
  have fx: "finite_sample (?x ! c)" if "c < chs" for c
    using ins that s by (auto simp: ins_ok_def input_step_def chs_def split: option.splits)
  have old: "st ! c ! j = sn_stage n ! c ! j" and new: "st ! c ! ?k = ?x ! c" if "c < chs" "j < ?k" for c j
    using that st(3)[of c] rows(2)[of c] chs k by auto
  have new': "st ! c ! ?k = ?x ! c" if "c < chs" for c using that st(3)[of c] rows(2)[of c] chs k by auto
  have lens: "\<forall>row \<in> set st. length row = 12"
    using st(2,3) rows by (auto simp: in_set_conv_nth)
  have cols: "map (\<lambda>j. map (\<lambda>c. st ! c ! j) [0..<chs]) [0..<Suc ?k] = p"
    using old new' lx by (simp add: p_def pending_def chs_def) (auto intro!: nth_equalityI)
  have fin: "\<forall>c < chs. \<forall>j < Suc ?k. finite_sample (st ! c ! j)"
    using ok old new' fx by (auto simp: less_Suc_eq sink_ok_def chs_def)
  show ?thesis
  proof (cases "?k = 11")
    case False
    let ?n = "n\<lparr>sn_stage := st, sn_staged := ?k + 1\<rparr>"
    have "sink_sample K L ins s (n, w) = Some (?n, w)"
      using False st(1) by (simp add: sink_sample_def chs_def geometry_simps[OF geo])
    moreover have "sink_ok ?n" using ok st(2) lens fin k False by (auto simp: sink_ok_def chs_def)
    moreover have "pending ?n = p" using cols by (simp add: pending_def chs_def)
    ultimately show ?thesis using False by (simp add: pending_def)
  next
    case True
    let ?planes = "map Some (take chs st)" and ?tx = "sn_tx n"
    have pl: "planes_ok ?planes (sn_channels n) 12"
      using chs st(2) fin True lens[rule_format, OF nth_mem] by (auto simp: planes_ok_def)
    have smp: "tx_frame 12 (plane_sample ?planes (sn_channels n)) (tx_counter ?tx) (tx_src ?tx)
        = step_frame chs p (tx_counter ?tx) (tx_src ?tx)"
    proof -
      have "plane_sample ?planes (sn_channels n) ch j = (if ch < chs then p ! j ! ch else 0)"
        if "ch < 40" "j < 12" for ch j
      proof -
        have "p ! j ! ch = st ! ch ! j" if "ch < chs"
          unfolding cols[symmetric] using True that \<open>j < 12\<close> by simp
        then show ?thesis using chs(2) st(2) that(1) by (auto simp: plane_sample_def)
      qed
      then have "interleaved 40 12 (\<lambda>ch j. enc24 (quant (plane_sample ?planes (sn_channels n) ch j)))
          = interleaved 40 12 (\<lambda>ch j. enc24 (quant (if ch < chs then p ! j ! ch else 0)))"
        unfolding interleaved_def by (intro planar_cong) simp
      then show ?thesis by (simp add: tx_frame_def step_frame_def)
    qed
    obtain r w' where send: "os_sendto K (tx_fd ?tx) (step_frame chs p (tx_counter ?tx) (tx_src ?tx))
        (broadcast_ll (tx_ifindex ?tx)) w = (r, w')" by fastforce
    have "reac_tx_emit K L ?tx ?planes (sn_channels n) 12 w = Some (r, ?tx\<lparr>tx_counter := tx_counter ?tx + 1\<rparr>, w')"
      using ok send smp by (intro tx_emit_eq[OF geo _ pl]) (auto simp: sink_ok_def)
    then have "sink_sample K L ins s (n, w) = Some (n\<lparr>sn_stage := st, sn_staged := 0,
        sn_tx := ?tx\<lparr>tx_counter := tx_counter ?tx + 1\<rparr>\<rparr>, w')"
      using True st(1) by (simp add: sink_sample_def chs_def geometry_simps[OF geo])
    moreover have "sink_ok (n\<lparr>sn_stage := st, sn_staged := 0, sn_tx := ?tx\<lparr>tx_counter := tx_counter ?tx + 1\<rparr>\<rparr>)"
      using ok st(2) lens by (auto simp: sink_ok_def)
    ultimately show ?thesis using True send by (simp add: pending_def)
  qed
qed


subsection \<open>A quantum\<close>

lemma linked_count:
  assumes "chs \<le> length ins"
  shows "\<exists>k. forn chs (\<lambda>c k. do { b \<leftarrow> rd ins c; Some (if b = None then k else k + 1) }) (0 :: nat) = Some k \<and>
    (k = 0 \<longleftrightarrow> (\<forall>c < chs. ins ! c = None))"
  by (rule forn_rule[where P = "\<lambda>i k. k = 0 \<longleftrightarrow> (\<forall>c < i. ins ! c = None)"])
    (use assms in \<open>auto simp: less_Suc_eq\<close>)

lemma sink_on_process_eq:
  assumes geo: "documented_geometry L" and ok: "sink_ok n" and opn: "sn_tx_open n"
    and ins: "ins_ok ins (nat (sn_channels n)) (unat nframes)"
  defines "chs \<equiv> nat (sn_channels n)"
  defines "xs \<equiv> pending n @ quantum_steps ins chs (unat nframes)"
  shows "\<exists>n' w'. sink_on_process K L n ins nframes w = Some (n', w') \<and> sink_ok n' \<and> sn_tx_open n' \<and>
    sn_channels n' = sn_channels n \<and> pending n' = rest12 xs \<and>
    (sn_tx n', w') = send_groups K chs (sn_tx n) (groups12 xs) w"
proof -
  obtain k where k: "forn chs (\<lambda>c k. do { b \<leftarrow> rd ins c; Some (if b = None then k else k + 1) }) (0 :: nat) = Some k"
      "k = 0 \<longleftrightarrow> (\<forall>c < chs. ins ! c = None)"
    using linked_count[of chs ins] ins by (auto simp: ins_ok_def chs_def)
  have short: "length (pending n) < 12" using ok by (simp add: pending_def sink_ok_def)
  show ?thesis
  proof (cases "k = 0")
    case True
    then have "sink_on_process K L n ins nframes w = Some (n, w)"
      using k(1) opn by (simp add: sink_on_process_def chs_def)
    moreover have "xs = pending n" using True k(2) by (simp add: xs_def quantum_steps_def)
    ultimately show ?thesis using ok opn rest12_short[OF short] by simp
  next
    case False
    define upto_s where "upto_s i = pending n @ map (input_step ins chs) [0..<i]" for i
    have "\<exists>t. forn (unat nframes) (sink_sample K L ins) (n, w) = Some t \<and>
        sink_ok (fst t) \<and> sn_tx_open (fst t) \<and> sn_channels (fst t) = sn_channels n \<and>
        pending (fst t) = rest12 (upto_s (unat nframes)) \<and>
        (sn_tx (fst t), snd t) = send_groups K chs (sn_tx n) (groups12 (upto_s (unat nframes))) w"
    proof (rule forn_rule[where P = "\<lambda>i t. sink_ok (fst t) \<and> sn_tx_open (fst t) \<and> sn_channels (fst t) = sn_channels n \<and>
        pending (fst t) = rest12 (upto_s i) \<and>
        (sn_tx (fst t), snd t) = send_groups K chs (sn_tx n) (groups12 (upto_s i)) w"])
      show "sink_ok (fst (n, w)) \<and> sn_tx_open (fst (n, w)) \<and> sn_channels (fst (n, w)) = sn_channels n \<and>
        pending (fst (n, w)) = rest12 (upto_s 0) \<and>
        (sn_tx (fst (n, w)), snd (n, w)) = send_groups K chs (sn_tx n) (groups12 (upto_s 0)) w"
        using ok opn rest12_short[OF short] by (simp add: upto_s_def)
    next
      fix i and t :: "reac_sink_node \<times> 'a"
      assume i: "i < unat nframes" and P: "sink_ok (fst t) \<and> sn_tx_open (fst t) \<and> sn_channels (fst t) = sn_channels n \<and>
        pending (fst t) = rest12 (upto_s i) \<and>
        (sn_tx (fst t), snd t) = send_groups K chs (sn_tx n) (groups12 (upto_s i)) w"
      obtain n1 w1 where t: "t = (n1, w1)" by fastforce
      let ?x = "input_step ins chs i"
      have nx: "upto_s (Suc i) = upto_s i @ [?x]" by (simp add: upto_s_def)
      have c1: "nat (sn_channels n1) = chs" using P t by (simp add: chs_def)
      have ok1: "sink_ok n1" and ins1: "ins_ok ins (nat (sn_channels n1)) (unat nframes)"
        using P ins t by simp_all
      from sink_sample_eq[OF geo ok1 ins1 i, of K w1, unfolded c1]
      obtain n' w' where n': "sink_sample K L ins i (n1, w1) = Some (n', w')" "sink_ok n'" "sn_channels n' = sn_channels n1"
          "sn_tx_open n' = sn_tx_open n1" "if length (pending n1) = 11
            then pending n' = [] \<and> (sn_tx n', w') = send_groups K chs (sn_tx n1) [pending n1 @ [?x]] w1
            else pending n' = pending n1 @ [?x] \<and> sn_tx n' = sn_tx n1 \<and> w' = w1" by blast
      have "send_groups K chs (sn_tx n) (groups12 (upto_s i)) w = (sn_tx n1, w1)" using P t by simp
      then show "\<exists>t'. sink_sample K L ins i t = Some t' \<and> sink_ok (fst t') \<and> sn_tx_open (fst t') \<and>
        sn_channels (fst t') = sn_channels n \<and> pending (fst t') = rest12 (upto_s (Suc i)) \<and>
        (sn_tx (fst t'), snd t') = send_groups K chs (sn_tx n) (groups12 (upto_s (Suc i))) w"
        using n' P t unfolding nx groups12_snoc by (auto simp: send_groups_append split: if_splits)
    qed
    then obtain n' w' where "forn (unat nframes) (sink_sample K L ins) (n, w) = Some (n', w')" "sink_ok n'" "sn_tx_open n'"
        "sn_channels n' = sn_channels n" "pending n' = rest12 (upto_s (unat nframes))"
        "(sn_tx n', w') = send_groups K chs (sn_tx n) (groups12 (upto_s (unat nframes))) w" by auto
    moreover have "xs = upto_s (unat nframes)" using False k(2) by (auto simp: xs_def upto_s_def quantum_steps_def)
    ultimately show ?thesis using k(1) opn False by (simp add: sink_on_process_def chs_def)
  qed
qed


subsection \<open>Playback\<close>

text \<open>A sequence of graph cycles, each with its port buffers and its length.\<close>

primrec sink_play ::
  "'w os \<Rightarrow> libreac \<Rightarrow> (f32 list option list \<times> u32) list \<Rightarrow> reac_sink_node \<times> 'w \<Rightarrow> (reac_sink_node \<times> 'w) option" where
  "sink_play K L [] st = Some st"
| "sink_play K L (q # qs) st = do {
     st \<leftarrow> sink_on_process K L (fst st) (fst q) (snd q) (snd st);
     sink_play K L qs st
   }"

definition played_steps :: "nat \<Rightarrow> (f32 list option list \<times> u32) list \<Rightarrow> f32 list list" where
  "played_steps chs qs = concat (map (\<lambda>q. quantum_steps (fst q) chs (unat (snd q))) qs)"

lemma sink_play_eq:
  assumes "documented_geometry L" and "sink_ok n" and "sn_tx_open n"
    and "\<forall>q \<in> set qs. ins_ok (fst q) (nat (sn_channels n)) (unat (snd q))"
  shows "\<exists>n' w'. sink_play K L qs (n, w) = Some (n', w') \<and> sink_ok n' \<and>
    pending n' = rest12 (pending n @ played_steps (nat (sn_channels n)) qs) \<and>
    (sn_tx n', w') = send_groups K (nat (sn_channels n)) (sn_tx n)
      (groups12 (pending n @ played_steps (nat (sn_channels n)) qs)) w"
  using assms(2-4)
proof (induction qs arbitrary: n w)
  case Nil
  have "length (pending n) < 12" using Nil by (simp add: pending_def sink_ok_def)
  from rest12_short[OF this] show ?case using Nil by (simp add: played_steps_def)
next
  case (Cons q qs)
  let ?c = "nat (sn_channels n)"
  let ?xs = "pending n @ quantum_steps (fst q) ?c (unat (snd q))"
  obtain n1 w1 where n1: "sink_on_process K L n (fst q) (snd q) w = Some (n1, w1)" "sink_ok n1" "sn_tx_open n1"
      "sn_channels n1 = sn_channels n" "pending n1 = rest12 ?xs"
      "send_groups K ?c (sn_tx n) (groups12 ?xs) w = (sn_tx n1, w1)"
    using sink_on_process_eq[OF assms(1) Cons.prems(1,2), of "fst q" "snd q" K w] Cons.prems(3) by auto
  have all: "pending n @ played_steps ?c (q # qs) = ?xs @ played_steps ?c qs" by (simp add: played_steps_def)
  have "\<forall>q \<in> set qs. ins_ok (fst q) (nat (sn_channels n1)) (unat (snd q))" using Cons.prems(3) n1(4) by simp
  from Cons.IH[OF n1(2,3) this, of w1] obtain n' w' where n': "sink_play K L qs (n1, w1) = Some (n', w')" "sink_ok n'"
      "pending n' = rest12 (rest12 ?xs @ played_steps ?c qs)"
      "(sn_tx n', w') = send_groups K ?c (sn_tx n1) (groups12 (rest12 ?xs @ played_steps ?c qs)) w1"
    using n1(4,5) by auto
  then show ?case
    using n1(1,6) unfolding all groups12_append[of ?xs] by (simp add: send_groups_append)
qed

text \<open>
  C15.  Playback cuts the sample stream into frames independently of the graph's cycle length.  Over any sequence
  of cycles, of any lengths, the node sends one frame for every twelve time steps of the
  stream made of what the stage held and what the linked cycles brought, in order, each frame with the next counter; the
  remaining fewer than twelve time steps stay in the stage.  Every call is defined.
\<close>

theorem playback_is_framing:
  assumes "documented_geometry L" and "sink_ok n" and "sn_tx_open n"
    and "\<forall>q \<in> set qs. ins_ok (fst q) (nat (sn_channels n)) (unat (snd q))"
  shows "\<exists>n' w'. sink_play K L qs (n, w) = Some (n', w') \<and> sink_ok n' \<and>
    concat (groups12 (pending n @ played_steps (nat (sn_channels n)) qs)) @ pending n'
      = pending n @ played_steps (nat (sn_channels n)) qs \<and> length (pending n') < 12 \<and>
    w' = snd (send_groups K (nat (sn_channels n)) (sn_tx n)
      (groups12 (pending n @ played_steps (nat (sn_channels n)) qs)) w) \<and>
    tx_counter (sn_tx n') = tx_counter (sn_tx n) +
      of_nat (length (pending n @ played_steps (nat (sn_channels n)) qs) div 12)"
proof -
  let ?c = "nat (sn_channels n)" let ?xs = "pending n @ played_steps ?c qs"
  obtain n' w' where n': "sink_play K L qs (n, w) = Some (n', w')" "sink_ok n'" "pending n' = rest12 ?xs"
      "(sn_tx n', w') = send_groups K ?c (sn_tx n) (groups12 ?xs) w"
    using sink_play_eq[OF assms, of K w] by blast
  moreover from n'(4) have "sn_tx n' = fst (send_groups K ?c (sn_tx n) (groups12 ?xs) w)"
      "w' = snd (send_groups K ?c (sn_tx n) (groups12 ?xs) w)" by (metis fst_conv, metis snd_conv)
  moreover have "length (groups12 ?xs) = length ?xs div 12" by (simp add: groups12_def)
  ultimately show ?thesis using groups12_rest[of ?xs] by (simp add: send_groups_tx)
qed

definition sink_start :: reac_sink_node where
  "sink_start = \<lparr>sn_tx = \<lparr>tx_fd = 3, tx_ifindex = 7, tx_src = [0, 0x40, 0xab, 0, 0, 1], tx_counter = 0xFFFF\<rparr>,
     sn_tx_open = True, sn_channels = 2, sn_sample_rate = 48000, sn_stage = replicate 40 (replicate 12 0), sn_staged = 0\<rparr>"

theorem playback_is_framing_witness:
  "\<exists>n' w'. sink_play log_os libreac_doc
      [([Some (replicate 8 (Fin (1 / 2))), None], 8), ([None, Some (replicate 8 0)], 8)] (sink_start, log_start) = Some (n', w') \<and>
     length (pending n') < 12 \<and> tx_counter (sn_tx n') = 0"
proof -
  let ?qs = "[([Some (replicate 8 (Fin (1 / 2))), None], 8), ([None, Some (replicate 8 0)], 8)]
    :: (f32 list option list \<times> u32) list"
  have c: "nat (sn_channels sink_start) = 2" "pending sink_start = []" "sn_tx_open sink_start"
      "tx_counter (sn_tx sink_start) = 0xFFFF" by (simp_all add: sink_start_def pending_def)
  have "sink_ok sink_start" by (simp add: sink_start_def sink_ok_def)
  moreover have "\<forall>q \<in> set ?qs. ins_ok (fst q) 2 (unat (snd q))"
    by (auto simp: ins_ok_def less_2_cases_iff finite_sample_def zero_f32_def)
  moreover have two: "(\<forall>c < 2. P c) \<longleftrightarrow> P 0 \<and> P (1 :: nat)" for P by (auto simp: less_2_cases_iff)
  have "length (played_steps 2 ?qs) = 16"
    using two by (simp add: played_steps_def quantum_steps_def)
  ultimately show ?thesis
    using playback_is_framing[of libreac_doc sink_start ?qs log_os log_start] c by auto
qed

subsection \<open>Descriptors\<close>

lemma tx_fds:
  assumes "documented_fds K fds" and "reac_tx_open K L ifname w = (rc, tx, w1)"
  shows "rc \<noteq> 0 \<Longrightarrow> fds w1 = fds w" "rc = 0 \<Longrightarrow> 0 \<le> tx_fd tx \<and> fds w1 - {tx_fd tx} = fds w"
proof -
  obtain tx' w2 where c: "reac_tx_close K tx w1 = (tx', w2)" by fastforce
  show "rc \<noteq> 0 \<Longrightarrow> fds w1 = fds w" "rc = 0 \<Longrightarrow> 0 \<le> tx_fd tx \<and> fds w1 - {tx_fd tx} = fds w"
    using tx_open_fds[OF assms c] by (auto split: if_splits)
qed

text \<open>
  Creating and destroying the playback node leaks no descriptor: whichever step of the creation
  fails, and after the node is destroyed again, the open descriptors are what they were.
\<close>

theorem sink_node_fds:
  assumes "documented_fds K fds" and "reac_sink_node_new K L alloc_ok filter_ok connect_ok cfg w = (n, w1)"
  shows "fds (reac_sink_node_destroy K n w1) = fds w \<and> (n = None \<longrightarrow> fds w1 = fds w)"
proof -
  obtain rc tx w0 where o: "reac_tx_open K L (sc_ifname cfg) w = (rc, tx, w0)" by (metis prod_cases3)
  note F = tx_fds[OF assms(1) o] and C = documented_fdsD(3)[OF assms(1)]
  show ?thesis
    using assms(2) o F C
    by (auto simp: reac_sink_node_new_def reac_sink_node_destroy_def reac_tx_close_def Let_def
        split: if_splits option.splits)
qed

theorem sink_node_fds_witness:
  "lw_fds (snd (reac_sink_node_new log_os libreac_doc True True False
     \<lparr>sc_ifname = ''reac0'', sc_channels = 40, sc_sample_rate = 48000, sc_src_mac = None\<rparr> log_start)) = {}"
proof -
  let ?cfg = "\<lparr>sc_ifname = ''reac0'', sc_channels = 40, sc_sample_rate = 48000, sc_src_mac = None\<rparr>"
  obtain n w1 where n: "reac_sink_node_new log_os libreac_doc True True False ?cfg log_start = (n, w1)" by fastforce
  then have "n = None" by (auto simp: reac_sink_node_new_def Let_def split: if_splits prod.splits)
  with sink_node_fds[OF log_os_documented(1) n] n show ?thesis by (simp add: log_start_def)
qed

end
