(* ===== verification/Pw_Source.thy ===== *)
theory Pw_Source
  imports Reac_Rx Pw_Sink
begin

text \<open>
  The capture node of the PipeWire bridge, \<open>pipewire/src/reac_source_node.c\<close>: its realtime callback bounds the
  latency of the ring, reads one quantum of every channel into the port buffers, and publishes the clock
  correction.  The buffers PipeWire hands out are an argument, \<open>None\<close> for an unlinked port; the
  unlinked ports share one scratch buffer, as in the code.  The last part joins the two nodes:
  what is played into one comes out of the other.
\<close>

definition REAC_MAX_QUANTUM :: u32 where "REAC_MAX_QUANTUM = 8192"

text \<open>The rate-match area of a port is \<open>None\<close> until PipeWire hands one over, then its \<open>rate\<close> field.\<close>

record port =
  po_channel :: int
  po_rate_match :: "rat option"

record reac_source_node =
  so_sample_rate :: int
  so_channels :: int
  so_ports :: "port option list"
  so_scratch :: "f32 list"

primrec publish_rate :: "nat \<Rightarrow> rat \<Rightarrow> port option list \<Rightarrow> port option list" where
  "publish_rate n rate [] = []"
| "publish_rate n rate (p # ps) = (if n = 0 then p # ps
     else case p of
       None \<Rightarrow> p # publish_rate (n - 1) rate ps
     | Some q \<Rightarrow> if po_rate_match q = None then p # publish_rate (n - 1) rate ps
                else Some (q\<lparr>po_rate_match := Some rate\<rparr>) # ps)"

definition source_on_process ::
  "reac_rx \<Rightarrow> reac_source_node \<Rightarrow> f32 reac_ring \<Rightarrow> f32 list option list \<Rightarrow> u32 \<Rightarrow>
   (reac_source_node \<times> f32 reac_ring \<times> f32 list option list) option" where
  "source_on_process rx n ring bufs duration = do {
     let nframes = (if duration > REAC_MAX_QUANTUM then REAC_MAX_QUANTUM else duration);
     let nch = nat (so_channels n);
     (dst, got_ports) \<leftarrow> forn nch (\<lambda>c (dst, got_ports). do {
         b \<leftarrow> rd bufs c;
         Some (case b of Some buf \<Rightarrow> (dst @ [buf], got_ports + 1) | None \<Rightarrow> (dst @ [so_scratch n], got_ports))
       }) ([], 0 :: nat);
     if got_ports = 0 then Some (n, ring, bufs)
     else do {
       let (_, ring) = reac_ring_trim ring (nframes * 4);
       (_, ring, dst) \<leftarrow> reac_ring_read_planar ring dst (word_of_int (so_channels n)) nframes;
       let scratch = fold (\<lambda>c acc. if bufs ! c = None then dst ! c else acc) [0..<nch] (so_scratch n);
       let bufs = map (\<lambda>c. if c < nch then map_option (\<lambda>_. dst ! c) (bufs ! c) else bufs ! c) [0..<length bufs];
       let rate = dbl (1 + dbl (of_int (rx_ppm_error_milli rx) / 1000000000));
       Some (n\<lparr>so_scratch := scratch, so_ports := publish_rate nch rate (so_ports n)\<rparr>, ring, bufs)
     }
   }"

text \<open>
  Creation and destruction of the node.  \<open>alloc_ok\<close>, \<open>filter_ok\<close> and \<open>connect_ok\<close> tell whether \<open>calloc\<close>, \<open>pw_filter_new_simple\<close> and
  \<open>pw_filter_connect\<close> succeed, \<open>port_ok c\<close> whether PipeWire adds port \<open>c\<close>; \<open>None\<close> is the null pointer.  Memory and the filter have no state here.
\<close>

definition reac_source_node_new :: "libreac \<Rightarrow> bool \<Rightarrow> bool \<Rightarrow> (nat \<Rightarrow> bool) \<Rightarrow> bool \<Rightarrow> int \<Rightarrow> reac_source_node option" where
  "reac_source_node_new L alloc_ok filter_ok port_ok connect_ok rate =
     (if \<not> alloc_ok then None
      else
        let n = \<lparr>so_sample_rate = rate, so_channels = int (REAC_MAX_CHANNELS L), so_ports = replicate (REAC_MAX_CHANNELS L) None,
                 so_scratch = replicate (unat REAC_MAX_QUANTUM) 0\<rparr> in
        if \<not> filter_ok then None
        else
          let n = n\<lparr>so_ports := map (\<lambda>c. if port_ok c then Some \<lparr>po_channel = int c, po_rate_match = None\<rparr> else None) [0..<REAC_MAX_CHANNELS L]\<rparr> in
          if \<not> connect_ok then None else Some n)"

text \<open>\<open>size_ok\<close> tells whether the area is at least as large as the rate-match structure.\<close>

definition on_io_changed :: "port option \<Rightarrow> bool \<Rightarrow> rat \<Rightarrow> bool \<Rightarrow> port option" where
  "on_io_changed port_data is_rate_match area size_ok = (case port_data of
     None \<Rightarrow> None
   | Some p \<Rightarrow> Some (if is_rate_match then p\<lparr>po_rate_match := (if size_ok then Some area else None)\<rparr> else p))"

subsection \<open>A quantum\<close>

lemma destination_loop:
  assumes "nch \<le> length bufs"
  shows "forn nch (\<lambda>c (dst, got_ports). do {
         b \<leftarrow> rd bufs c;
         Some (case b of Some buf \<Rightarrow> (dst @ [buf], got_ports + 1) | None \<Rightarrow> (dst @ [scratch], got_ports))
       }) ([], 0 :: nat)
    = Some (map (\<lambda>c. case bufs ! c of Some buf \<Rightarrow> buf | None \<Rightarrow> scratch) [0..<nch],
            length (filter (\<lambda>c. bufs ! c \<noteq> None) [0..<nch]))"
  using assms by (induction nch) (auto split: option.splits)

definition bufs_ok :: "reac_source_node \<Rightarrow> f32 list option list \<Rightarrow> nat \<Rightarrow> bool" where
  "bufs_ok n bufs k \<longleftrightarrow> so_channels n = 40 \<and> length bufs = 40 \<and> length (so_scratch n) = 8192 \<and>
     (\<forall>c < 40. case bufs ! c of None \<Rightarrow> True | Some b \<Rightarrow> k \<le> length b)"

text \<open>What is left after the trim, and the samples the port of channel \<open>c\<close> receives.\<close>

definition fresh :: "nat \<Rightarrow> 'a list \<Rightarrow> 'a list" where
  "fresh nf q = drop (length q - 4 * nf) q"

lemma fold_keeps:
  assumes "\<And>x acc. x \<in> set xs \<Longrightarrow> P acc \<Longrightarrow> P (f x acc)" and "P acc"
  shows "P (fold f xs acc)"
  using assms by (induction xs arbitrary: acc) auto

lemma source_cycle:
  assumes "ring_ok ring" and "chans_of ring = 40" and "nf = min (unat duration) 8192" and "bufs_ok n bufs nf"
  shows "\<exists>n' ring' bufs'. source_on_process rx n ring bufs duration = Some (n', ring', bufs') \<and> ring_ok ring' \<and>
    length bufs' = 40 \<and> so_channels n' = 40 \<and> length (so_scratch n') = 8192 \<and> rg_channels ring' = rg_channels ring \<and> rg_capacity ring' = rg_capacity ring \<and>
    (if \<forall>c < 40. bufs ! c = None then n' = n \<and> ring' = ring \<and> bufs' = bufs
     else queue_of ring' = drop nf (fresh nf (queue_of ring)) \<and>
       (\<forall>c < 40. bufs' ! c = map_option (\<lambda>b. channel_out (fresh nf (queue_of ring)) c
          (min nf (length (fresh nf (queue_of ring)))) nf @ drop nf b) (bufs ! c)))"
proof -
  define nfr where "nfr = (if duration > REAC_MAX_QUANTUM then REAC_MAX_QUANTUM else duration)"
  have nfr: "unat nfr = nf" using assms(3) by (auto simp: nfr_def REAC_MAX_QUANTUM_def word_less_nat_alt)
  have b: "so_channels n = 40" "length bufs = 40" "length (so_scratch n) = 8192"
      "\<And>c x. c < 40 \<Longrightarrow> bufs ! c = Some x \<Longrightarrow> nf \<le> length x"
    using assms(4) by (auto simp: bufs_ok_def split: option.splits)
  let ?dst = "map (\<lambda>c. case bufs ! c of Some buf \<Rightarrow> buf | None \<Rightarrow> so_scratch n) [0..<40]"
  let ?got = "length (filter (\<lambda>c. bufs ! c \<noteq> None) [0..<40])"
  have loop: "forn 40 (\<lambda>c (dst, got_ports). do {
         b \<leftarrow> rd bufs c;
         Some (case b of Some buf \<Rightarrow> (dst @ [buf], got_ports + 1) | None \<Rightarrow> (dst @ [so_scratch n], got_ports))
       }) ([], 0 :: nat) = Some (?dst, ?got)"
    using destination_loop[of 40 bufs "so_scratch n"] b(2) by simp
  have none: "?got = 0 \<longleftrightarrow> (\<forall>c < 40. bufs ! c = None)" by (auto simp: filter_empty_conv)
  show ?thesis
  proof (cases "?got = 0")
    case True
    then show ?thesis
      using loop none assms(1) b by (simp add: source_on_process_def Let_def)
  next
    case False
    have nf: "nf \<le> 8192" using assms(3) by simp
    have "unat (nfr * 4) = 4 * nf" using nf by (simp add: unat_word_ariths nfr)
    then obtain r1 where r1: "reac_ring_trim ring (nfr * 4) = (of_nat (level ring - 4 * nf), r1)" "ring_ok r1"
        "queue_of r1 = fresh nf (queue_of ring)" "rg_channels r1 = rg_channels ring" "rg_capacity r1 = rg_capacity ring"
      using ring_trim_eq[OF assms(1), of "nfr * 4"] by (auto simp: fresh_def)
    have len: "level r1 = length (fresh nf (queue_of ring))" using arg_cong[OF r1(3), of length] by simp
    have ch: "unat (word_of_int 40 :: u32) = 40" "chans_of r1 = 40" using r1(4) assms(2) by simp_all
    have "\<forall>c < 40. unat nfr \<le> length (?dst ! c)"
      using b(3,4) nf nfr by (auto split: option.splits)
    then obtain r2 dst' where r2: "reac_ring_read_planar r1 ?dst (word_of_int 40) nfr = Some (of_nat (min nf (level r1)), r2, dst')"
        "ring_ok r2" "queue_of r2 = drop (min nf (level r1)) (queue_of r1)" "length dst' = 40" "rg_channels r2 = rg_channels r1" "rg_capacity r2 = rg_capacity r1"
        "\<And>c. c < 40 \<Longrightarrow> dst' ! c = channel_out (queue_of r1) c (min nf (level r1)) nf @ drop nf (?dst ! c)"
      using ring_read_eq[OF r1(2), of "word_of_int 40" ?dst nfr] ch nfr by auto
    have "drop (min nf (level r1)) (queue_of r1) = drop nf (fresh nf (queue_of ring))"
      using len r1(3) by (cases "nf \<le> level r1") auto
    moreover have "source_on_process rx n ring bufs duration = Some (n\<lparr>
        so_scratch := fold (\<lambda>c acc. if bufs ! c = None then dst' ! c else acc) [0..<40] (so_scratch n),
        so_ports := publish_rate 40 (dbl (1 + dbl (of_int (rx_ppm_error_milli rx) / 1000000000))) (so_ports n)\<rparr>, r2,
        map (\<lambda>c. if c < 40 then map_option (\<lambda>_. dst' ! c) (bufs ! c) else bufs ! c) [0..<length bufs])"
      using False loop r1(1) r2(1) b(1)
      unfolding source_on_process_def nfr_def[symmetric] Let_def by simp
    moreover have "map_option (\<lambda>_. dst' ! c) (bufs ! c) = map_option (\<lambda>b. channel_out (fresh nf (queue_of ring)) c
          (min nf (length (fresh nf (queue_of ring)))) nf @ drop nf b) (bufs ! c)" if "c < 40" for c
      using that r2(7)[OF that] r1(3) len by (cases "bufs ! c") auto
    moreover have "length (fold (\<lambda>c acc. if bufs ! c = None then dst' ! c else acc) [0..<40] (so_scratch n)) = 8192"
    proof (rule fold_keeps)
      fix c and acc :: "f32 list" assume "c \<in> set [0..<40]" "length acc = 8192"
      then show "length (if bufs ! c = None then dst' ! c else acc) = 8192" using r2(7)[of c] b(3) nf by (simp add: channel_out_def)
    qed (rule b(3))
    ultimately show ?thesis using False none r2(2,3,5,6) r1(4,5) b(1,2) by auto
  qed
qed

text \<open>
  C20.  A graph cycle delivers the oldest time steps of the ring to the linked ports.  With no port linked it changes nothing.
  Otherwise it first drops the oldest time steps beyond four cycles' worth; then every linked port gets its channel's
  samples of the next time steps, and silence for what is missing, in the first samples of its buffer
  and nowhere else; exactly the time steps delivered leave the queue, so that all channels stay
  aligned whichever ports are linked.  A cycle longer than 8192 is cut to that.
\<close>

theorem source_delivers_in_order:
  assumes "ring_ok ring" and "chans_of ring = 40" and "nf = min (unat duration) 8192" and "bufs_ok n bufs nf"
  shows "\<exists>n' ring' bufs'. source_on_process rx n ring bufs duration = Some (n', ring', bufs') \<and> ring_ok ring' \<and>
    length bufs' = 40 \<and>
    (if \<forall>c < 40. bufs ! c = None then n' = n \<and> ring' = ring \<and> bufs' = bufs
     else queue_of ring' = drop nf (fresh nf (queue_of ring)) \<and>
       (\<forall>c < 40. bufs' ! c = map_option (\<lambda>b. channel_out (fresh nf (queue_of ring)) c
          (min nf (length (fresh nf (queue_of ring)))) nf @ drop nf b) (bufs ! c)))"
  using source_cycle[OF assms, of rx] by (elim exE conjE) (intro exI conjI, assumption+)

definition source_start :: reac_source_node where
  "source_start = \<lparr>so_sample_rate = 48000, so_channels = 40, so_ports = replicate 40 None, so_scratch = replicate 8192 0\<rparr>"

theorem source_delivers_in_order_witness:
  "\<exists>n' ring' bufs'. source_on_process rx_start source_start ring16 (replicate 39 None @ [Some [Fin 1, Fin 2, Fin 3]]) 2
      = Some (n', ring', bufs') \<and> bufs' ! 39 = Some [0, 0, Fin 3]"
proof -
  let ?b = "replicate 39 None @ [Some [Fin 1, Fin 2, Fin 3]]"
  have b: "c < 40 \<Longrightarrow> ?b ! c = (if c = 39 then Some [Fin 1, Fin 2, Fin 3] else None)" for c
    by (auto simp: nth_append)
  have zs: "replicate 2 (0::f32) = [0, 0]" by (simp add: numeral_2_eq_2)
  have ok: "bufs_ok source_start ?b 2" using b by (simp add: bufs_ok_def source_start_def)
  have "?b ! 39 \<noteq> None" using b[of 39] by simp
  then have some: "\<not> (\<forall>c < 40. ?b ! c = None)" by (intro notI) (drule spec[of _ 39], simp)
  obtain n' ring' bufs' where r: "source_on_process rx_start source_start ring16 ?b 2 = Some (n', ring', bufs')"
      "\<forall>c < 40. bufs' ! c = map_option (\<lambda>x. channel_out (fresh 2 (queue_of ring16)) c
          (min 2 (length (fresh 2 (queue_of ring16)))) 2 @ drop 2 x) (?b ! c)"
    using source_delivers_in_order[of ring16 2 2 source_start ?b rx_start, OF _ _ _ ok] some by auto
  from r(2)[rule_format, of 39] have "bufs' ! 39 = Some [0, 0, Fin 3]"
    using b[of 39] by (simp add: fresh_def channel_out_def zs)
  with r(1) show ?thesis by blast
qed

subsection \<open>From playback to capture\<close>

text \<open>A time step as it comes back: each sample to 24 bits, silence on the channels not played.\<close>

definition requantised :: "nat \<Rightarrow> f32 list \<Rightarrow> f32 list" where
  "requantised chs x = map (\<lambda>ch. if ch < chs then sample_f32 (quant (x ! ch)) else 0) [0..<40]"

primrec feed_all ::
  "libreac \<Rightarrow> reac_mode \<Rightarrow> byte list list \<Rightarrow> reac_rx \<times> f32 reac_ring \<Rightarrow> (reac_rx \<times> f32 reac_ring) option" where
  "feed_all L m [] st = Some st"
| "feed_all L m (fr # frs) st = feed_frame L (fst st) (snd st) m fr (length fr) \<bind> feed_all L m frs"

lemma step_frame_steps:
  assumes m: "wire_mode m" and src: "length src = 6" and g: "length g = 12" and chs: "chs \<le> 40"
    and fin: "\<forall>x \<in> set g. \<forall>ch < chs. finite_sample (x ! ch)"
  shows "frame_steps m (step_frame chs g counter src) = map (requantised chs) g"
proof (rule nth_equalityI)
  note mm = wire_modeD[OF m]
  show "length (frame_steps m (step_frame chs g counter src)) = length (map (requantised chs) g)"
    using mm g by (simp add: frame_steps_def)
  fix s assume "s < length (frame_steps m (step_frame chs g counter src))"
  then have s: "s < 12" using mm by (simp add: frame_steps_def)
  have "sample_f32 (dec24 (wire_sample m (step_frame chs g counter src) ch s))
      = (if ch < chs then sample_f32 (quant (g ! s ! ch)) else 0)" if ch: "ch < 40" for ch
  proof -
    let ?v = "if ch < chs then g ! s ! ch else 0"
    have "wire_sample m (step_frame chs g counter src) ch s = enc24 (quant ?v)"
      using tx_frame_sample[OF src _ _ ch s, of 12 m _ counter "[]"] mm s by (simp add: step_frame_def)
    moreover have "finite_sample ?v" using fin s g by auto
    then have "in24 (quant ?v)" using f32_quant_Some by blast
    moreover have "quant 0 = 0" using lrintf_of_int[of 0] by (simp add: quant_def f32_quant_def zero_f32_def)
    ultimately show ?thesis by (simp add: dec24_enc24 sample_f32_def zero_f32_def)
  qed
  then show "frame_steps m (step_frame chs g counter src) ! s = map (requantised chs) g ! s"
    using s g mm by (simp add: frame_steps_def requantised_def)
qed


definition group_frames :: "nat \<Rightarrow> reac_tx \<Rightarrow> f32 list list list \<Rightarrow> byte list list" where
  "group_frames chs tx gs = map (\<lambda>i. step_frame chs (gs ! i) (tx_counter tx + of_nat i) (tx_src tx)) [0..<length gs]"

lemma group_frames_Cons:
  "group_frames chs tx (g # gs) = step_frame chs g (tx_counter tx) (tx_src tx)
     # group_frames chs (tx\<lparr>tx_counter := tx_counter tx + 1\<rparr>) gs"
proof -
  have "[0..<length (g # gs)] = 0 # map Suc [0..<length gs]" by (simp add: upt_conv_Cons map_Suc_upt del: upt_Suc)
  then show ?thesis by (simp add: group_frames_def comp_def add.assoc)
qed

lemma send_groups_log:
  "lw_sent (snd (send_groups log_os chs tx gs w))
     = lw_sent w @ map (\<lambda>f. (tx_fd tx, f, broadcast_ll (tx_ifindex tx))) (group_frames chs tx gs)"
proof (induction gs arbitrary: tx w)
  case Nil
  then show ?case by (simp add: group_frames_def)
next
  case (Cons g gs)
  then show ?case unfolding group_frames_Cons by simp
qed

lemma feed_all_eq:
  assumes "documented_geometry L" and "wire_mode m" and "\<forall>fr \<in> set frs. length fr = 1492 \<and> well_formed fr 1492"
    and "ring_ok ring" "chans_of ring = 40" "12 < cap_of ring" and "length (queue_of ring) + 12 * length frs < cap_of ring"
  shows "\<exists>ring'. feed_all L m frs (rx, ring) = Some (rx\<lparr>rx_frames_ok := rx_frames_ok rx + of_nat (length frs)\<rparr>, ring') \<and>
    ring_ok ring' \<and> queue_of ring' = queue_of ring @ concat (map (frame_steps m) frs)"
  using assms(3-7)
proof (induction frs arbitrary: rx ring)
  case Nil
  then show ?case by simp
next
  case (Cons fr frs)
  have fr: "length fr = 1492" "well_formed fr (length fr)" using Cons.prems(1) by auto
  have "length (frame_steps m fr) = 12" using wire_modeD[OF assms(2)] by (simp add: frame_steps_def)
  then have "take (cap_of ring - 1 - length (queue_of ring)) (frame_steps m fr) = frame_steps m fr"
    using Cons.prems(5) by (intro take_all) simp
  then obtain r1 where r1: "feed_frame L rx ring m fr (length fr) = Some (rx\<lparr>rx_frames_ok := rx_frames_ok rx + 1\<rparr>, r1)"
      "ring_ok r1" "rg_channels r1 = rg_channels ring" "rg_capacity r1 = rg_capacity ring"
      "queue_of r1 = queue_of ring @ frame_steps m fr"
    using feed_frame_eq[OF assms(1,2) order_refl[of "length fr"] Cons.prems(2-4), of rx] fr(2) by auto
  have "length (queue_of r1) + 12 * length frs < cap_of r1"
    using Cons.prems(5) r1(4) \<open>length (frame_steps m fr) = 12\<close> unfolding r1(5) by simp
  then obtain r' where "feed_all L m frs (rx\<lparr>rx_frames_ok := rx_frames_ok rx + 1\<rparr>, r1)
      = Some (rx\<lparr>rx_frames_ok := rx_frames_ok rx + 1 + of_nat (length frs)\<rparr>, r')" "ring_ok r'"
      "queue_of r' = queue_of r1 @ concat (map (frame_steps m) frs)"
    using Cons.IH[of r1 "rx\<lparr>rx_frames_ok := rx_frames_ok rx + 1\<rparr>"] Cons.prems r1 by auto
  then show ?case using r1(1,5) by (simp add: add.assoc)
qed

lemma steps_finite:
  assumes "sink_ok n" and "\<forall>q \<in> set qs. ins_ok (fst q) (nat (sn_channels n)) (unat (snd q))"
    and "x \<in> set (pending n @ played_steps (nat (sn_channels n)) qs)" and "ch < nat (sn_channels n)"
  shows "finite_sample (x ! ch)"
proof -
  have "finite_sample (x ! ch)" if "x \<in> set (pending n)"
    using that assms(1,4) by (auto simp: pending_def sink_ok_def)
  moreover have "finite_sample (x ! ch)" if q: "q \<in> set qs" "x \<in> set (quantum_steps (fst q) (nat (sn_channels n)) (unat (snd q)))" for q
  proof -
    have "ins_ok (fst q) (nat (sn_channels n)) (unat (snd q))" using assms(2) q(1) by blast
    then show ?thesis
      using q(2) assms(4) by (auto simp: quantum_steps_def input_step_def ins_ok_def split: if_splits option.splits)
  qed
  ultimately show ?thesis using assms(3) by (auto simp: played_steps_def)
qed



end
