(* ===== verification/Rx_Steady.thy ===== *)
theory Rx_Steady
  imports Reac_Rx
begin

text \<open>
  When the clock estimate of the feeder is defined.  The conversion of the estimate to \<open>int\<close> is the only operation of \<open>update_ppm\<close> that can be
  undefined; it is defined on every link whose counter does not run away.  A link is seen through its observations, the counter of each frame
  with the time it is handled at.
\<close>

text \<open>The frames counted from observation \<open>i\<close> to observation \<open>j\<close>.\<close>

definition advance :: "libreac \<Rightarrow> (u16 \<times> u64) list \<Rightarrow> nat \<Rightarrow> nat \<Rightarrow> nat" where
  "advance L obs i j = sum_list (map (\<lambda>k. unat (reac_counter_gap L (fst (obs ! k)) (fst (obs ! Suc k))) + 1) [i..<j])"

abbreviation time_of :: "(u16 \<times> u64) list \<Rightarrow> nat \<Rightarrow> nat" where
  "time_of obs k \<equiv> unat (snd (obs ! k))"

text \<open>
  The clock does not run backwards, no two frames are more than 299 seconds apart, and over any stretch of at least a quarter of a second the counter
  advances at most three times as fast as nominal.
\<close>

definition steady :: "libreac \<Rightarrow> int \<Rightarrow> (u16 \<times> u64) list \<Rightarrow> bool" where
  "steady L rate obs \<longleftrightarrow> (\<forall>j < length obs. \<forall>i < j. time_of obs i \<le> time_of obs j \<and>
     (Suc i = j \<longrightarrow> time_of obs j - time_of obs i \<le> 299000000000) \<and>
     (250000000 \<le> time_of obs j - time_of obs i \<longrightarrow>
        12 * 1000000000 * int (advance L obs i j) \<le> 3 * rate * int (time_of obs j - time_of obs i)))"

lemma advance_Suc: "i \<le> j \<Longrightarrow> advance L obs i (Suc j) = advance L obs i j + (unat (reac_counter_gap L (fst (obs ! j)) (fst (obs ! Suc j))) + 1)"
  by (simp add: advance_def)

lemma advance_same [simp]: "advance L obs i i = 0"
  by (simp add: advance_def)

text \<open>The window after the first \<open>k\<close> observations: it was opened at one of them and has counted the frames since.\<close>

definition tracks :: "libreac \<Rightarrow> (u16 \<times> u64) list \<Rightarrow> nat \<Rightarrow> ppm_window \<Rightarrow> bool" where
  "tracks L obs k win \<longleftrightarrow> (case k of
     0 \<Rightarrow> \<not> win_have_last win \<and> win_frames win = 0
   | Suc j \<Rightarrow> win_have_last win \<and> win_last_counter win = fst (obs ! j) \<and>
       (\<exists>i \<le> j. win_start_ns win = snd (obs ! i) \<and> win_frames win = of_nat (advance L obs i j) \<and> time_of obs j - time_of obs i < 250000000))"

text \<open>On a steady link a full window is estimated without overflow.\<close>

lemma steady_window:
  assumes "documented_geometry L" and "reac_rate rate" and "steady L rate obs" and "j < length obs" and "i < j"
    and "time_of obs (j - 1) - time_of obs i < 250000000" and "250000000 \<le> time_of obs j - time_of obs i"
  shows "ppm_milli L (of_nat (advance L obs i j)) (snd (obs ! j) - snd (obs ! i)) rate \<noteq> None"
proof -
  let ?dt = "time_of obs j - time_of obs i" and ?A = "advance L obs i j"
  have S: "time_of obs i \<le> time_of obs j" "12 * 1000000000 * int ?A \<le> 3 * rate * int ?dt"
    using assms(3-5,7) unfolding steady_def by blast+
  have "time_of obs j - time_of obs (j - 1) \<le> 299000000000" using assms(3-5) unfolding steady_def by (cases j) auto
  then have dt: "?dt < 299250000000" using assms(6) by linarith
  have word: "unat (snd (obs ! j) - snd (obs ! i)) = ?dt" using S(1) by (simp add: unat_sub word_le_nat_alt)
  have "rate * int ?dt \<le> 96000 * 299250000000"
    using assms(2) dt by (intro mult_mono) (auto simp: reac_rate_def)
  then have "int ?A < 8388608" using S(2) by linarith
  then have A: "unat (of_nat ?A :: u32) = ?A" "?A < 2 ^ 23" by (simp_all add: unat_of_nat take_bit_nat_eq_self)
  have le: "speed_le (of_nat ?A) (snd (obs ! j) - snd (obs ! i)) rate 3" using S(2) by (simp add: speed_le_def A(1) word)
  have "speed_ge (of_nat ?A) (snd (obs ! j) - snd (obs ! i)) rate 0" by (simp add: speed_ge_def)
  moreover have "time_of obs i < time_of obs j" using assms(7) by linarith
  ultimately show ?thesis
    using ppm_milli_bounds[of L "of_nat ?A" "snd (obs ! j) - snd (obs ! i)" rate "- 1" 2] le assms(1,2,7) dt A word by auto
qed

text \<open>The next observation of a steady link: the estimator is defined and goes on tracking it.\<close>

lemma update_ppm_progress:
  assumes geo: "documented_geometry L" and rate: "reac_rate (rx_sample_rate rx)" and st: "steady L (rx_sample_rate rx) obs"
    and k: "k < length obs" and tr: "tracks L obs k win"
  shows "\<exists>rx' win'. update_ppm L rx win (fst (obs ! k)) (snd (obs ! k)) = Some (rx', win') \<and> tracks L obs (Suc k) win'"
proof (cases k)
  case 0
  then show ?thesis using tr by (auto simp: update_ppm_def tracks_def)
next
  case (Suc j)
  then obtain i where i: "i \<le> j" "win_start_ns win = snd (obs ! i)" "win_frames win = of_nat (advance L obs i j)"
      "time_of obs j - time_of obs i < 250000000" and w: "win_have_last win" "win_last_counter win = fst (obs ! j)"
    using tr by (auto simp: tracks_def)
  have ik: "time_of obs i \<le> time_of obs k" using st k i(1) Suc unfolding steady_def by simp
  define A where "A = advance L obs i k"
  define dt where "dt = snd (obs ! k) - snd (obs ! i)"
  have fr: "win_frames win + (ucast (reac_counter_gap L (win_last_counter win) (fst (obs ! k))) + 1) = of_nat A"
    unfolding A_def Suc advance_Suc[OF i(1)] using i(3) w(2) Suc by simp
  have dt: "unat dt = time_of obs k - time_of obs i" using ik by (simp add: dt_def unat_sub word_le_nat_alt)
  show ?thesis
  proof (cases "dt \<ge> 250000000")
    case True
    then have "250000000 \<le> time_of obs k - time_of obs i" using dt by (simp add: word_le_nat_alt)
    then obtain e where "ppm_milli L (of_nat A) dt (rx_sample_rate rx) = Some e"
      using steady_window[OF geo rate st k, of i] i(1,4) Suc unfolding A_def dt_def by auto
    then show ?thesis using True w(1) fr i(2) by (auto simp: update_ppm_def Let_def dt_def tracks_def)
  next
    case False
    then have "time_of obs k - time_of obs i < 250000000" using dt by (simp add: word_le_nat_alt)
    then show ?thesis
      using False w(1) fr i(1,2) Suc by (auto simp: update_ppm_def Let_def dt_def tracks_def A_def intro!: exI[of _ i])
  qed
qed

end
