(* ===== verification/Rx_Thread.thy ===== *)
theory Rx_Thread
  imports Rx_Steady "HOL-Library.Sublist"
begin

text \<open>
  The feeder thread of the PipeWire bridge, \<open>rx_loop\<close> of \<open>pipewire/src/reac_rx.c\<close>, from the opening of its source to its closing, and the
  calls that start and stop it.  The thread shares the flag \<open>running\<close> with the main thread and the ring with the graph thread.  What the
  others do meanwhile is the schedule: one entry for every time the flag is read as set, with the clock readings of that round and what the
  consumer has done to the ring since the round before; the schedule ends where the flag is read as cleared.
\<close>

datatype rx_source = LiveSource reac_capture | PcapSource pcap_source

record 'w rx_thread =
  th_rx :: reac_rx
  th_ring :: "f32 reac_ring"
  th_locals :: rx_locals
  th_win :: ppm_window
  th_src :: rx_source
  th_frame :: "byte list"
  th_world :: 'w

definition rx_source_open :: "'w os \<Rightarrow> (string \<Rightarrow> cfile option) \<Rightarrow> reac_rx \<Rightarrow> 'w \<Rightarrow> (rx_source option \<times> 'w) option" where
  "rx_source_open K fopen rx w =
     (if rc_kind (rx_cfg rx) = REAC_RX_LIVE then
        (let (rc, cap, w) = reac_capture_open K (rc_source (rx_cfg rx)) w in
         if rc \<noteq> 0 then Some (None, w)
         else let (_, w) = reac_capture_set_nonblock K cap False w in Some (Some (LiveSource cap), w))
      else do {
        (rc, ps) \<leftarrow> pcap_source_open (fopen (rc_source (rx_cfg rx))) \<lparr>ps_f = None, ps_swapped = False\<rparr>;
        Some (if rc \<noteq> 0 then None else Some (PcapSource ps), w)
      })"

definition rx_source_close :: "'w os \<Rightarrow> rx_source \<Rightarrow> 'w \<Rightarrow> 'w" where
  "rx_source_close K src w = (case src of
     LiveSource cap \<Rightarrow> snd (reac_capture_close K cap w)
   | PcapSource ps \<Rightarrow> let ps = pcap_source_close ps in w)"

definition rx_round ::
  "'w os \<Rightarrow> nat \<Rightarrow> (string \<Rightarrow> cfile option) \<Rightarrow> libreac \<Rightarrow> reac_mode \<Rightarrow> u64 \<times> u64 \<Rightarrow> 'w rx_thread \<Rightarrow> 'w rx_thread option" where
  "rx_round K long_bits fopen L mode clk t = (case th_src t of
     LiveSource cap \<Rightarrow> do {
       (rx, ring, lv, win, cap, frame, w) \<leftarrow> rx_live_round K L mode clk (th_rx t, th_ring t, th_locals t, th_win t, cap, th_frame t, th_world t);
       Some \<lparr>th_rx = rx, th_ring = ring, th_locals = lv, th_win = win, th_src = LiveSource cap, th_frame = frame, th_world = w\<rparr>
     }
   | PcapSource ps \<Rightarrow> do {
       (rx, ring, lv, win, ps, frame) \<leftarrow> rx_pcap_round long_bits (fopen (rc_source (rx_cfg (th_rx t)))) L mode clk
          (th_rx t, th_ring t, th_locals t, th_win t, ps, th_frame t);
       Some \<lparr>th_rx = rx, th_ring = ring, th_locals = lv, th_win = win, th_src = PcapSource ps, th_frame = frame, th_world = th_world t\<rparr>
     })"

type_synonym schedule = "((u64 \<times> u64) \<times> (f32 reac_ring \<Rightarrow> f32 reac_ring)) list"

primrec rx_rounds ::
  "'w os \<Rightarrow> nat \<Rightarrow> (string \<Rightarrow> cfile option) \<Rightarrow> libreac \<Rightarrow> reac_mode \<Rightarrow> schedule \<Rightarrow> 'w rx_thread \<Rightarrow> 'w rx_thread option" where
  "rx_rounds K long_bits fopen L mode [] t = Some t"
| "rx_rounds K long_bits fopen L mode (x # xs) t =
     rx_round K long_bits fopen L mode (fst x) (t\<lparr>th_ring := snd x (th_ring t)\<rparr>) \<bind> rx_rounds K long_bits fopen L mode xs"

definition rx_loop ::
  "'w os \<Rightarrow> nat \<Rightarrow> (string \<Rightarrow> cfile option) \<Rightarrow> libreac \<Rightarrow> schedule \<Rightarrow> reac_rx \<Rightarrow> f32 reac_ring \<Rightarrow> ppm_window \<Rightarrow> 'w \<Rightarrow>
   (reac_rx \<times> f32 reac_ring \<times> ppm_window \<times> 'w) option" where
  "rx_loop K long_bits fopen L sched rx ring win w = do {
     let mode = reac_mode_for L (rx_sample_rate rx);
     (src, w) \<leftarrow> rx_source_open K fopen rx w;
     (case src of
        None \<Rightarrow> Some (rx, ring, win, w)
      | Some src \<Rightarrow> do {
          t \<leftarrow> rx_rounds K long_bits fopen L mode sched
             \<lparr>th_rx = rx, th_ring = ring,
              th_locals = \<lparr>rl_last_counter = 0, rl_have_counter = False, rl_pcap_first_ts = 0, rl_wall_first_ns = 0\<rparr>,
              th_win = win, th_src = src, th_frame = replicate (REAC_FRAME_BYTES L + 64) 0, th_world = w\<rparr>;
          Some (th_rx t, th_ring t, th_win t, rx_source_close K (th_src t) (th_world t))
        })
   }"

text \<open>\<open>created\<close> is the result of \<open>pthread_create\<close>.\<close>

definition reac_rx_start :: "int \<Rightarrow> reac_rx \<Rightarrow> int \<times> reac_rx" where
  "reac_rx_start created rx = (created, rx\<lparr>rx_running := True\<rparr>)"

definition reac_rx_stop :: "reac_rx \<Rightarrow> reac_rx" where
  "reac_rx_stop rx = rx\<lparr>rx_running := False\<rparr>"

definition reac_rx_close :: "reac_rx \<Rightarrow> reac_rx" where
  "reac_rx_close rx = rx"

subsection \<open>One frame\<close>

text \<open>A frame the thread takes: accepted by libreac, and well formed.\<close>

definition good_frame :: "libreac \<Rightarrow> byte list \<Rightarrow> bool" where
  "good_frame L f \<longleftrightarrow> reac_frame_is_reac L f \<and> well_formed f (length f)"

lemma frame_steps_take: "wire_mode m \<Longrightarrow> 1492 \<le> n \<Longrightarrow> frame_steps m (take n fr) = frame_steps m fr"
proof -
  assume m: "wire_mode m" and n: "1492 \<le> n"
  have "wire_sample m (take n fr) c s = wire_sample m fr c s" if "c < 40" "s < 12" for c s
  proof -
    have "50 + (s * 40 + c) * 3 + 3 \<le> n" using that n by simp
    then show ?thesis using wire_modeD[OF m] by (simp add: wire_sample_def chunk_def drop_take min_def)
  qed
  then show ?thesis using wire_modeD[OF m] by (simp add: frame_steps_def)
qed

lemma rx_handle_spec:
  assumes "documented_geometry L" and "wire_mode m" and "nat n \<le> length fr" and "ring_ok ring" and "chans_of ring = 40" and "12 < cap_of ring"
    and "rx_handle L m rx ring lv win fr n ts now1 now2 = Some (rx', ring', lv', win', tgt)"
  defines "f \<equiv> take (nat n) fr"
  shows "ring_ok ring' \<and> rg_channels ring' = rg_channels ring \<and> rg_capacity ring' = rg_capacity ring \<and>
    queue_of ring' = queue_of ring @ (if 0 < n \<and> good_frame L f then take (cap_of ring - 1 - length (queue_of ring)) (frame_steps m f) else []) \<and>
    rx_frames_ok rx' = rx_frames_ok rx + (if 0 < n \<and> good_frame L f then 1 else 0) \<and>
    rx_frames_bad rx' = rx_frames_bad rx + (if 0 < n \<and> reac_frame_is_reac L f \<and> \<not> good_frame L f then 1 else 0)"
proof (cases "0 < n \<and> reac_frame_is_reac L f")
  case False
  then show ?thesis using assms(4,7) by (auto simp: rx_handle_def f_def good_frame_def split: if_splits)
next
  case True
  define c where "c = reac_frame_counter L fr"
  obtain rx1 where r1: "rx_frames_ok rx1 = rx_frames_ok rx" "rx_frames_bad rx1 = rx_frames_bad rx"
      and step: "do { (rx, win) \<leftarrow> update_ppm L rx1 win c now2; (rx, ring) \<leftarrow> feed_frame L rx ring m fr (nat n); Some (rx, ring) }
        = Some (rx', ring')"
  proof (rule that)
    let ?lv = "if (rc_kind (rx_cfg rx) \<noteq> REAC_RX_LIVE \<and> rc_pcap_realtime (rx_cfg rx) \<and> ts \<noteq> 0) \<and> rl_wall_first_ns lv = 0
        then lv\<lparr>rl_wall_first_ns := now1, rl_pcap_first_ts := ts\<rparr> else lv"
    let ?rx1 = "if rl_have_counter ?lv \<and> reac_counter_gap L (rl_last_counter ?lv) c \<noteq> 0
        then rx\<lparr>rx_counter_gaps := rx_counter_gaps rx + ucast (reac_counter_gap L (rl_last_counter ?lv) c)\<rparr> else rx"
    show "rx_frames_ok ?rx1 = rx_frames_ok rx" "rx_frames_bad ?rx1 = rx_frames_bad rx" by simp_all
    show "do { (rx, win) \<leftarrow> update_ppm L ?rx1 win c now2; (rx, ring) \<leftarrow> feed_frame L rx ring m fr (nat n); Some (rx, ring) } = Some (rx', ring')"
      using assms(7) True unfolding rx_handle_def Let_def f_def c_def
      by (auto simp: bind_eq_Some_conv split: if_splits)
  qed
  obtain rx2 win2 where u: "update_ppm L rx1 win c now2 = Some (rx2, win2)" using step by (rule bind_some2)
  obtain ring2 where fd: "feed_frame L rx2 ring m fr (nat n) = Some (if well_formed fr (nat n) then rx2\<lparr>rx_frames_ok := rx_frames_ok rx2 + 1\<rparr>
            else rx2\<lparr>rx_frames_bad := rx_frames_bad rx2 + 1\<rparr>, ring2)" "ring_ok ring2" "rg_channels ring2 = rg_channels ring"
      "rg_capacity ring2 = rg_capacity ring"
      "queue_of ring2 = queue_of ring @ (if well_formed fr (nat n) then take (cap_of ring - 1 - length (queue_of ring)) (frame_steps m fr) else [])"
    using feed_frame_eq[OF assms(1-6), of rx2] by blast
  have len: "length f = nat n" using assms(3) by (simp add: f_def)
  have wf: "well_formed f (length f) = well_formed fr (nat n)" using assms(3) unfolding len f_def by (auto simp: well_formed_def)
  have steps: "frame_steps m f = frame_steps m fr" if "well_formed fr (nat n)"
    unfolding f_def by (rule frame_steps_take[OF assms(2)]) (use that in \<open>simp add: well_formed_def\<close>)
  show ?thesis
    using step u fd True wf steps r1 update_ppm_keeps[OF u] by (auto simp: good_frame_def split: if_splits)
qed

subsection \<open>The thread\<close>

text \<open>What a consumer may do to the ring between two rounds: take the oldest time steps out of it.\<close>

definition consumer :: "(f32 reac_ring \<Rightarrow> f32 reac_ring) \<Rightarrow> bool" where
  "consumer act \<longleftrightarrow> (\<forall>r. ring_ok r \<longrightarrow> ring_ok (act r) \<and> rg_channels (act r) = rg_channels r \<and> rg_capacity (act r) = rg_capacity r \<and>
     (\<exists>k. queue_of (act r) = drop k (queue_of r)))"

lemma consumer_trim: "consumer (\<lambda>r. snd (reac_ring_trim r keep))"
  unfolding consumer_def
proof (intro allI impI)
  fix r :: "f32 reac_ring" assume r: "ring_ok r"
  show "ring_ok (snd (reac_ring_trim r keep)) \<and> rg_channels (snd (reac_ring_trim r keep)) = rg_channels r \<and>
      rg_capacity (snd (reac_ring_trim r keep)) = rg_capacity r \<and> (\<exists>k. queue_of (snd (reac_ring_trim r keep)) = drop k (queue_of r))"
    using ring_trim_eq[OF r, of keep] by auto
qed

lemma consumer_id: "consumer id"
  by (auto simp: consumer_def intro: exI[of _ 0])

lemma capture_next_empty:
  assumes "documented_inbox K pending" and "0 \<le> cap_fd c" and "pending w = []"
  shows "\<exists>n w'. reac_capture_next K c buf cap w = Some (n, buf, w') \<and> n \<le> 0 \<and> pending w' = []"
proof -
  obtain e w' where "os_recv K (cap_fd c) cap w = (Inl e, w')" "pending w' = []" using documented_inboxD(1)[OF assms(1,3)] by blast
  then show ?thesis using assms(2) by (subst reac_capture_next.simps) auto
qed

text \<open>
  What a run of the thread over the frames \<open>fs\<close> has done: the frames still to come are the rest, and the queue, the counters and the descriptors
  are as they should be.  \<open>idle\<close> tells that the consumer took nothing meanwhile.
\<close>

definition fed ::
  "libreac \<Rightarrow> reac_mode \<Rightarrow> ('w \<Rightarrow> byte list list) \<Rightarrow> ('w \<Rightarrow> int set) \<Rightarrow> bool \<Rightarrow> byte list list \<Rightarrow> 'w rx_thread \<Rightarrow> 'w rx_thread \<Rightarrow> bool" where
  "fed L m pending fds idle fs t t' \<longleftrightarrow> (let steps = concat (map (frame_steps m) (filter (good_frame L) fs)) in
     arriving 1556 (pending (th_world t)) = fs @ arriving 1556 (pending (th_world t')) \<and>
     fds (th_world t') = fds (th_world t) \<and> th_src t' = th_src t \<and> length (th_frame t') = length (th_frame t) \<and>
     ring_ok (th_ring t') \<and> rg_channels (th_ring t') = rg_channels (th_ring t) \<and> rg_capacity (th_ring t') = rg_capacity (th_ring t) \<and>
     subseq (queue_of (th_ring t')) (queue_of (th_ring t) @ steps) \<and>
     (idle \<longrightarrow> queue_of (th_ring t') = take (cap_of (th_ring t) - 1) (queue_of (th_ring t) @ steps)) \<and>
     rx_frames_ok (th_rx t') = rx_frames_ok (th_rx t) + of_nat (length (filter (good_frame L) fs)) \<and>
     rx_frames_bad (th_rx t') = rx_frames_bad (th_rx t) + of_nat (length (filter (\<lambda>f. reac_frame_is_reac L f \<and> \<not> good_frame L f) fs)))"

lemma fed_refl: "ring_ok (th_ring t) \<Longrightarrow> fed L m pending fds idle [] t t"
  using level_less[of "th_ring t"] by (auto simp: fed_def Let_def)

lemma fed_trans:
  assumes a: "fed L m pending fds idle fs t t1" and b: "fed L m pending fds idle gs t1 t2"
  shows "fed L m pending fds idle (fs @ gs) t t2"
proof -
  let ?s = "\<lambda>fs. concat (map (frame_steps m) (filter (good_frame L) fs))"
  note A = a[unfolded fed_def Let_def] and B = b[unfolded fed_def Let_def]
  have tk: "take n (take n u @ v) = take n (u @ v)" for n and u v :: "f32 list list" by (cases "n \<le> length u") simp_all
  have "subseq (queue_of (th_ring t1) @ ?s gs) ((queue_of (th_ring t) @ ?s fs) @ ?s gs)"
    using A by (intro list_emb_append_mono) auto
  then have "subseq (queue_of (th_ring t2)) (queue_of (th_ring t) @ ?s (fs @ gs))"
    using B subseq_order.trans by fastforce
  moreover have "idle \<longrightarrow> queue_of (th_ring t2) = take (cap_of (th_ring t) - 1) (queue_of (th_ring t) @ ?s (fs @ gs))"
  proof
    assume idle
    then have "queue_of (th_ring t2) = take (cap_of (th_ring t) - 1) (take (cap_of (th_ring t) - 1) (queue_of (th_ring t) @ ?s fs) @ ?s gs)"
      using A B by argo
    then show "queue_of (th_ring t2) = take (cap_of (th_ring t) - 1) (queue_of (th_ring t) @ ?s (fs @ gs))" unfolding tk by simp
  qed
  ultimately show ?thesis using A B by (simp add: fed_def Let_def)
qed

text \<open>The consumer's turn.\<close>

lemma fed_consumer:
  assumes "consumer act" and "ring_ok (th_ring t)" and "idle \<longrightarrow> act = id"
  shows "fed L m pending fds idle [] t (t\<lparr>th_ring := act (th_ring t)\<rparr>)"
  using assms level_less[of "th_ring t"] suffix_imp_subseq[OF suffix_drop] unfolding consumer_def fed_def Let_def by fastforce

text \<open>One round on a live interface: at most one of the frames that arrive is taken.\<close>

lemma live_round:
  assumes geo: "documented_geometry L" and inbox: "documented_inbox K pending" "documented_trace K sent" and fds: "documented_fds K fds"
    and m: "wire_mode m" and src: "th_src t = LiveSource cap" "0 \<le> cap_fd cap" "length (th_frame t) = 1556"
    and ring: "ring_ok (th_ring t)" "chans_of (th_ring t) = 40" "12 < cap_of (th_ring t)"
    and run: "rx_round K lb fopen L m clk t = Some t'"
  shows "\<exists>fs. fed L m pending fds idle fs t t' \<and> length (pending (th_world t')) \<le> length (pending (th_world t)) - 1"
proof -
  have size: "REAC_FRAME_BYTES L + 64 = 1556" using geo by (simp add: geometry_simps)
  have full: "length (queue_of (th_ring t)) \<le> cap_of (th_ring t) - 1" using level_less[OF ring(1)] by simp
  obtain n frame1 w1 rx' ring' lv' win' tgt where
    cn: "reac_capture_next K cap (th_frame t) 1556 (th_world t) = Some (n, frame1, w1)" and
    h: "rx_handle L m (th_rx t) (th_ring t) (th_locals t) (th_win t) frame1 n 0 (fst clk) (snd clk) = Some (rx', ring', lv', win', tgt)" and
    t': "t' = \<lparr>th_rx = rx', th_ring = ring', th_locals = lv', th_win = win', th_src = LiveSource cap, th_frame = frame1, th_world = w1\<rparr>"
    using run src(1) size by (auto simp: rx_round_def rx_live_round_def bind_eq_Some_conv)
  have taken: "length frame1 = 1556 \<and> length (pending w1) \<le> length (pending (th_world t)) - 1 \<and>
      (if n > 0 then nat n \<le> length frame1 \<and> arriving 1556 (pending (th_world t)) = take (nat n) frame1 # arriving 1556 (pending w1)
       else arriving 1556 (pending (th_world t)) = arriving 1556 (pending w1))"
  proof (cases "pending (th_world t) = []")
    case True
    then show ?thesis using capture_next_empty[OF inbox(1) src(2) True, of "th_frame t" 1556] cn src(3) by (auto simp: arriving_def)
  next
    case False
    then show ?thesis using capture_next_arriving[OF inbox src(2) _ False, of 1556 "th_frame t"] cn src(3) by auto
  qed
  let ?fs = "if n > 0 then [take (nat n) frame1] else []"
  have fit: "nat n \<le> length frame1" using taken by (cases "n > 0") auto
  note H = rx_handle_spec[OF geo m fit ring h]
  have q: "queue_of ring' = take (cap_of (th_ring t) - 1) (queue_of (th_ring t) @ concat (map (frame_steps m) (filter (good_frame L) ?fs)))"
    using H full by (auto split: if_splits)
  then have "subseq (queue_of ring') (queue_of (th_ring t) @ concat (map (frame_steps m) (filter (good_frame L) ?fs)))"
    by (simp only: prefix_imp_subseq[OF take_is_prefix])
  then have "fed L m pending fds idle ?fs t t'"
    unfolding fed_def Let_def t' using capture_next_fds[OF cn fds] taken H q src(1,3) by auto
  then show ?thesis using taken t' by auto
qed

lemma live_rounds:
  assumes env: "documented_geometry L" "documented_inbox K pending" "documented_trace K sent" "documented_fds K fds" "wire_mode m"
    and src: "th_src t = LiveSource cap" "0 \<le> cap_fd cap" "length (th_frame t) = 1556"
    and ring: "ring_ok (th_ring t)" "chans_of (th_ring t) = 40" "12 < cap_of (th_ring t)"
    and sched: "\<forall>x \<in> set sched. consumer (snd x)" "idle \<longrightarrow> (\<forall>x \<in> set sched. snd x = id)"
    and run: "rx_rounds K lb fopen L m sched t = Some t'"
  shows "\<exists>fs. fed L m pending fds idle fs t t' \<and> length (pending (th_world t')) \<le> length (pending (th_world t)) - length sched"
  using src(1,3) ring sched run
proof (induction sched arbitrary: t)
  case Nil
  then show ?case using fed_refl[of t] by (intro exI[of _ "[]"]) simp
next
  case (Cons x xs)
  let ?t = "t\<lparr>th_ring := snd x (th_ring t)\<rparr>"
  obtain t1 where t1: "rx_round K lb fopen L m (fst x) ?t = Some t1" "rx_rounds K lb fopen L m xs t1 = Some t'"
    using Cons.prems(8) by (auto simp: bind_eq_Some_conv)
  have c: "fed L m pending fds idle [] t ?t" using Cons.prems(3,6,7) by (intro fed_consumer) auto
  have r: "th_src ?t = LiveSource cap" "length (th_frame ?t) = 1556" "ring_ok (th_ring ?t)" "chans_of (th_ring ?t) = 40" "12 < cap_of (th_ring ?t)"
    using Cons.prems(1,2,4,5) c unfolding fed_def Let_def by simp_all
  obtain fs where one: "fed L m pending fds idle fs ?t t1" "length (pending (th_world t1)) \<le> length (pending (th_world ?t)) - 1"
    using live_round[OF env(1-5) r(1) src(2) r(2-5) t1(1), of idle] by blast
  have "th_src t1 = LiveSource cap" "length (th_frame t1) = 1556" "ring_ok (th_ring t1)" "chans_of (th_ring t1) = 40" "12 < cap_of (th_ring t1)"
    using r one(1) unfolding fed_def Let_def by simp_all
  from Cons.IH[OF this _ _ t1(2)] Cons.prems(6,7) obtain gs where
    rest: "fed L m pending fds idle gs t1 t'" "length (pending (th_world t')) \<le> length (pending (th_world t1)) - length xs" by auto
  show ?case using fed_trans[OF fed_trans[OF c one(1)] rest(1)] one(2) rest(2) by (intro exI[of _ "[] @ fs @ gs"]) simp
qed

text \<open>
  Frames as a packet socket bound to the ethertype delivers them: of that type and at least as long as the header.  What the feeder observes of
  them is the counter of each frame libreac accepts, with the clock reading of the round that takes it.
\<close>

definition link_frame :: "byte list \<Rightarrow> bool" where
  "link_frame f \<longleftrightarrow> reac_ethertype f \<and> 16 \<le> length f"

definition heard :: "libreac \<Rightarrow> byte list list \<Rightarrow> (u64 \<times> u64) list \<Rightarrow> (u16 \<times> u64) list" where
  "heard L fs clks = map (\<lambda>(f, clk). (frame_counter f, snd clk))
     (filter (\<lambda>(f, clk). reac_frame_is_reac L (take 1556 f)) (zip fs clks))"

lemma heard_simps [simp]:
  "heard L [] clks = []" "heard L fs [] = []"
  "heard L (f # fs) (clk # clks)
     = (if reac_frame_is_reac L (take 1556 f) then (frame_counter f, snd clk) # heard L fs clks else heard L fs clks)"
  by (simp_all add: heard_def)

lemma update_ppm_rate: "rx_sample_rate rx1 = rx_sample_rate rx \<Longrightarrow>
    map_option snd (update_ppm L rx1 win c now) = map_option snd (update_ppm L rx win c now)"
  by (auto simp: update_ppm_def Let_def split: Option.bind_splits)

text \<open>A frame is handled wherever the clock estimate is defined.\<close>

lemma rx_handle_progress:
  assumes "documented_geometry L" and "wire_mode m" and "nat n \<le> length fr" and "ring_ok ring" and "chans_of ring = 40" and "12 < cap_of ring"
    and win: "0 < n \<and> reac_frame_is_reac L (take (nat n) fr) \<Longrightarrow>
      \<exists>rx1 win1. update_ppm L rx win (reac_frame_counter L fr) now2 = Some (rx1, win1) \<and> P win1"
    and skip: "\<not> (0 < n \<and> reac_frame_is_reac L (take (nat n) fr)) \<Longrightarrow> P win"
  shows "\<exists>rx' ring' lv' win' tg. rx_handle L m rx ring lv win fr n ts now1 now2 = Some (rx', ring', lv', win', tg) \<and> P win' \<and>
    rx_sample_rate rx' = rx_sample_rate rx"
proof (cases "0 < n \<and> reac_frame_is_reac L (take (nat n) fr)")
  case False
  then show ?thesis using skip by (auto simp: rx_handle_def)
next
  case True
  then have n: "\<not> n \<le> 0" and f: "\<not> \<not> reac_frame_is_reac L (take (nat n) fr)" by simp_all
  obtain rx0 win1 where u0: "update_ppm L rx win (reac_frame_counter L fr) now2 = Some (rx0, win1)" "P win1" using win[OF True] by blast
  have D: "\<exists>rx' ring' lv' win' t'. do { (rx, win) \<leftarrow> update_ppm L rx1 win (reac_frame_counter L fr) now2;
        (rx, ring) \<leftarrow> feed_frame L rx ring m fr (nat n); Some (rx, ring, lv1, win, tg) }
      = Some (rx', ring', lv', win', t') \<and> P win' \<and> rx_sample_rate rx' = rx_sample_rate rx"
    if r: "rx_sample_rate rx1 = rx_sample_rate rx" for rx1 lv1 and tg :: "u64 option"
  proof -
    obtain rx2 where u: "update_ppm L rx1 win (reac_frame_counter L fr) now2 = Some (rx2, win1)"
      using update_ppm_rate[OF r, of L win "reac_frame_counter L fr" now2] u0(1) by auto
    show ?thesis
      using u u0(2) r update_ppm_keeps[OF u] feed_frame_eq[OF assms(1-6), of rx2] by fastforce
  qed
  show ?thesis unfolding rx_handle_def Let_def if_not_P[OF n] if_not_P[OF f] by (rule D) simp
qed

lemma capture_next_link:
  assumes "documented_inbox K pending" and "0 \<le> cap_fd c" and "cap \<le> length buf" and "pending w = f # fs" and "reac_ethertype (take cap f)"
  shows "\<exists>w'. reac_capture_next K c buf cap w = Some (int (length (take cap f)), blit buf 0 (take cap f), w') \<and> pending w' = fs"
proof -
  obtain w' where r: "os_recv K (cap_fd c) cap w = (Inr (take cap f), w')" "pending w' = fs"
    using documented_inboxD(2)[OF assms(1,4)] by blast
  then show ?thesis using capture_round[OF assms(2) r(1) _ assms(3)] assms(5) by simp
qed

text \<open>A round on a steady link is defined.\<close>

lemma live_round_progress:
  assumes env: "documented_geometry L" "documented_counter L" "documented_inbox K pending" "wire_mode m"
    and src: "th_src t = LiveSource cap" "0 \<le> cap_fd cap" "length (th_frame t) = 1556"
    and ring: "ring_ok (th_ring t)" "chans_of (th_ring t) = 40" "12 < cap_of (th_ring t)"
    and rate: "reac_rate (rx_sample_rate (th_rx t))" and st: "steady L (rx_sample_rate (th_rx t)) obs"
    and link: "\<forall>f \<in> set (pending (th_world t)). link_frame f"
    and obs: "obs = before @ heard L (pending (th_world t)) (clk # clks)" "tracks L obs (length before) (th_win t)"
  shows "\<exists>t' before'. rx_round K lb fopen L m clk t = Some t' \<and> pending (th_world t') = tl (pending (th_world t)) \<and>
    rx_sample_rate (th_rx t') = rx_sample_rate (th_rx t) \<and>
    obs = before' @ heard L (pending (th_world t')) clks \<and> tracks L obs (length before') (th_win t')"
proof (cases "pending (th_world t)")
  case Nil
  obtain n w' where c: "reac_capture_next K cap (th_frame t) 1556 (th_world t) = Some (n, th_frame t, w')" "n \<le> 0" "pending w' = []"
    using capture_next_empty[OF env(3) src(2) Nil, of "th_frame t" 1556] by blast
  then show ?thesis
    using obs Nil src(1) env(1) by (auto simp: rx_round_def rx_live_round_def rx_handle_def geometry_simps)
next
  case (Cons f fs)
  let ?f = "take 1556 f" and ?fr = "blit (th_frame t) 0 (take 1556 f)"
  have f: "reac_ethertype f" "16 \<le> length f" using link Cons by (simp_all add: link_frame_def)
  obtain w' where c: "reac_capture_next K cap (th_frame t) 1556 (th_world t) = Some (int (length ?f), ?fr, w')" "pending w' = fs"
    using capture_next_link[OF env(3) src(2) _ Cons, of 1556 "th_frame t"] src(3) f by (auto simp: reac_ethertype_def)
  have fit: "nat (int (length ?f)) \<le> length ?fr" using src(3) by simp
  have tk: "take (nat (int (length ?f))) ?fr = ?f" by (simp only: nat_int take_blit)
  have ctr: "reac_frame_counter L ?fr = frame_counter f"
    using env(2) f(2) src(3) by (simp add: documented_counter_def frame_counter_def nth_blit)
  let ?hit = "reac_frame_is_reac L ?f"
  let ?b = "if ?hit then before @ [(frame_counter f, snd clk)] else before"
  have k: "obs ! length before = (frame_counter f, snd clk)" "length before < length obs" if ?hit
    using obs(1) Cons that by simp_all
  have "\<exists>rx' ring' lv' win' tg. rx_handle L m (th_rx t) (th_ring t) (th_locals t) (th_win t) ?fr (int (length ?f)) 0 (fst clk) (snd clk)
      = Some (rx', ring', lv', win', tg) \<and> tracks L obs (length ?b) win' \<and> rx_sample_rate rx' = rx_sample_rate (th_rx t)"
  proof (rule rx_handle_progress[OF env(1,4) fit ring])
    assume "0 < int (length ?f) \<and> reac_frame_is_reac L (take (nat (int (length ?f))) ?fr)"
    then have hit: ?hit unfolding tk by blast
    from update_ppm_progress[OF env(1) rate st k(2)[OF hit] obs(2)]
    show "\<exists>rx1 win1. update_ppm L (th_rx t) (th_win t) (reac_frame_counter L ?fr) (snd clk) = Some (rx1, win1) \<and> tracks L obs (length ?b) win1"
      using hit k(1)[OF hit] ctr by simp
  next
    assume "\<not> (0 < int (length ?f) \<and> reac_frame_is_reac L (take (nat (int (length ?f))) ?fr))"
    then have "\<not> ?hit" unfolding tk using f(2) by auto
    then show "tracks L obs (length ?b) (th_win t)" using obs(2) by simp
  qed
  then obtain rx' ring' lv' win' tg where h: "rx_handle L m (th_rx t) (th_ring t) (th_locals t) (th_win t) ?fr (int (length ?f)) 0 (fst clk) (snd clk)
      = Some (rx', ring', lv', win', tg)" "tracks L obs (length ?b) win'" "rx_sample_rate rx' = rx_sample_rate (th_rx t)" by blast
  have "rx_round K lb fopen L m clk t = Some \<lparr>th_rx = rx', th_ring = ring', th_locals = lv', th_win = win', th_src = LiveSource cap,
      th_frame = ?fr, th_world = w'\<rparr>"
    using h(1) c(1) src(1) env(1) by (simp add: rx_round_def rx_live_round_def geometry_simps del: length_take)
  moreover have "obs = ?b @ heard L fs clks" using obs(1) Cons by simp
  ultimately show ?thesis using h(2,3) c(2) Cons by (metis list.sel(3) rx_thread.select_convs(1,4,7))
qed

lemma live_rounds_progress:
  assumes env: "documented_geometry L" "documented_counter L" "documented_inbox K pending" "documented_trace K sent" "documented_fds K fds" "wire_mode m"
    and src: "th_src t = LiveSource cap" "0 \<le> cap_fd cap" "length (th_frame t) = 1556"
    and ring: "ring_ok (th_ring t)" "chans_of (th_ring t) = 40" "12 < cap_of (th_ring t)"
    and sched: "\<forall>x \<in> set sched. consumer (snd x)"
    and rate: "reac_rate (rx_sample_rate (th_rx t))" and st: "steady L (rx_sample_rate (th_rx t)) obs"
    and link: "\<forall>f \<in> set (pending (th_world t)). link_frame f"
    and obs: "obs = before @ heard L (pending (th_world t)) (map fst sched)" "tracks L obs (length before) (th_win t)"
  shows "\<exists>t'. rx_rounds K lb fopen L m sched t = Some t'"
  using src(1,3) ring sched rate st link obs
proof (induction sched arbitrary: t before)
  case (Cons x xs)
  let ?t = "t\<lparr>th_ring := snd x (th_ring t)\<rparr>"
  have c: "ring_ok (th_ring ?t)" "chans_of (th_ring ?t) = 40" "12 < cap_of (th_ring ?t)" using Cons.prems(3-6) by (auto simp: consumer_def)
  obtain t1 b1 where one: "rx_round K lb fopen L m (fst x) ?t = Some t1" "pending (th_world t1) = tl (pending (th_world t))"
      "rx_sample_rate (th_rx t1) = rx_sample_rate (th_rx t)" "obs = b1 @ heard L (pending (th_world t1)) (map fst xs)" "tracks L obs (length b1) (th_win t1)"
    using live_round_progress[OF env(1-3,6) _ src(2) _ c, where obs = obs and before = before and clk = "fst x" and clks = "map fst xs" and lb = lb and fopen = fopen]
      Cons.prems(1,2,7-) by auto
  obtain fs where "fed L m pending fds False fs ?t t1"
    using live_round[OF env(1,3-6) _ src(2) _ c one(1), of False] Cons.prems(1,2) by auto
  then have t1: "th_src t1 = LiveSource cap" "length (th_frame t1) = 1556" "ring_ok (th_ring t1)" "chans_of (th_ring t1) = 40" "12 < cap_of (th_ring t1)"
    using c Cons.prems(1,2) unfolding fed_def Let_def by simp_all
  have "\<forall>f \<in> set (pending (th_world t1)). link_frame f" using Cons.prems(9) one(2) by (metis list.sel(2) list.set_sel(2))
  from Cons.IH[OF t1 _ _ _ this one(4,5)] Cons.prems(6-8) one show ?case by simp
qed simp

text \<open>
  C10.  The feeder thread carries a live link into the ring.  On an interface that can be opened, on which the frames \<open>pending\<close> arrive with a counter that
  keeps to the rate, and over a schedule with at least as many rounds as frames, a run of the thread is defined and ends.  Every frame has then been taken; the
  good ones are counted as good and the others libreac accepts as bad; and the time steps in the ring are a subsequence, in order, of what it held and the
  time steps of the good frames: none is repeated, reordered or invented, whatever a consumer takes out meanwhile.  With no consumer they are the oldest of
  them, as many as fit.  The interface is closed again.
\<close>

theorem rx_loop_feeds:
  assumes env: "documented_geometry L" "documented_modes L" "documented_counter L" "documented_inbox K pending" "documented_trace K sent" "documented_fds K fds"
    and live: "rc_kind (rx_cfg rx) = REAC_RX_LIVE" "fst (reac_capture_open K (rc_source (rx_cfg rx)) w) = 0"
    and ring: "ring_ok ring" "chans_of ring = 40" "12 < cap_of ring" and win: "\<not> win_have_last win" "win_frames win = 0"
    and sched: "\<forall>x \<in> set sched. consumer (snd x)" "length (pending w) \<le> length sched"
    and link: "\<forall>f \<in> set (pending w). link_frame f" "reac_rate (rx_sample_rate rx)" "steady L (rx_sample_rate rx) (heard L (pending w) (map fst sched))"
    and fs: "fs = map (take 1556) (pending w)" and steps: "steps = concat (map (frame_steps (reac_mode_for L (rx_sample_rate rx))) (filter (good_frame L) fs))"
  shows "\<exists>rx' ring' win' w'. rx_loop K lb fopen L sched rx ring win w = Some (rx', ring', win', w') \<and>
    pending w' = [] \<and> fds w' = fds w \<and> ring_ok ring' \<and> subseq (queue_of ring') (queue_of ring @ steps) \<and>
    ((\<forall>x \<in> set sched. snd x = id) \<longrightarrow> queue_of ring' = take (cap_of ring - 1) (queue_of ring @ steps)) \<and>
    rx_frames_ok rx' = rx_frames_ok rx + of_nat (length (filter (good_frame L) fs)) \<and>
    rx_frames_bad rx' = rx_frames_bad rx + of_nat (length (filter (\<lambda>f. reac_frame_is_reac L f \<and> \<not> good_frame L f) fs))"
proof -
  let ?m = "reac_mode_for L (rx_sample_rate rx)" and ?idle = "\<forall>x \<in> set sched. snd x = id"
  have m: "wire_mode ?m" using env(2) by (simp add: wire_mode_def documented_modes_def)
  have arr: "fs = arriving 1556 (pending w)" unfolding fs arriving_def using link(1)
    by (intro filter_True[symmetric]) (auto simp: link_frame_def reac_ethertype_def)
  obtain cap w1 where o: "reac_capture_open K (rc_source (rx_cfg rx)) w = (0, cap, w1)" using live(2) by (metis prod.collapse)
  define w2 where "w2 = snd (reac_capture_set_nonblock K cap False w1)"
  note kp = documented_inboxD(4)[OF env(4)]
  have w2: "pending w2 = pending w" "fds w2 = fds w1"
    using capture_control(1)[OF kp o] capture_control(2)[OF kp] set_nonblock_fds[OF env(6)] by (simp_all add: w2_def)
  have c: "0 \<le> cap_fd cap" "cap_fd cap \<notin> fds w" "fds w1 = insert (cap_fd cap) (fds w)"
    using capture_fds[OF env(6) o prod.collapse[symmetric]] by simp_all
  define t where "t = \<lparr>th_rx = rx, th_ring = ring,
      th_locals = \<lparr>rl_last_counter = 0, rl_have_counter = False, rl_pcap_first_ts = 0, rl_wall_first_ns = 0\<rparr>,
      th_win = win, th_src = LiveSource cap, th_frame = replicate (REAC_FRAME_BYTES L + 64) 0, th_world = w2\<rparr>"
  have t: "th_src t = LiveSource cap" "length (th_frame t) = 1556" "th_ring t = ring" "th_rx t = rx" "pending (th_world t) = pending w" "th_win t = win"
    using env(1) w2(1) by (simp_all add: t_def geometry_simps)
  obtain t' where t': "rx_rounds K lb fopen L ?m sched t = Some t'"
    using live_rounds_progress[OF env(1,3-6) m t(1) c(1) t(2), where before = "[]" and sched = sched and lb = lb and fopen = fopen and obs = "heard L (pending w) (map fst sched)"] ring sched(1) link win
    unfolding t by (auto simp: tracks_def)
  let ?w = "snd (reac_capture_close K cap (th_world t'))"
  obtain gs where f: "fed L ?m pending fds ?idle gs t t'" "length (pending (th_world t')) \<le> length (pending (th_world t)) - length sched"
    using live_rounds[OF env(1,4-6) m t(1) c(1) t(2) _ _ _ sched(1) _ t', where idle = ?idle] ring unfolding t by auto
  have p: "pending (th_world t') = []" using f(2) sched(2) t(5) by simp
  then have gs: "gs = fs" using f(1) t(5) by (simp add: fed_def Let_def arr arriving_def)
  have src: "th_src t' = LiveSource cap" "fds (th_world t') = insert (cap_fd cap) (fds w)"
    using f(1) w2(2) c(3) by (simp_all add: fed_def Let_def t_def)
  have run: "rx_loop K lb fopen L sched rx ring win w = Some (th_rx t', th_ring t', th_win t', ?w)"
    using t' live(1) o src(1) by (simp add: rx_loop_def rx_source_open_def case_prod_unfold t_def w2_def rx_source_close_def)
  have "fds ?w = fds w" using src(2) c(1,2) documented_fdsD(3)[OF env(6)] by (simp add: reac_capture_close_def)
  moreover have "pending ?w = []" using capture_control(3)[OF kp] p by simp
  ultimately show ?thesis using run f(1) unfolding gs steps by (auto simp: fed_def Let_def t(3,4))
qed

text \<open>Two frames arrive 300 milliseconds apart, so that a window of the estimate is complete; the consumer is idle.\<close>

definition sample_rx :: reac_rx where
  "sample_rx = rx_start\<lparr>rx_cfg := \<lparr>rc_kind = REAC_RX_LIVE, rc_source = ''reac0'', rc_forced_rate = 0, rc_pcap_realtime = True\<rparr>\<rparr>"

definition sample_next :: "byte list" where
  "sample_next = sample_frame[14 := 6]"

lemma sample_next_facts [simp]: "length sample_next = 1492" "frame_counter sample_next = 6" "well_formed sample_next 1492"
  by (simp_all add: sample_next_def sample_frame_def well_formed_def frame_counter_def nth_append)

lemma sample_link [simp]: "link_frame sample_frame" "link_frame sample_next" "good_frame libreac_doc sample_frame" "good_frame libreac_doc sample_next"
  by (simp_all add: link_frame_def reac_ethertype_def good_frame_def well_formed_def sample_frame_def sample_next_def libreac_doc_def nth_append)

lemma sample_rx_facts [simp]: "rc_kind (rx_cfg sample_rx) = REAC_RX_LIVE" "rc_source (rx_cfg sample_rx) = ''reac0''" "rx_sample_rate sample_rx = 48000"
    "rx_frames_ok sample_rx = 0" "rx_frames_bad sample_rx = 0" "reac_rate 48000"
    "reac_mode_for libreac_doc 48000 = mode_48k"
  by (simp_all add: sample_rx_def rx_start_def reac_rate_def libreac_doc_def)

lemma sample_steady: "steady libreac_doc 48000 (heard libreac_doc [sample_frame, sample_next] [(0, 0), (0, 300000000)])"
proof -
  have "reac_frame_is_reac libreac_doc sample_frame" "reac_frame_is_reac libreac_doc sample_next" using sample_link(3,4) unfolding good_frame_def by blast+
  then show ?thesis by (simp add: steady_def advance_def less_Suc_eq libreac_doc_def[THEN arg_cong, of reac_counter_gap])
qed

theorem rx_loop_feeds_witness:
  "\<exists>rx' ring' win' w'. rx_loop log_os 64 (\<lambda>_. None) libreac_doc [((0, 0), id), ((0, 300000000), id)] sample_rx ring16
      \<lparr>win_start_ns = 0, win_frames = 0, win_last_counter = 0, win_have_last = False\<rparr>
      (log_start\<lparr>lw_inbox := [sample_frame, sample_next]\<rparr>) = Some (rx', ring', win', w') \<and>
    queue_of ring' = take 15 (frame_steps mode_48k sample_frame @ frame_steps mode_48k sample_next) \<and>
    rx_frames_ok rx' = 2 \<and> rx_frames_bad rx' = 0 \<and> lw_fds w' = {}"
proof -
  let ?w = "log_start\<lparr>lw_inbox := [sample_frame, sample_next]\<rparr>" and ?sched = "[((0, 0), id), ((0, 300000000), id)] :: schedule"
  let ?win = "\<lparr>win_start_ns = 0, win_frames = 0, win_last_counter = 0, win_have_last = False\<rparr>"
  have o: "fst (reac_capture_open log_os ''reac0'' ?w) = 0"
    by (simp add: reac_capture_open_def log_start_def ifr_name_def IFNAMSIZ_def)
  from rx_loop_feeds[where L = libreac_doc and K = log_os and pending = lw_inbox and sent = lw_sent and fds = lw_fds and w = ?w and sched = ?sched
      and ring = ring16 and rx = sample_rx and win = ?win and lb = 64 and fopen = "\<lambda>_. None", OF _ _ _ _ _ _ _ _ _ _ _ _ _ _ _ _ _ _ refl refl]
  have "\<exists>rx' ring' win' w'. rx_loop log_os 64 (\<lambda>_. None) libreac_doc ?sched sample_rx ring16 ?win ?w = Some (rx', ring', win', w') \<and>
      lw_fds w' = {} \<and> queue_of ring' = take 15 (frame_steps mode_48k sample_frame @ frame_steps mode_48k sample_next) \<and>
      rx_frames_ok rx' = 2 \<and> rx_frames_bad rx' = 0"
    using o sample_steady by (simp add: consumer_id log_start_def del: heard_simps) blast
  then show ?thesis by blast
qed

end
