(* ===== verification/C_String.thy ===== *)
theory C_String
  imports Reac_Prelude "HOL-Library.Char_ord"
begin

text \<open>
  The fragment of the C string library the daemon uses: \<open>snprintf\<close> with \<open>%s\<close>, \<open>%d\<close> and \<open>%u\<close>, \<open>strlen\<close>,
  \<open>strrchr\<close>, \<open>atoi\<close> and the unsigned conversion of \<open>sscanf\<close>.  Argument strings are lists of
  characters without the terminator; a text written to memory is its bytes followed by a zero byte.
\<close>

subsection \<open>Decimal numerals\<close>

definition digit :: "nat \<Rightarrow> char" where
  "digit d = char_of (48 + d)"

fun decimal :: "nat \<Rightarrow> string" where
  "decimal n = (if n < 10 then [digit n] else decimal (n div 10) @ [digit (n mod 10)])"

declare decimal.simps [simp del]

definition decimal_int :: "int \<Rightarrow> string" where
  "decimal_int i = (if i < 0 then CHR ''-'' # decimal (nat (- i)) else decimal (nat i))"

definition is_digit :: "char \<Rightarrow> bool" where
  "is_digit c \<longleftrightarrow> 48 \<le> (of_char c :: nat) \<and> (of_char c :: nat) \<le> 57"

definition digit_value :: "char \<Rightarrow> nat" where
  "digit_value c = of_char c - 48"

definition digits_value :: "string \<Rightarrow> nat" where
  "digits_value ds = foldl (\<lambda>a c. a * 10 + digit_value c) 0 ds"

lemma digit_of_char [simp]: "d < 10 \<Longrightarrow> (of_char (digit d) :: nat) = 48 + d"
  by (simp add: digit_def of_char_of)

lemma digit_facts [simp]: "d < 10 \<Longrightarrow> is_digit (digit d)" "d < 10 \<Longrightarrow> digit_value (digit d) = d"
  by (simp_all add: is_digit_def digit_value_def)

lemma decimal_digits: "\<forall>c \<in> set (decimal n). is_digit c"
proof (induction n rule: decimal.induct)
  case (1 n)
  then show ?case by (subst decimal.simps) auto
qed

lemma digits_value_decimal [simp]: "digits_value (decimal n) = n"
proof (induction n rule: decimal.induct)
  case (1 n)
  then show ?case by (subst decimal.simps) (auto simp: digits_value_def)
qed

lemma decimal_nonempty [simp]: "decimal n \<noteq> []"
  by (subst decimal.simps) simp

lemma length_decimal: "n < 10 ^ k \<Longrightarrow> 0 < k \<Longrightarrow> length (decimal n) \<le> k"
proof (induction k arbitrary: n)
  case 0
  then show ?case by simp
next
  case (Suc k)
  show ?case
  proof (cases "n < 10")
    case True
    then show ?thesis by (subst decimal.simps) simp
  next
    case False
    then have "0 < k" using Suc.prems by (cases k) auto
    moreover have "n div 10 < 10 ^ k" using Suc.prems by (simp add: less_mult_imp_div_less mult.commute)
    ultimately show ?thesis using False Suc.IH[of "n div 10"] by (subst decimal.simps) simp
  qed
qed

lemma no_special [simp]:
  assumes "is_digit c"
  shows "c \<noteq> CHR ''.''" "c \<noteq> CHR '':''" "c \<noteq> CHR ''-''" "c \<noteq> CHR ''+''" "c \<noteq> CHR '' ''" "c \<noteq> CHR 0x00"
  using assms by (auto simp: is_digit_def)

subsection \<open>Text in memory\<close>

definition bytes_of :: "string \<Rightarrow> byte list" where
  "bytes_of s = map of_char s"

definition no_nul :: "string \<Rightarrow> bool" where
  "no_nul s \<longleftrightarrow> CHR 0x00 \<notin> set s"

lemma length_bytes_of [simp]: "length (bytes_of s) = length s"
  by (simp add: bytes_of_def)

lemma bytes_of_append [simp]: "bytes_of (s @ t) = bytes_of s @ bytes_of t"
  by (simp add: bytes_of_def)

text \<open>
  \<open>snprintf_at out off cap txt\<close> is \<open>snprintf (out + off, cap - off, \<dots>)\<close> with the expanded text
  \<open>txt\<close>: the bytes that fit and a terminator are written, and the length of the text is returned.
\<close>

definition snprintf_at :: "byte list \<Rightarrow> nat \<Rightarrow> nat \<Rightarrow> string \<Rightarrow> (int \<times> byte list) option" where
  "snprintf_at out off cap txt = do {
     let n = (if length txt < 2 ^ 31 then int (length txt) else - 1);
     if cap \<le> off then Some (n, out)
     else do {
       let bs = take (cap - off - 1) (bytes_of txt) @ [0];
       out \<leftarrow> memcpy out off bs 0 (length bs);
       Some (n, out)
     }
   }"

text \<open>The text \<open>snprintf\<close> leaves in a buffer of \<open>cap\<close> bytes.\<close>

definition truncated :: "nat \<Rightarrow> string \<Rightarrow> string" where
  "truncated cap txt = take (cap - 1) txt"

primrec strlen_from :: "byte list \<Rightarrow> nat option" where
  "strlen_from [] = None"
| "strlen_from (b # bs) = (if b = 0 then Some 0 else map_option Suc (strlen_from bs))"

lemma of_char_less: "(of_char c :: nat) < 256"
  using of_char_mod_256[of c, where ?'a = nat] mod_less_divisor[of 256 "of_char c :: nat"] by simp

lemma unat_of_char [simp]: "unat (of_char c :: byte) = of_char c"
proof -
  have "(of_char c :: byte) = of_nat (of_char c)" by (simp add: of_nat_of_char)
  then show ?thesis using of_char_less[of c] by (simp only: unsigned_of_nat) (simp add: take_bit_nat_eq_self)
qed

lemma of_char_inj [simp]: "(of_char c :: byte) = of_char d \<longleftrightarrow> c = d"
  by (metis unat_of_char of_char_eq_iff)

lemma of_char_zero: "(of_char c :: byte) = 0 \<longleftrightarrow> c = CHR 0x00"
  using of_char_inj[of c "CHR 0x00"] by simp

lemma strlen_text: "no_nul s \<Longrightarrow> strlen_from (bytes_of s @ 0 # rest) = Some (length s)"
  by (induction s) (auto simp: no_nul_def bytes_of_def of_char_zero)

lemma take_text [simp]: "take (length s) (bytes_of s @ rest) = bytes_of s"
  by (metis append_eq_conv_conj length_bytes_of)

lemma no_nul_append [simp]: "no_nul (s @ t) \<longleftrightarrow> no_nul s \<and> no_nul t"
  by (auto simp: no_nul_def)

lemma no_nul_simps [simp]: "no_nul []" "no_nul (c # s) \<longleftrightarrow> c \<noteq> CHR 0x00 \<and> no_nul s"
  by (auto simp: no_nul_def)

lemma no_nul_decimal [simp]: "no_nul (decimal n)"
  using decimal_digits no_special(6) unfolding no_nul_def by blast

lemma no_nul_decimal_int [simp]: "no_nul (decimal_int i)"
  using no_nul_decimal[of "nat (- i)"] no_nul_decimal[of "nat i"] by (simp add: decimal_int_def)

lemma no_nul_bytes: "no_nul s \<Longrightarrow> b \<in> set (bytes_of s) \<Longrightarrow> b \<noteq> 0"
  by (auto simp: no_nul_def bytes_of_def of_char_zero)

end
