(* ===== verification/Cli_Text.thy ===== *)
theory Cli_Text
  imports C_String
begin

text \<open>
  The text arguments of the daemon, \<open>src/main.c\<close>: \<open>IP:PORT\<close> and the multicast addresses of the Dante
  flows.  \<open>atoi\<close> and the \<open>%u\<close> conversion of \<open>sscanf\<close> follow the C standard, where a value out of range is undefined.
\<close>

definition is_space :: "char \<Rightarrow> bool" where
  "is_space c \<longleftrightarrow> (of_char c :: nat) = 32 \<or> 9 \<le> (of_char c :: nat) \<and> (of_char c :: nat) \<le> 13"

text \<open>White space, an optional sign, then the digits: the sign, the digits and the rest.\<close>

definition scan_number :: "string \<Rightarrow> bool \<times> string \<times> string" where
  "scan_number s = (let s = dropWhile is_space s;
     neg = (case s of c # _ \<Rightarrow> c = CHR ''-'' | [] \<Rightarrow> False);
     s = (case s of c # cs \<Rightarrow> if c = CHR ''-'' \<or> c = CHR ''+'' then cs else s | [] \<Rightarrow> [])
   in (neg, takeWhile is_digit s, dropWhile is_digit s))"

definition atoi :: "string \<Rightarrow> int option" where
  "atoi s = (let (neg, ds, _) = scan_number s; v = int (digits_value ds) in c_int (if neg then - v else v))"

definition strrchr :: "string \<Rightarrow> char \<Rightarrow> nat option" where
  "strrchr s c = (if c \<in> set s then Some (length s - 1 - length (takeWhile (\<lambda>x. x \<noteq> c) (rev s))) else None)"

text \<open>The text at the start of a buffer, up to its terminator.\<close>

primrec c_string :: "byte list \<Rightarrow> string option" where
  "c_string [] = None"
| "c_string (b # bs) = (if b = 0 then Some [] else map_option ((#) (char_of (unat b))) (c_string bs))"

definition parse_ipport :: "string \<Rightarrow> byte list \<Rightarrow> nat \<Rightarrow> u16 \<Rightarrow> (int \<times> byte list \<times> u16) option" where
  "parse_ipport s ip ipcap port = (case strrchr s (CHR '':'') of
     None \<Rightarrow> Some (- 1, ip, port)
   | Some hl \<Rightarrow>
       if hl = 0 \<or> hl \<ge> ipcap then Some (- 1, ip, port)
       else do {
         ip \<leftarrow> memcpy ip 0 (bytes_of s) 0 hl;
         ip \<leftarrow> wr ip hl 0;
         p \<leftarrow> atoi (drop (hl + 1) s);
         if p \<le> 0 \<or> p > 65535 then Some (- 1, ip, port)
         else Some (0, ip, word_of_int p)
       })"

text \<open>
  One \<open>%u\<close>: undefined when the value does not fit, \<open>Some None\<close> when there is no digit.  The four
  conversions of the format, with the dots between them, stop at the first mismatch; the result is the
  list of the values assigned.
\<close>

definition scan_u :: "string \<Rightarrow> (u32 \<times> string) option option" where
  "scan_u s = (let (neg, ds, rest) = scan_number s; v = digits_value ds in
     if ds = [] then Some None
     else if v \<ge> 2 ^ 32 then None
     else Some (Some (if neg then - of_nat v else of_nat v, rest)))"

primrec scan_dotted :: "nat \<Rightarrow> string \<Rightarrow> u32 list option" where
  "scan_dotted 0 s = Some []"
| "scan_dotted (Suc n) s = do {
     r \<leftarrow> scan_u s;
     case r of None \<Rightarrow> Some []
     | Some (v, rest) \<Rightarrow> do {
         vs \<leftarrow> (case rest of c # cs \<Rightarrow> if c = CHR ''.'' then scan_dotted n cs else Some [] | [] \<Rightarrow> Some []);
         Some (v # vs)
       }
   }"

definition dotted :: "nat \<Rightarrow> nat \<Rightarrow> nat \<Rightarrow> nat \<Rightarrow> string" where
  "dotted a b c d = decimal a @ ''.'' @ decimal b @ ''.'' @ decimal c @ ''.'' @ decimal d"

definition ipv4_add_octet :: "string \<Rightarrow> int \<Rightarrow> byte list \<Rightarrow> nat \<Rightarrow> (int \<times> byte list) option" where
  "ipv4_add_octet base add out cap = do {
     vs \<leftarrow> scan_dotted 4 base;
     if length vs \<noteq> 4 then Some (- 1, out)
     else do {
       let a = vs ! 0; let b = vs ! 1; let c = vs ! 2; let d = vs ! 3;
       if a > 255 \<or> b > 255 \<or> c > 255 \<or> d > 255 then Some (- 1, out)
       else do {
         let last = d + word_of_int add;
         if last > 255 then Some (- 1, out)
         else do {
           (_, out) \<leftarrow> snprintf_at out 0 cap (dotted (unat a) (unat b) (unat c) (unat last));
           Some (0, out)
         }
       }
     }
   }"

subsection \<open>Scanning what was printed\<close>

lemma not_space_digit [simp]: "is_digit c \<Longrightarrow> \<not> is_space c"
  by (auto simp: is_digit_def is_space_def)

definition ends_number :: "string \<Rightarrow> bool" where
  "ends_number rest \<longleftrightarrow> (case rest of c # _ \<Rightarrow> \<not> is_digit c | [] \<Rightarrow> True)"

lemma scan_number_decimal:
  assumes "ends_number rest"
  shows "scan_number (decimal n @ rest) = (False, decimal n, rest)"
proof -
  obtain d ds where dn: "decimal n = d # ds" by (cases "decimal n") auto
  then have d: "is_digit d" "\<forall>c \<in> set ds. is_digit c" using decimal_digits[of n] by auto
  have r: "takeWhile is_digit rest = []" "dropWhile is_digit rest = rest"
    using assms by (auto simp: ends_number_def split: list.splits)
  have "takeWhile is_digit (ds @ rest) = ds" "dropWhile is_digit (ds @ rest) = rest"
    using d(2) r by (simp_all add: takeWhile_append2 dropWhile_append2)
  then show ?thesis using d(1) by (simp add: scan_number_def dn Let_def)
qed

lemma atoi_decimal:
  "ends_number rest \<Longrightarrow> n < 2 ^ 31 \<Longrightarrow> atoi (decimal n @ rest) = Some (int n)"
  by (simp add: atoi_def scan_number_decimal)

lemma scan_u_decimal:
  "ends_number rest \<Longrightarrow> n < 2 ^ 32 \<Longrightarrow> scan_u (decimal n @ rest) = Some (Some (of_nat n, rest))"
  by (simp add: scan_u_def scan_number_decimal)

lemma scan_dotted_text:
  assumes "a < 2 ^ 32" "b < 2 ^ 32" "c < 2 ^ 32" "d < 2 ^ 32" "ends_number rest"
  shows "scan_dotted 4 (dotted a b c d @ rest) = Some [of_nat a, of_nat b, of_nat c, of_nat d]"
proof -
  have dot: "ends_number (CHR ''.'' # s)" for s by (simp add: ends_number_def is_digit_def)
  have four: "4 = Suc (Suc (Suc (Suc 0)))" by simp
  show ?thesis
    unfolding four dotted_def using assms dot by (simp add: scan_u_decimal split: list.split)
qed

lemma c_string_text: "no_nul s \<Longrightarrow> c_string (bytes_of s @ 0 # rest) = Some s"
proof (induction s)
  case Nil
  then show ?case by (simp add: bytes_of_def)
next
  case (Cons c s)
  then show ?case by (simp add: bytes_of_def of_char_zero)
qed

lemma strrchr_last:
  assumes "c \<notin> set t"
  shows "strrchr (s @ c # t) c = Some (length s)"
proof -
  have "takeWhile (\<lambda>x. x \<noteq> c) (rev (s @ c # t)) = rev t"
    using assms by (simp, subst takeWhile_append2) auto
  then show ?thesis by (simp add: strrchr_def)
qed

lemma parse_ipport_text:
  assumes "length ip = ipcap" and "n < 2 ^ 31"
  shows "parse_ipport (host @ '':'' @ decimal n) ip ipcap port =
    (if host = [] \<or> ipcap \<le> length host then Some (- 1, ip, port)
     else let ip' = bytes_of host @ 0 # drop (length host + 1) ip in
       if n = 0 \<or> 65535 < n then Some (- 1, ip', port) else Some (0, ip', of_nat n))"
proof -
  have "CHR '':'' \<notin> set (decimal n)" using decimal_digits[of n] no_special(2) by blast
  then have colon: "strrchr (host @ CHR '':'' # decimal n) (CHR '':'') = Some (length host)" by (rule strrchr_last)
  have a: "atoi (decimal n) = Some (int n)" using atoi_decimal[of "[]" n] assms(2) by (simp add: ends_number_def)
  show ?thesis
  proof (cases "host = [] \<or> ipcap \<le> length host")
    case True
    then show ?thesis using colon by (simp add: parse_ipport_def)
  next
    case False
    have "memcpy ip 0 (bytes_of (host @ CHR '':'' # decimal n)) 0 (length host) = Some (blit ip 0 (bytes_of host))"
      using False assms(1) by (simp add: memcpy_def chunk_def)
    moreover have "wr (blit ip 0 (bytes_of host)) (length host) 0 = Some (bytes_of host @ 0 # drop (length host + 1) ip)"
    proof -
      have "drop (length host) ip = ip ! length host # drop (Suc (length host)) ip"
        using False assms(1) by (simp add: Cons_nth_drop_Suc)
      then have "blit ip 0 (bytes_of host) = bytes_of host @ ip ! length host # drop (length host + 1) ip"
        by (simp add: blit_prefix)
      then show ?thesis by (simp add: wr_def list_update_append)
    qed
    ultimately show ?thesis using False colon a by (auto simp: parse_ipport_def Let_def)
  qed
qed

text \<open>
  A destination prints and parses back.  The text of a host and a port, of any host that fits the buffer and any port from
  1 to 65535, gives exactly them, with the host terminated in the buffer; a port of 0 or above 65535, an empty host,
  a host too long for the buffer and a text without a colon are refused.  The last colon separates.
\<close>

lemma ipport_roundtrip:
  assumes "no_nul host" and "length ip = ipcap" and "n < 2 ^ 31"
  shows "parse_ipport (host @ '':'' @ decimal n) ip ipcap port =
    (if host = [] \<or> ipcap \<le> length host then Some (- 1, ip, port)
     else let ip' = bytes_of host @ 0 # drop (length host + 1) ip in
       if n = 0 \<or> 65535 < n then Some (- 1, ip', port) else Some (0, ip', of_nat n)) \<and>
    (host \<noteq> [] \<and> length host < ipcap \<longrightarrow> c_string (bytes_of host @ 0 # drop (length host + 1) ip) = Some host) \<and>
    (CHR '':'' \<notin> set s \<longrightarrow> parse_ipport s ip ipcap port = Some (- 1, ip, port))"
  using parse_ipport_text[OF assms(2,3)] c_string_text[OF assms(1)] by (simp add: parse_ipport_def strrchr_def)

lemma add_octet_text:
  assumes "a \<le> 255" and "b \<le> 255" and "c \<le> 255" and "d \<le> 255" and "16 \<le> cap" and "cap \<le> length out" and "i < 2 ^ 31"
  shows "ipv4_add_octet (dotted a b c d) (int i) out cap =
    (if d + i \<le> 255 then Some (0, bytes_of (dotted a b c (d + i)) @ 0 # drop (length (dotted a b c (d + i)) + 1) out)
     else Some (- 1, out))"
proof -
  have "unat (of_nat d + word_of_int (int i) :: u32) = d + i"
    using assms(4,7) by (simp add: unat_of_nat flip: of_nat_add)
  then have sum: "(of_nat d + word_of_int (int i) :: u32) > 255 \<longleftrightarrow> 255 < d + i"
    "unat (of_nat d + word_of_int (int i) :: u32) = d + i"
    by (simp_all add: word_less_nat_alt)
  have vs: "scan_dotted 4 (dotted a b c d) = Some [of_nat a, of_nat b, of_nat c, of_nat d]"
    using scan_dotted_text[of a b c d "[]"] assms by (simp add: ends_number_def)
  have small: "unat (of_nat n :: u32) = n" "\<not> (of_nat n :: u32) > 255" if "n \<le> 255" for n
    using that by (simp_all add: unat_of_nat word_less_nat_alt)
  show ?thesis
  proof (cases "d + i \<le> 255")
    case True
    let ?t = "dotted a b c (d + i)"
    have "length (decimal n) \<le> 3" if "n \<le> 255" for n using that by (intro length_decimal) auto
    from this[OF assms(1)] this[OF assms(2)] this[OF assms(3)] this[OF True] have "length ?t \<le> 15" by (simp add: dotted_def)
    then have "snprintf_at out 0 cap ?t = Some (int (length ?t), blit out 0 (bytes_of ?t @ [0]))"
      using assms(5,6) by (simp add: snprintf_at_def memcpy_Some chunk_def)
    then show ?thesis
      using True sum small assms(1-4) vs by (simp add: ipv4_add_octet_def blit_prefix)
  next
    case False
    then show ?thesis using sum small assms(1-4) vs by (simp add: ipv4_add_octet_def)
  qed
qed

lemma no_nul_dotted [simp]: "no_nul (dotted a b c d)"
  by (simp add: dotted_def)

text \<open>
  C38.  The address of flow \<open>i\<close> is the base address with \<open>i\<close> added to its last octet, without carry: where the sum
  exceeds 255 the call fails and leaves the buffer alone.  Different flows get different addresses.
\<close>

theorem flow_address:
  assumes "a \<le> 255" and "b \<le> 255" and "c \<le> 255" and "d \<le> 255" and "16 \<le> cap" and "cap \<le> length out" and "i < 2 ^ 31"
  shows "ipv4_add_octet (dotted a b c d) (int i) out cap =
    (if d + i \<le> 255 then Some (0, bytes_of (dotted a b c (d + i)) @ 0 # drop (length (dotted a b c (d + i)) + 1) out)
     else Some (- 1, out)) \<and>
    (\<forall>j. dotted a b c (d + i) = dotted a b c (d + j) \<longrightarrow> i = j)"
proof (intro conjI allI impI add_octet_text[OF assms])
  fix j
  assume "dotted a b c (d + i) = dotted a b c (d + j)"
  then have "digits_value (decimal (d + i)) = digits_value (decimal (d + j))" by (simp add: dotted_def)
  then show "i = j" by simp
qed

theorem flow_address_witness:
  "ipv4_add_octet (dotted 239 69 10 0) 4 (replicate 64 0) 64
     = Some (0, bytes_of (dotted 239 69 10 4) @ 0 # drop (length (dotted 239 69 10 4) + 1) (replicate 64 0)) \<and>
   ipv4_add_octet (dotted 239 69 10 253) 4 (replicate 64 0) 64 = Some (- 1, replicate 64 0)"
proof
  have *: "64 \<le> length (replicate 64 (0 :: byte))" by simp
  show "ipv4_add_octet (dotted 239 69 10 0) 4 (replicate 64 0) 64
      = Some (0, bytes_of (dotted 239 69 10 4) @ 0 # drop (length (dotted 239 69 10 4) + 1) (replicate 64 0))"
    using flow_address[OF _ _ _ _ _ *, of 239 69 10 0 4, THEN conjunct1] by (simp del: drop_replicate)
  show "ipv4_add_octet (dotted 239 69 10 253) 4 (replicate 64 0) 64 = Some (- 1, replicate 64 0)"
    using flow_address[OF _ _ _ _ _ *, of 239 69 10 253 4, THEN conjunct1] by simp
qed

end
