(* ===== verification/Pw_Main.thy ===== *)
theory Pw_Main
  imports Pw_Source Rx_Thread Cli_Text
begin

text \<open>
  The PipeWire endpoint, \<open>pipewire/src/main.c\<close>: its arguments, the set-up of receiver, capture node and playback node, the time in
  PipeWire's main loop, and the orderly end.  While the main loop runs, the feeder thread and the realtime callbacks of the two nodes take turns; the session is
  the sequence of their steps.  Interleavings inside a ring operation are the subject of \<open>Ring_Spsc\<close>.
\<close>

subsection \<open>The command line\<close>

record pw_options =
  po_kind :: reac_rx_kind
  po_source :: "string option"
  po_forced_rate :: int
  po_tx_if :: "string option"

definition pw_default :: pw_options where
  "pw_default = \<lparr>po_kind = REAC_RX_PCAP, po_source = None, po_forced_rate = 0, po_tx_if = None\<rparr>"

text \<open>\<open>Inl\<close> is the usage message; a number that is no \<open>int\<close> is undefined for \<open>atoi\<close>.\<close>

fun pw_parse_args :: "string list \<Rightarrow> pw_options \<Rightarrow> (unit + pw_options) option" where
  "pw_parse_args [] o' = Some (Inr o')"
| "pw_parse_args [a] o' = Some (Inl ())"
| "pw_parse_args (a # v # as) o' =
     (if a = ''--pcap'' then pw_parse_args as (o'\<lparr>po_kind := REAC_RX_PCAP, po_source := Some v\<rparr>)
      else if a = ''--live'' then pw_parse_args as (o'\<lparr>po_kind := REAC_RX_LIVE, po_source := Some v\<rparr>)
      else if a = ''--rate'' then do { r \<leftarrow> atoi v; pw_parse_args as (o'\<lparr>po_forced_rate := r\<rparr>) }
      else if a = ''--tx'' then pw_parse_args as (o'\<lparr>po_tx_if := Some v\<rparr>)
      else Some (Inl ()))"

subsection \<open>The session\<close>

text \<open>
  What happens while the main loop runs: a round of the feeder with its clock readings, a graph cycle of the capture node with the buffers of its
  ports, one of the playback node with the buffers of its ports, and a change of the io areas of a capture port.
\<close>

datatype pw_event =
    Feed "u64 \<times> u64"
  | Capture "f32 list option list" u32
  | Playback "f32 list option list" u32
  | IoChanged nat bool rat bool

text \<open>\<open>pw_alive\<close> tells that the feeder could open its source; \<open>pw_out\<close> collects the buffers the capture node has filled.\<close>

record 'w pw_state =
  pw_thread :: "'w rx_thread"
  pw_alive :: bool
  pw_source :: reac_source_node
  pw_sink :: "reac_sink_node option"
  pw_out :: "f32 list option list list"

text \<open>What the program finds around it; the results of the calls into PipeWire and of the allocator are fields of their own.\<close>

record 'w pw_env =
  pe_os :: "'w os"
  pe_lib :: libreac
  pe_long_bits :: nat
  pe_fopen :: "string \<Rightarrow> cfile option"
  pe_detect :: "int \<Rightarrow> int"
  pe_ring_alloc :: "nat \<Rightarrow> bool"
  pe_node_alloc :: bool
  pe_source_filter :: bool
  pe_source_port :: "nat \<Rightarrow> bool"
  pe_source_connect :: bool
  pe_sink_alloc :: bool
  pe_sink_filter :: bool
  pe_sink_connect :: bool
  pe_thread_create :: int
  pe_events :: "pw_event list"

definition pw_step :: "'w pw_env \<Rightarrow> reac_mode \<Rightarrow> pw_event \<Rightarrow> 'w pw_state \<Rightarrow> 'w pw_state option" where
  "pw_step E mode ev s = (case ev of
     Feed clk \<Rightarrow> if pw_alive s
       then do { t \<leftarrow> rx_round (pe_os E) (pe_long_bits E) (pe_fopen E) (pe_lib E) mode clk (pw_thread s); Some (s\<lparr>pw_thread := t\<rparr>) }
       else Some s
   | Capture bufs duration \<Rightarrow> do {
       (n, ring, bufs) \<leftarrow> source_on_process (th_rx (pw_thread s)) (pw_source s) (th_ring (pw_thread s)) bufs duration;
       Some (s\<lparr>pw_thread := (pw_thread s)\<lparr>th_ring := ring\<rparr>, pw_source := n, pw_out := pw_out s @ [bufs]\<rparr>)
     }
   | Playback ins duration \<Rightarrow> (case pw_sink s of
       None \<Rightarrow> Some s
     | Some n \<Rightarrow> do {
         (n, w) \<leftarrow> sink_on_process (pe_os E) (pe_lib E) n ins duration (th_world (pw_thread s));
         Some (s\<lparr>pw_thread := (pw_thread s)\<lparr>th_world := w\<rparr>, pw_sink := Some n\<rparr>)
       })
   | IoChanged c is_rate_match area size_ok \<Rightarrow> do {
       p \<leftarrow> rd (so_ports (pw_source s)) c;
       Some (s\<lparr>pw_source := (pw_source s)\<lparr>so_ports := (so_ports (pw_source s))[c := on_io_changed p is_rate_match area size_ok]\<rparr>\<rparr>)
     })"

primrec pw_steps :: "'w pw_env \<Rightarrow> reac_mode \<Rightarrow> pw_event list \<Rightarrow> 'w pw_state \<Rightarrow> 'w pw_state option" where
  "pw_steps E mode [] s = Some s"
| "pw_steps E mode (ev # evs) s = pw_step E mode ev s \<bind> pw_steps E mode evs"

text \<open>From the start of the feeder, which opens its source in its thread, to its end, when it is told to stop and closes it.\<close>

definition pw_session ::
  "'w pw_env \<Rightarrow> reac_rx \<Rightarrow> f32 reac_ring \<Rightarrow> reac_source_node \<Rightarrow> reac_sink_node option \<Rightarrow> 'w \<Rightarrow> 'w pw_state option" where
  "pw_session E rx ring n sink w = do {
     (src, w) \<leftarrow> rx_source_open (pe_os E) (pe_fopen E) rx w;
     s \<leftarrow> pw_steps E (reac_mode_for (pe_lib E) (rx_sample_rate rx)) (pe_events E)
        \<lparr>pw_thread = \<lparr>th_rx = rx, th_ring = ring,
            th_locals = \<lparr>rl_last_counter = 0, rl_have_counter = False, rl_pcap_first_ts = 0, rl_wall_first_ns = 0\<rparr>,
            th_win = \<lparr>win_start_ns = 0, win_frames = 0, win_last_counter = 0, win_have_last = False\<rparr>,
            th_src = (case src of Some src \<Rightarrow> src | None \<Rightarrow> LiveSource \<lparr>cap_fd = - 1\<rparr>),
            th_frame = replicate (REAC_FRAME_BYTES (pe_lib E) + 64) 0, th_world = w\<rparr>,
         pw_alive = (src \<noteq> None), pw_source = n, pw_sink = sink, pw_out = []\<rparr>;
     let t = pw_thread s;
     let t = t\<lparr>th_rx := reac_rx_stop (th_rx t)\<rparr>;
     Some (s\<lparr>pw_thread := (if pw_alive s then t\<lparr>th_world := rx_source_close (pe_os E) (th_src t) (th_world t)\<rparr> else t)\<rparr>)
   }"

text \<open>The playback node, when asked for; its ring is allocated and not used.\<close>

definition pw_sink_new ::
  "'w pw_env \<Rightarrow> string option \<Rightarrow> int \<Rightarrow> f32 reac_ring \<Rightarrow> 'w \<Rightarrow> reac_sink_node option \<times> f32 reac_ring \<times> 'w" where
  "pw_sink_new E tx_if rate tx_ring w = (case tx_if of
     None \<Rightarrow> (None, tx_ring, w)
   | Some ifname \<Rightarrow>
       (let (_, tx_ring) = reac_ring_init (pe_ring_alloc E) tx_ring (of_nat (REAC_MAX_CHANNELS (pe_lib E))) (word_of_int (rate sdiv 4));
            (sink, w) = reac_sink_node_new (pe_os E) (pe_lib E) (pe_sink_alloc E) (pe_sink_filter E) (pe_sink_connect E)
              \<lparr>sc_ifname = ifname, sc_channels = int (REAC_MAX_CHANNELS (pe_lib E)), sc_sample_rate = rate,
               sc_src_mac = Some [0x00, 0x40, 0xab, 0x00, 0x00, 0x01]\<rparr> w
        in (sink, tx_ring, w)))"

text \<open>\<open>main\<close> once the capture node exists.\<close>

definition pw_serve ::
  "'w pw_env \<Rightarrow> string option \<Rightarrow> reac_rx \<Rightarrow> f32 reac_ring \<Rightarrow> f32 reac_ring \<Rightarrow> reac_source_node \<Rightarrow> 'w \<Rightarrow>
   (int \<times> f32 list option list list \<times> 'w) option" where
  "pw_serve E tx_if rx ring tx_ring n w = do {
     let (sink, tx_ring, w) = pw_sink_new E tx_if (rx_sample_rate rx) tx_ring w;
     let (rc, rx) = reac_rx_start (pe_thread_create E) rx;
     if rc \<noteq> 0 then Some (1, [], w)
     else do {
       s \<leftarrow> pw_session E rx ring n sink w;
       let w = reac_sink_node_destroy (pe_os E) (pw_sink s) (th_world (pw_thread s));
       let tx_ring = (if tx_if \<noteq> None then reac_ring_free tx_ring else tx_ring);
       let rx = reac_rx_close (th_rx (pw_thread s));
       let ring = reac_ring_free (th_ring (pw_thread s));
       Some (0, pw_out s, w)
     }
   }"

definition pw_main :: "'w pw_env \<Rightarrow> f32 reac_ring \<Rightarrow> f32 reac_ring \<Rightarrow> string list \<Rightarrow> 'w \<Rightarrow> (int \<times> f32 list option list list \<times> 'w) option" where
  "pw_main E ring tx_ring args w = do {
     r \<leftarrow> pw_parse_args args pw_default;
     (case r of
        Inl _ \<Rightarrow> Some (2, [], w)
      | Inr o' \<Rightarrow> (case po_source o' of
          None \<Rightarrow> Some (2, [], w)
        | Some source \<Rightarrow> do {
            let cfg = \<lparr>rc_kind = po_kind o', rc_source = source, rc_forced_rate = po_forced_rate o', rc_pcap_realtime = True\<rparr>;
            let (rc, rx, ring, w) = reac_rx_open (pe_os E) (pe_detect E) (pe_ring_alloc E) (pe_lib E) cfg ring w;
            if rc \<noteq> 0 then Some (1, [], w)
            else (case reac_source_node_new (pe_lib E) (pe_node_alloc E) (pe_source_filter E) (pe_source_port E) (pe_source_connect E) (rx_sample_rate rx) of
                None \<Rightarrow> Some (1, [], w)
              | Some n \<Rightarrow> pw_serve E (po_tx_if o') rx ring tx_ring n w)
          }))
   }"

subsection \<open>What the steps keep\<close>

lemma bind_some1:
  assumes "m \<bind> f = Some r"
  obtains x where "m = Some x" "f x = Some r"
  using assms by (cases m) auto

lemma sink_on_process_keeps:
  assumes send: "\<And>fd bs a w. obs (snd (os_sendto K fd bs a w)) = obs w" and run: "sink_on_process K L n ins nframes w = Some (n', w')"
  shows "obs w' = obs w \<and> tx_fd (sn_tx n') = tx_fd (sn_tx n) \<and> sn_tx_open n' = sn_tx_open n"
proof -
  let ?P = "\<lambda>(n1, w1). obs w1 = obs w \<and> tx_fd (sn_tx n1) = tx_fd (sn_tx n) \<and> sn_tx_open n1 = sn_tx_open n"
  have emit: "obs w2 = obs w1 \<and> tx_fd tx' = tx_fd tx" if "reac_tx_emit K L tx planes nch ns w1 = Some (r, tx', w2)" for tx planes nch ns w1 r tx' w2
    using that send by (auto simp: reac_tx_emit_def bind_eq_Some_conv case_prod_unfold Let_def)
  have one: "?P t'" if P: "?P t" and r: "sink_sample K L ins i t = Some t'" for i t t'
  proof -
    obtain n1 w1 where t: "t = (n1, w1)" by fastforce
    obtain stage where st: "(let n = n1\<lparr>sn_stage := stage, sn_staged := sn_staged n1 + 1\<rparr> in
       if sn_staged n = REAC_SAMPLES_PER_PKT L then do {
         let planes = map Some (take (nat (sn_channels n)) (sn_stage n));
         (_, tx, w) \<leftarrow> reac_tx_emit K L (sn_tx n) planes (sn_channels n) (int (REAC_SAMPLES_PER_PKT L)) w1;
         Some (n\<lparr>sn_tx := tx, sn_staged := 0\<rparr>, w)
       } else Some (n, w1)) = Some t'"
      using r unfolding t sink_sample_def prod.case by (elim bind_some1)
    show ?thesis
    proof (cases "Suc (sn_staged n1) = REAC_SAMPLES_PER_PKT L")
      case True
      then obtain r2 tx2 w2 where e: "reac_tx_emit K L (sn_tx n1) (map Some (take (nat (sn_channels n1)) stage)) (sn_channels n1) (int (REAC_SAMPLES_PER_PKT L)) w1
          = Some (r2, tx2, w2)" "t' = (n1\<lparr>sn_stage := stage, sn_staged := 0, sn_tx := tx2\<rparr>, w2)"
        using st by (auto simp: bind_eq_Some_conv Let_def)
      then show ?thesis using P emit[OF e(1)] by (simp add: t)
    qed (use P st in \<open>auto simp: t Let_def\<close>)
  qed
  show ?thesis
  proof (cases "sn_tx_open n")
    case False
    then show ?thesis using run by (simp add: sink_on_process_def)
  next
    case True
    then obtain k where "(if k = (0 :: nat) then Some (n, w) else forn (unat nframes) (sink_sample K L ins) (n, w)) = Some (n', w')"
      using run by (auto simp: sink_on_process_def bind_eq_Some_conv)
    then show ?thesis using forn_keeps[where P = ?P and body = "sink_sample K L ins" and s = "(n, w)" and t = "(n', w')", OF one] by (auto split: if_splits)
  qed
qed

text \<open>The descriptors a state of the session owns: that of the live source and that of the playback node.\<close>

definition owned :: "'w pw_state \<Rightarrow> reac_capture option \<times> (int \<times> bool) option" where
  "owned s = (case th_src (pw_thread s) of LiveSource c \<Rightarrow> Some c | PcapSource _ \<Rightarrow> None,
     map_option (\<lambda>n. (tx_fd (sn_tx n), sn_tx_open n)) (pw_sink s))"

lemma rx_round_fds:
  assumes K: "documented_fds K fds" and run: "rx_round K lb fopen L m clk t = Some t'"
  shows "fds (th_world t') = fds (th_world t) \<and>
    (case th_src t' of LiveSource c \<Rightarrow> Some c | PcapSource _ \<Rightarrow> None) = (case th_src t of LiveSource c \<Rightarrow> Some c | PcapSource _ \<Rightarrow> None)"
  using run capture_next_fds[OF _ K]
  by (fastforce simp: rx_round_def rx_live_round_def rx_pcap_round_def bind_eq_Some_conv split: rx_source.splits)

lemma pw_step_fds:
  assumes K: "documented_fds (pe_os E) fds" and run: "pw_step E m ev s = Some s'"
  shows "fds (th_world (pw_thread s')) = fds (th_world (pw_thread s)) \<and> pw_alive s' = pw_alive s \<and> owned s' = owned s"
proof (cases ev)
  case (Feed clk)
  then show ?thesis using run rx_round_fds[OF K, where clk = clk and t = "pw_thread s"]
    by (auto simp: pw_step_def owned_def bind_eq_Some_conv simp del: split_paired_All split: if_splits)
next
  case (Capture bufs duration)
  then show ?thesis using run by (auto simp: pw_step_def owned_def bind_eq_Some_conv)
next
  case (Playback ins duration)
  then show ?thesis using run sink_on_process_keeps[where obs = fds and K = "pe_os E", OF documented_fdsD(11)[OF K prod.collapse[symmetric]]]
    by (auto simp: pw_step_def owned_def bind_eq_Some_conv split: option.splits)
next
  case (IoChanged c b a z)
  then show ?thesis using run by (auto simp: pw_step_def owned_def bind_eq_Some_conv)
qed

lemma pw_steps_fds:
  assumes "documented_fds (pe_os E) fds" and "pw_steps E m evs s = Some s'"
  shows "fds (th_world (pw_thread s')) = fds (th_world (pw_thread s)) \<and> pw_alive s' = pw_alive s \<and> owned s' = owned s"
  using assms(2)
proof (induction evs arbitrary: s)
  case (Cons ev evs)
  then obtain s1 where "pw_step E m ev s = Some s1" "pw_steps E m evs s1 = Some s'" by (auto simp: bind_eq_Some_conv)
  with Cons.IH pw_step_fds[OF assms(1)] show ?case by metis
qed simp

lemma pw_session_fds:
  assumes K: "documented_fds (pe_os E) fds" and run: "pw_session E rx ring n sink w = Some s"
  shows "fds (th_world (pw_thread s)) = fds w \<and> map_option (\<lambda>n. (tx_fd (sn_tx n), sn_tx_open n)) (pw_sink s)
     = map_option (\<lambda>n. (tx_fd (sn_tx n), sn_tx_open n)) sink"
proof -
  let ?K = "pe_os E"
  obtain src w1 where o: "rx_source_open ?K (pe_fopen E) rx w = Some (src, w1)" using run unfolding pw_session_def by (rule bind_some2)
  define t where "t = \<lparr>th_rx = rx, th_ring = ring,
            th_locals = \<lparr>rl_last_counter = 0, rl_have_counter = False, rl_pcap_first_ts = 0, rl_wall_first_ns = 0\<rparr>,
            th_win = \<lparr>win_start_ns = 0, win_frames = 0, win_last_counter = 0, win_have_last = False\<rparr>,
            th_src = (case src of Some src \<Rightarrow> src | None \<Rightarrow> LiveSource \<lparr>cap_fd = - 1\<rparr>),
            th_frame = replicate (REAC_FRAME_BYTES (pe_lib E) + 64) 0, th_world = w1\<rparr>"
  define s0 where "s0 = \<lparr>pw_thread = t, pw_alive = (src \<noteq> None), pw_source = n, pw_sink = sink, pw_out = []\<rparr>"
  obtain s1 where steps: "pw_steps E (reac_mode_for (pe_lib E) (rx_sample_rate rx)) (pe_events E) s0 = Some s1"
    and s: "pw_sink s = pw_sink s1" "th_world (pw_thread s)
      = (if pw_alive s1 then rx_source_close ?K (th_src (pw_thread s1)) (th_world (pw_thread s1)) else th_world (pw_thread s1))"
    using run o by (auto simp: pw_session_def bind_eq_Some_conv Let_def s0_def t_def)
  note F = pw_steps_fds[OF K steps]
  have "fds (th_world (pw_thread s)) = fds w"
  proof (cases "rc_kind (rx_cfg rx) = REAC_RX_LIVE")
    case True
    obtain rc cap w2 where c: "reac_capture_open ?K (rc_source (rx_cfg rx)) w = (rc, cap, w2)" by (metis prod.collapse)
    note C = capture_fds[OF K c prod.collapse[symmetric]]
    show ?thesis
    proof (cases "rc = 0")
      case False
      then have "src = None" "w1 = w2" using o True c by (simp_all add: rx_source_open_def)
      then show ?thesis using F s C False by (simp add: s0_def t_def)
    next
      case R: True
      then have "src = Some (LiveSource cap)" "fds w1 = fds w2"
        using o True c set_nonblock_fds[OF K] by (auto simp: rx_source_open_def case_prod_unfold Let_def)
      then show ?thesis using F s C R documented_fdsD(3)[OF K]
        by (auto simp: s0_def t_def owned_def rx_source_close_def reac_capture_close_def split: rx_source.splits)
    qed
  next
    case False
    then have "w1 = w" "\<forall>c. src \<noteq> Some (LiveSource c)" using o by (auto simp: rx_source_open_def bind_eq_Some_conv split: if_splits)
    then show ?thesis using F s by (cases src) (auto simp: s0_def t_def owned_def rx_source_close_def split: rx_source.splits)
  qed
  then show ?thesis using F s by (simp add: owned_def s0_def)
qed

lemma rx_open_fds:
  assumes K: "documented_fds K fds" and "reac_rx_open K detect calloc L cfg ring w = (rc, rx, ring', w')"
  shows "fds w' = fds w"
proof -
  obtain orc cap w1 where o: "reac_capture_open K (rc_source cfg) w = (orc, cap, w1)" by (metis prod.collapse)
  note C = capture_fds[OF K o prod.collapse[symmetric]]
  show ?thesis
    using assms(2) C o by (auto simp: reac_rx_open_def Let_def case_prod_unfold split: if_splits)
qed

lemma sink_destroy_fds:
  assumes K: "documented_fds K fds" and "reac_sink_node_new K L a f c cfg w = (sink, w1)" and "fds w2 = fds w1"
    and "map_option (\<lambda>n. (tx_fd (sn_tx n), sn_tx_open n)) sink' = map_option (\<lambda>n. (tx_fd (sn_tx n), sn_tx_open n)) sink"
  shows "fds (reac_sink_node_destroy K sink' w2) = fds w"
proof -
  have "fds (reac_sink_node_destroy K sink' w2) = fds (reac_sink_node_destroy K sink w1)"
    using assms(3,4) documented_fdsD(3)[OF K] by (cases sink; cases sink') (auto simp: reac_sink_node_destroy_def reac_tx_close_def)
  also have "\<dots> = fds w"
  proof -
    obtain rc tx w0 where o: "reac_tx_open K L (sc_ifname cfg) w = (rc, tx, w0)" by (metis prod_cases3)
    show ?thesis using assms(2) o tx_fds[OF K o] documented_fdsD(3)[OF K]
      by (auto simp: reac_sink_node_new_def reac_sink_node_destroy_def reac_tx_close_def Let_def split: if_splits option.splits)
  qed
  finally show ?thesis .
qed

lemma pw_serve_fds:
  assumes K: "documented_fds (pe_os E) fds" and thread: "pe_thread_create E = 0" and run: "pw_serve E tx_if rx ring tx_ring n w = Some (rc, out, w')"
  shows "fds w' = fds w"
proof -
  obtain sink tx1 w1 where k: "pw_sink_new E tx_if (rx_sample_rate rx) tx_ring w = (sink, tx1, w1)" by (metis prod_cases3)
  obtain s where s: "pw_session E (rx\<lparr>rx_running := True\<rparr>) ring n sink w1 = Some s"
      and w': "w' = reac_sink_node_destroy (pe_os E) (pw_sink s) (th_world (pw_thread s))"
    using run thread unfolding pw_serve_def k reac_rx_start_def Let_def prod.case by (auto simp: bind_eq_Some_conv)
  note S = pw_session_fds[OF K s]
  show ?thesis
  proof (cases tx_if)
    case None
    then show ?thesis using S w' k by (simp add: pw_sink_new_def reac_sink_node_destroy_def)
  next
    case (Some ifname)
    then have "reac_sink_node_new (pe_os E) (pe_lib E) (pe_sink_alloc E) (pe_sink_filter E) (pe_sink_connect E)
        \<lparr>sc_ifname = ifname, sc_channels = int (REAC_MAX_CHANNELS (pe_lib E)), sc_sample_rate = rx_sample_rate rx,
         sc_src_mac = Some [0x00, 0x40, 0xab, 0x00, 0x00, 0x01]\<rparr> w = (sink, w1)"
      using k by (simp add: pw_sink_new_def case_prod_unfold Let_def prod_eq_iff)
    from sink_destroy_fds[OF K this conjunct1[OF S] conjunct2[OF S]] w' show ?thesis by simp
  qed
qed


text \<open>An endpoint on the sample system: two rounds of the feeder, and a cycle of two samples for the last port of each node.\<close>

definition sample_pw :: "log_world pw_env" where
  "sample_pw = \<lparr>pe_os = log_os, pe_lib = libreac_doc, pe_long_bits = 64, pe_fopen = (\<lambda>_. None), pe_detect = (\<lambda>_. 48000), pe_ring_alloc = (\<lambda>_. True),
     pe_node_alloc = True, pe_source_filter = True, pe_source_port = (\<lambda>_. True), pe_source_connect = True, pe_sink_alloc = True, pe_sink_filter = True,
     pe_sink_connect = True, pe_thread_create = 0, pe_events = [Feed (0, 0), Playback (replicate 39 None @ [Some [Fin 1, Fin 0]]) 2, Feed (0, 300000000),
       Capture (replicate 39 None @ [Some [Fin 1, Fin 2, Fin 3]]) 2]\<rparr>"

lemmas sample_pw_env = sample_pw_def[THEN arg_cong, of pe_os, simplified] sample_pw_def[THEN arg_cong, of pe_lib, simplified]
  sample_pw_def[THEN arg_cong, of pe_events, simplified] sample_pw_def[THEN arg_cong, of pe_detect, simplified]
  sample_pw_def[THEN arg_cong, of pe_ring_alloc, simplified] sample_pw_def[THEN arg_cong, of pe_node_alloc, simplified]
  sample_pw_def[THEN arg_cong, of pe_source_filter, simplified] sample_pw_def[THEN arg_cong, of pe_source_connect, simplified]
  sample_pw_def[THEN arg_cong, of pe_thread_create, simplified]

declare sample_pw_env [simp]


end
