(* ===== verification/Pw_Live.thy ===== *)
theory Pw_Live
  imports Pw_Main
begin

text \<open>
  What the PipeWire endpoint records from a live link: every step of a session is defined as long as the counter of the link keeps to its rate, and the
  samples in the port buffers are those of the frames, in order.
\<close>

subsection \<open>From the wire to the graph\<close>

text \<open>The graph cycles of the capture node in a session, and what one that delivers the time steps \<open>given\<close> leaves in the port buffers.\<close>

definition cycles :: "pw_event list \<Rightarrow> (f32 list option list \<times> u32) list" where
  "cycles evs = concat (map (\<lambda>ev. case ev of Capture bufs duration \<Rightarrow> [(bufs, duration)] | _ \<Rightarrow> []) evs)"

definition cycle_out :: "f32 list list \<Rightarrow> f32 list option list \<times> u32 \<Rightarrow> f32 list option list \<Rightarrow> bool" where
  "cycle_out given q bufs' \<longleftrightarrow> (let nf = min (unat (snd q)) 8192 in
     length given \<le> nf \<and> length bufs' = 40 \<and>
     (\<forall>c < 40. bufs' ! c = map_option (\<lambda>b. map (\<lambda>x. x ! c) given @ replicate (nf - length given) 0 @ drop nf b) (fst q ! c)))"

lemma cycles_simps [simp]:
  "cycles [] = []" "cycles (ev # evs) = (case ev of Capture bufs duration \<Rightarrow> [(bufs, duration)] | _ \<Rightarrow> []) @ cycles evs"
  by (simp_all add: cycles_def)

text \<open>The buffers PipeWire hands out: forty ports, each linked one with room for the cycle.\<close>

definition cycle_fits :: "f32 list option list \<times> u32 \<Rightarrow> bool" where
  "cycle_fits q \<longleftrightarrow> length (fst q) = 40 \<and> (\<forall>b. Some b \<in> set (fst q) \<longrightarrow> min (unat (snd q)) 8192 \<le> length b)"

text \<open>A playback node that takes the forty channels, once its socket is open.\<close>

definition playing :: "reac_sink_node \<Rightarrow> bool" where
  "playing n \<longleftrightarrow> (sn_tx_open n \<longrightarrow> sink_ok n \<and> sn_channels n = 40)"

definition event_ok :: "pw_event \<Rightarrow> bool" where
  "event_ok ev \<longleftrightarrow> (case ev of Feed clk \<Rightarrow> True | Capture bufs duration \<Rightarrow> cycle_fits (bufs, duration)
     | Playback ins duration \<Rightarrow> ins_ok ins 40 (unat duration) | IoChanged c _ _ _ \<Rightarrow> c < 40)"

text \<open>What holds between the steps of a session on a live link.\<close>

definition session_ok :: "reac_capture \<Rightarrow> 'w pw_state \<Rightarrow> bool" where
  "session_ok cap s \<longleftrightarrow> pw_alive s \<and> th_src (pw_thread s) = LiveSource cap \<and> length (th_frame (pw_thread s)) = 1556 \<and>
     ring_ok (th_ring (pw_thread s)) \<and> chans_of (th_ring (pw_thread s)) = 40 \<and> 12 < cap_of (th_ring (pw_thread s)) \<and>
     so_channels (pw_source s) = 40 \<and> length (so_scratch (pw_source s)) = 8192 \<and> length (so_ports (pw_source s)) = 40 \<and>
     (\<forall>n. pw_sink s = Some n \<longrightarrow> playing n)"

abbreviation steps_of :: "libreac \<Rightarrow> reac_mode \<Rightarrow> byte list list \<Rightarrow> f32 list list" where
  "steps_of L m fs \<equiv> concat (map (frame_steps m) (filter (good_frame L) fs))"

lemma source_ports:
  assumes "source_on_process rx n ring bufs duration = Some (n', ring', bufs')"
  shows "length (so_ports n') = length (so_ports n)"
proof -
  have "length (publish_rate k r ps) = length ps" for k r and ps :: "port option list" by (induction ps arbitrary: k) (auto split: option.split)
  then show ?thesis using assms by (auto simp: source_on_process_def bind_eq_Some_conv Let_def case_prod_unfold split: if_splits)
qed

lemma capture_cycle:
  assumes ok: "session_ok cap s" and fits: "cycle_fits (bufs, duration)"
  shows "\<exists>s'. pw_step E m (Capture bufs duration) s = Some s' \<and> session_ok cap s' \<and> pw_thread s' = (pw_thread s)\<lparr>th_ring := th_ring (pw_thread s')\<rparr> \<and> th_world (pw_thread s') = th_world (pw_thread s) \<and>
    (\<exists>given bufs'. pw_out s' = pw_out s @ [bufs'] \<and> cycle_out given (bufs, duration) bufs' \<and>
       subseq (given @ queue_of (th_ring (pw_thread s'))) (queue_of (th_ring (pw_thread s))))"
proof -
  let ?t = "pw_thread s" and ?nf = "min (unat duration) 8192"
  let ?q = "queue_of (th_ring ?t)"
  have b: "bufs_ok (pw_source s) bufs ?nf"
    using ok fits by (auto simp: bufs_ok_def session_ok_def cycle_fits_def split: option.splits) (metis nth_mem)+
  obtain n' ring' bufs' where r: "source_on_process (th_rx ?t) (pw_source s) (th_ring ?t) bufs duration = Some (n', ring', bufs')" "ring_ok ring'"
      "length bufs' = 40" "so_channels n' = 40" "length (so_scratch n') = 8192" "rg_channels ring' = rg_channels (th_ring ?t)"
      "rg_capacity ring' = rg_capacity (th_ring ?t)"
      "if \<forall>c < 40. bufs ! c = None then n' = pw_source s \<and> ring' = th_ring ?t \<and> bufs' = bufs
       else queue_of ring' = drop ?nf (fresh ?nf ?q) \<and>
         (\<forall>c < 40. bufs' ! c = map_option (\<lambda>b. channel_out (fresh ?nf ?q) c (min ?nf (length (fresh ?nf ?q))) ?nf @ drop ?nf b) (bufs ! c))"
    using source_cycle[OF _ _ refl b, of "th_ring ?t" "th_rx ?t"] ok unfolding session_ok_def by blast
  let ?s' = "s\<lparr>pw_thread := ?t\<lparr>th_ring := ring'\<rparr>, pw_source := n', pw_out := pw_out s @ [bufs']\<rparr>"
  have run: "pw_step E m (Capture bufs duration) s = Some ?s'" using r(1) by (simp add: pw_step_def)
  define given where "given = (if \<forall>c < 40. bufs ! c = None then [] else take ?nf (fresh ?nf ?q))"
  have "subseq (fresh ?nf ?q) ?q" unfolding fresh_def by (rule suffix_imp_subseq[OF suffix_drop])
  then have "subseq (given @ queue_of ring') ?q" using r(8) by (auto simp: given_def split: if_splits)
  moreover have "cycle_out given (bufs, duration) bufs'"
  proof (cases "\<forall>c < 40. bufs ! c = None")
    case True
    then show ?thesis using r(3,8) by (simp add: cycle_out_def given_def)
  next
    case False
    have row: "map (\<lambda>x. x ! c) (take k xs) = map (\<lambda>i. xs ! i ! c) [0..<min k (length xs)]" for k c and xs :: "f32 list list"
      by (rule nth_equalityI) (auto simp: min.commute)
    from False show ?thesis
      using r(3,8) unfolding cycle_out_def Let_def given_def if_not_P[OF False] by (auto simp: channel_out_def row min.commute)
  qed
  moreover have "session_ok cap ?s'" using ok r(2-7) source_ports[OF r(1)] by (simp add: session_ok_def)
  ultimately show ?thesis using run by auto
qed

text \<open>
  The link as the rest of a session sees it: its frames, and the window of the clock estimate, which has followed the observations so far.
\<close>

definition feeds :: "pw_event list \<Rightarrow> (u64 \<times> u64) list" where
  "feeds evs = concat (map (\<lambda>ev. case ev of Feed clk \<Rightarrow> [clk] | _ \<Rightarrow> []) evs)"

lemma feeds_simps [simp]: "feeds [] = []" "feeds (ev # evs) = (case ev of Feed clk \<Rightarrow> [clk] | _ \<Rightarrow> []) @ feeds evs"
  by (simp_all add: feeds_def)

definition on_track :: "libreac \<Rightarrow> ('w \<Rightarrow> byte list list) \<Rightarrow> int \<Rightarrow> (u16 \<times> u64) list \<Rightarrow> (u64 \<times> u64) list \<Rightarrow> 'w rx_thread \<Rightarrow> bool" where
  "on_track L inbox rate obs clks t \<longleftrightarrow> rx_sample_rate (th_rx t) = rate \<and> (\<forall>f \<in> set (inbox (th_world t)). link_frame f) \<and>
     (\<exists>before. obs = before @ heard L (inbox (th_world t)) clks \<and> tracks L obs (length before) (th_win t))"

text \<open>
  One step on a steady link: it is defined, a feed takes the next frame, and a cycle is served from the queue.
\<close>

definition step_done :: "libreac \<Rightarrow> reac_mode \<Rightarrow> ('w \<Rightarrow> byte list list) \<Rightarrow> pw_event list \<Rightarrow> 'w pw_state \<Rightarrow> 'w pw_state \<Rightarrow> bool" where
  "step_done L m inbox evs s s' \<longleftrightarrow> (let k = length (feeds evs); ps = inbox (th_world (pw_thread s)) in
     inbox (th_world (pw_thread s')) = drop k ps \<and>
     (\<exists>given outs. pw_out s' = pw_out s @ outs \<and> list_all2 (\<lambda>(xs, q) out. cycle_out xs q out) (zip given (cycles evs)) outs \<and> length given = length (cycles evs) \<and>
       subseq (concat given @ queue_of (th_ring (pw_thread s')))
         (queue_of (th_ring (pw_thread s)) @ steps_of L m (map (take 1556) (take k ps)))))"

lemma arriving_link: "\<forall>f \<in> set fs. link_frame f \<Longrightarrow> arriving 1556 fs = map (take 1556) fs"
  unfolding arriving_def by (intro filter_True) (auto simp: link_frame_def reac_ethertype_def)

lemma feed_step:
  assumes env: "documented_geometry (pe_lib E)" "documented_counter (pe_lib E)" "documented_inbox (pe_os E) inbox" "documented_trace (pe_os E) sent"
      "documented_fds (pe_os E) fds" "wire_mode m" and cap: "0 \<le> cap_fd cap" and ok: "session_ok cap s"
    and rate: "reac_rate rate" "steady (pe_lib E) rate obs" and tr: "on_track (pe_lib E) inbox rate obs (clk # clks) (pw_thread s)"
  shows "\<exists>s'. pw_step E m (Feed clk) s = Some s' \<and> session_ok cap s' \<and> on_track (pe_lib E) inbox rate obs clks (pw_thread s') \<and>
    step_done (pe_lib E) m inbox [Feed clk] s s'"
proof -
  let ?t = "pw_thread s" and ?L = "pe_lib E" and ?K = "pe_os E"
  have o: "th_src ?t = LiveSource cap" "length (th_frame ?t) = 1556" "ring_ok (th_ring ?t)" "chans_of (th_ring ?t) = 40" "12 < cap_of (th_ring ?t)" "pw_alive s"
    using ok by (simp_all add: session_ok_def)
  obtain before where tr': "rx_sample_rate (th_rx ?t) = rate" "\<forall>f \<in> set (inbox (th_world ?t)). link_frame f"
      "obs = before @ heard ?L (inbox (th_world ?t)) (clk # clks)" "tracks ?L obs (length before) (th_win ?t)"
    using tr unfolding on_track_def by blast
  obtain t' before' where t': "rx_round ?K (pe_long_bits E) (pe_fopen E) ?L m clk ?t = Some t'" "inbox (th_world t') = tl (inbox (th_world ?t))"
      "rx_sample_rate (th_rx t') = rate" "obs = before' @ heard ?L (inbox (th_world t')) clks" "tracks ?L obs (length before') (th_win t')"
    using live_round_progress[OF env(1-3,6) o(1) cap o(2-5) _ _ tr'(2-4), of "pe_long_bits E" "pe_fopen E"] rate unfolding tr'(1) by auto
  have link: "\<forall>f \<in> set (inbox (th_world t')). link_frame f" using tr'(2) t'(2) by (metis list.sel(2) list.set_sel(2))
  obtain fs where f: "fed ?L m inbox fds False fs ?t t'" using live_round[OF env(1,3-6) o(1) cap o(2-5) t'(1)] by blast
  have "map (take 1556) (inbox (th_world ?t)) = fs @ map (take 1556) (tl (inbox (th_world ?t)))"
    using f arriving_link[OF tr'(2)] arriving_link[OF link] t'(2) by (simp add: fed_def Let_def)
  then have "fs = map (take 1556) (take 1 (inbox (th_world ?t)))" by (cases "inbox (th_world ?t)") auto
  then have "step_done ?L m inbox [Feed clk] s (s\<lparr>pw_thread := t'\<rparr>)"
    using f t'(2) by (auto simp: step_done_def fed_def Let_def drop_Suc)
  moreover have "session_ok cap (s\<lparr>pw_thread := t'\<rparr>)" using ok f by (simp add: session_ok_def fed_def Let_def)
  moreover have "on_track ?L inbox rate obs clks t'" using t'(3-5) link by (auto simp: on_track_def)
  ultimately show ?thesis using t'(1) o(6) by (simp add: pw_step_def)
qed

lemma playback_step:
  assumes "documented_geometry (pe_lib E)" and "session_ok cap s" and "event_ok (Playback ins duration)" and "documented_inbox (pe_os E) inbox"
  shows "\<exists>s'. pw_step E m (Playback ins duration) s = Some s' \<and> session_ok cap s' \<and> pw_out s' = pw_out s \<and>
    inbox (th_world (pw_thread s')) = inbox (th_world (pw_thread s)) \<and> pw_thread s' = (pw_thread s)\<lparr>th_world := th_world (pw_thread s')\<rparr>"
proof (cases "pw_sink s")
  case None
  then show ?thesis using assms(2) by (simp add: pw_step_def)
next
  case (Some n)
  have n: "playing n" using assms(2) Some by (simp add: session_ok_def)
  obtain n' w' where r: "sink_on_process (pe_os E) (pe_lib E) n ins duration (th_world (pw_thread s)) = Some (n', w')" "playing n'"
  proof (cases "sn_tx_open n")
    case True
    then show ?thesis
      using that sink_on_process_eq[OF assms(1), of n ins duration "pe_os E" "th_world (pw_thread s)"] n assms(3) by (auto simp: playing_def event_ok_def)
  qed (use that n in \<open>simp add: sink_on_process_def\<close>)
  have "inbox w' = inbox (th_world (pw_thread s))"
    using sink_on_process_keeps[where obs = inbox and K = "pe_os E", OF documented_inboxD(3)[OF assms(4)] r(1)] by blast
  then show ?thesis using r Some assms(2) by (simp add: pw_step_def session_ok_def)
qed

lemma session_step:
  assumes env: "documented_geometry (pe_lib E)" "documented_counter (pe_lib E)" "documented_inbox (pe_os E) inbox" "documented_trace (pe_os E) sent"
      "documented_fds (pe_os E) fds" "wire_mode m" and cap: "0 \<le> cap_fd cap" and ok: "session_ok cap s" "event_ok ev"
    and rate: "reac_rate rate" "steady (pe_lib E) rate obs" and tr: "on_track (pe_lib E) inbox rate obs (feeds (ev # evs)) (pw_thread s)"
  shows "\<exists>s'. pw_step E m ev s = Some s' \<and> session_ok cap s' \<and> on_track (pe_lib E) inbox rate obs (feeds evs) (pw_thread s') \<and>
    step_done (pe_lib E) m inbox [ev] s s'"
proof (cases ev)
  case (Feed clk)
  then show ?thesis using feed_step[OF env cap ok(1) rate, of clk "feeds evs"] tr by simp
next
  case (Capture bufs duration)
  have "cycle_fits (bufs, duration)" using ok(2) Capture by (simp add: event_ok_def)
  from capture_cycle[OF ok(1) this, of E m] obtain s' given bufs' where c: "pw_step E m ev s = Some s'" "session_ok cap s'"
      "pw_thread s' = (pw_thread s)\<lparr>th_ring := th_ring (pw_thread s')\<rparr>" "pw_out s' = pw_out s @ [bufs']" "cycle_out given (bufs, duration) bufs'"
      "subseq (given @ queue_of (th_ring (pw_thread s'))) (queue_of (th_ring (pw_thread s)))"
    unfolding Capture by blast
  have same: "th_world (pw_thread s') = th_world (pw_thread s)" "th_rx (pw_thread s') = th_rx (pw_thread s)" "th_win (pw_thread s') = th_win (pw_thread s)"
    by (subst c(3), simp)+
  have "step_done (pe_lib E) m inbox [ev] s s'" using c same(1) Capture by (auto simp: step_done_def Let_def intro!: exI[of _ "[given]"])
  moreover have "on_track (pe_lib E) inbox rate obs (feeds evs) (pw_thread s')" using tr same Capture by (simp add: on_track_def)
  ultimately show ?thesis using c(1,2) by blast
next
  case (Playback ins duration)
  from playback_step[OF env(1) ok(1) ok(2)[unfolded this] env(3), of m] obtain s' where c: "pw_step E m ev s = Some s'" "session_ok cap s'" "pw_out s' = pw_out s"
      "inbox (th_world (pw_thread s')) = inbox (th_world (pw_thread s))" "pw_thread s' = (pw_thread s)\<lparr>th_world := th_world (pw_thread s')\<rparr>"
    unfolding Playback by blast
  have same: "th_ring (pw_thread s') = th_ring (pw_thread s)" "th_rx (pw_thread s') = th_rx (pw_thread s)" "th_win (pw_thread s') = th_win (pw_thread s)"
    by (subst c(5), simp)+
  have "step_done (pe_lib E) m inbox [ev] s s'" using c same(1) Playback by (auto simp: step_done_def)
  moreover have "on_track (pe_lib E) inbox rate obs (feeds evs) (pw_thread s')" using tr same c(4) Playback by (simp add: on_track_def)
  ultimately show ?thesis using c(1,2) by blast
next
  case (IoChanged c b a z)
  then have "c < length (so_ports (pw_source s))" using ok by (simp add: event_ok_def session_ok_def)
  then show ?thesis using IoChanged ok(1) tr by (auto simp: pw_step_def session_ok_def step_done_def on_track_def)
qed

lemma step_done_trans:
  assumes a: "step_done L m inbox [ev] s s1" and b: "step_done L m inbox evs s1 s2"
  shows "step_done L m inbox (ev # evs) s s2"
proof -
  let ?q = "\<lambda>s. queue_of (th_ring (pw_thread s))" and ?ps = "inbox (th_world (pw_thread s))" and ?j = "length (feeds [ev])" and ?k = "length (feeds evs)"
  have cyc: "cycles (ev # evs) = cycles [ev] @ cycles evs" and fd: "length (feeds (ev # evs)) = ?j + ?k" by simp_all
  obtain g1 o1 where A: "inbox (th_world (pw_thread s1)) = drop ?j ?ps" "pw_out s1 = pw_out s @ o1" "length g1 = length (cycles [ev])"
      "list_all2 (\<lambda>(xs, q) out. cycle_out xs q out) (zip g1 (cycles [ev])) o1"
      "subseq (concat g1 @ ?q s1) (?q s @ steps_of L m (map (take 1556) (take ?j ?ps)))"
    using a unfolding step_done_def Let_def by blast
  obtain g2 o2 where B: "inbox (th_world (pw_thread s2)) = drop ?k (drop ?j ?ps)" "pw_out s2 = pw_out s1 @ o2" "length g2 = length (cycles evs)"
      "list_all2 (\<lambda>(xs, q) out. cycle_out xs q out) (zip g2 (cycles evs)) o2"
      "subseq (concat g2 @ ?q s2) (?q s1 @ steps_of L m (map (take 1556) (take ?k (drop ?j ?ps))))"
    using b unfolding step_done_def Let_def A(1) by blast
  let ?r = "steps_of L m (map (take 1556) (take ?k (drop ?j ?ps)))"
  have "subseq (concat g1 @ concat g2 @ ?q s2) (concat g1 @ ?q s1 @ ?r)" by (rule list_emb_append_mono[OF subseq_order.refl B(5)])
  also have "subseq \<dots> ((?q s @ steps_of L m (map (take 1556) (take ?j ?ps))) @ ?r)"
    using list_emb_append_mono[OF A(5) subseq_order.refl[of ?r]] by simp
  finally have "subseq (concat (g1 @ g2) @ ?q s2) (?q s @ steps_of L m (map (take 1556) (take (?j + ?k) ?ps)))" by (simp add: take_add)
  moreover have "list_all2 (\<lambda>(xs, q) out. cycle_out xs q out) (zip (g1 @ g2) (cycles (ev # evs))) (o1 @ o2)"
    unfolding cyc using list_all2_appendI[OF A(4) B(4)] A(3) by simp
  ultimately show ?thesis
    unfolding step_done_def Let_def fd using A(2,3) B(1-3) cyc by (intro conjI exI[of _ "g1 @ g2"] exI[of _ "o1 @ o2"]) (simp_all add: add.commute)
qed

lemma session_steps:
  assumes env: "documented_geometry (pe_lib E)" "documented_counter (pe_lib E)" "documented_inbox (pe_os E) inbox" "documented_trace (pe_os E) sent"
      "documented_fds (pe_os E) fds" "wire_mode m" and cap: "0 \<le> cap_fd cap" and rate: "reac_rate rate" "steady (pe_lib E) rate obs"
    and ok: "session_ok cap s" "\<forall>ev \<in> set evs. event_ok ev" "on_track (pe_lib E) inbox rate obs (feeds (evs @ rest)) (pw_thread s)"
  shows "\<exists>s'. pw_steps E m evs s = Some s' \<and> step_done (pe_lib E) m inbox evs s s' \<and> session_ok cap s' \<and>
    on_track (pe_lib E) inbox rate obs (feeds rest) (pw_thread s')"
  using ok
proof (induction evs arbitrary: s)
  case Nil
  then show ?case by (auto simp: step_done_def)
next
  case (Cons ev evs)
  have ev: "event_ok ev" "\<forall>ev \<in> set evs. event_ok ev" using Cons.prems(2) by simp_all
  have tr: "on_track (pe_lib E) inbox rate obs (feeds (ev # (evs @ rest))) (pw_thread s)" using Cons.prems(3) by simp
  obtain s1 where s1: "pw_step E m ev s = Some s1" "session_ok cap s1" "on_track (pe_lib E) inbox rate obs (feeds (evs @ rest)) (pw_thread s1)"
      "step_done (pe_lib E) m inbox [ev] s s1"
    using session_step[OF env cap Cons.prems(1) ev(1) rate tr] by blast
  with Cons.IH[OF s1(2) ev(2) s1(3)] step_done_trans show ?case by fastforce
qed

text \<open>
  A session on a live link whose counter keeps to the rate, with buffers that fit the cycles, is defined however its steps interleave.
\<close>

lemma session_records_wire:
  assumes env: "documented_geometry (pe_lib E)" "documented_modes (pe_lib E)" "documented_counter (pe_lib E)"
      "documented_inbox (pe_os E) inbox" "documented_trace (pe_os E) sent" "documented_fds (pe_os E) fds"
    and live: "rc_kind (rx_cfg rx) = REAC_RX_LIVE" "fst (reac_capture_open (pe_os E) (rc_source (rx_cfg rx)) w) = 0"
    and ring: "ring_ok ring" "chans_of ring = 40" "12 < cap_of ring"
    and node: "so_channels n = 40" "length (so_scratch n) = 8192" "length (so_ports n) = 40" "\<forall>k. sink = Some k \<longrightarrow> playing k"
    and events: "\<forall>ev \<in> set (pe_events E). event_ok ev" and link: "\<forall>f \<in> set (inbox w). link_frame f" "reac_rate (rx_sample_rate rx)"
      "steady (pe_lib E) (rx_sample_rate rx) (heard (pe_lib E) (inbox w) (feeds (pe_events E)))"
  shows "\<exists>s given. pw_session E rx ring n sink w = Some s \<and> length given = length (cycles (pe_events E)) \<and>
    list_all2 (\<lambda>(xs, q) out. cycle_out xs q out) (zip given (cycles (pe_events E))) (pw_out s) \<and>
    subseq (concat given) (queue_of ring @ steps_of (pe_lib E) (reac_mode_for (pe_lib E) (rx_sample_rate rx))
      (map (take 1556) (take (length (feeds (pe_events E))) (inbox w))))"
proof -
  let ?K = "pe_os E" and ?L = "pe_lib E" and ?m = "reac_mode_for (pe_lib E) (rx_sample_rate rx)"
  have m: "wire_mode ?m" using env(2) by (simp add: wire_mode_def documented_modes_def)
  obtain cap w1 where o: "reac_capture_open ?K (rc_source (rx_cfg rx)) w = (0, cap, w1)" using live(2) by (metis prod.collapse)
  define w2 where "w2 = snd (reac_capture_set_nonblock ?K cap False w1)"
  note kp = documented_inboxD(4)[OF env(4)]
  have w2: "inbox w2 = inbox w" using capture_control(1)[OF kp o] capture_control(2)[OF kp] by (simp add: w2_def)
  have c: "0 \<le> cap_fd cap" using capture_fds[OF env(6) o prod.collapse[symmetric]] by simp
  define s0 where "s0 = \<lparr>pw_thread = \<lparr>th_rx = rx, th_ring = ring,
            th_locals = \<lparr>rl_last_counter = 0, rl_have_counter = False, rl_pcap_first_ts = 0, rl_wall_first_ns = 0\<rparr>,
            th_win = \<lparr>win_start_ns = 0, win_frames = 0, win_last_counter = 0, win_have_last = False\<rparr>, th_src = LiveSource cap,
            th_frame = replicate (REAC_FRAME_BYTES ?L + 64) 0, th_world = w2\<rparr>,
         pw_alive = True, pw_source = n, pw_sink = sink, pw_out = []\<rparr>"
  have ok: "session_ok cap s0" using ring node env(1) by (simp add: session_ok_def s0_def geometry_simps)
  have tr: "on_track ?L inbox (rx_sample_rate rx) (heard ?L (inbox w) (feeds (pe_events E))) (feeds (pe_events E)) (pw_thread s0)"
    using link(1) w2 by (auto simp: on_track_def s0_def tracks_def intro!: exI[of _ "[]"])
  obtain s1 where s1: "pw_steps E ?m (pe_events E) s0 = Some s1" "step_done ?L ?m inbox (pe_events E) s0 s1"
    using session_steps[OF env(1,3-6) m c link(2,3) ok events, where rest = "[]"] tr by auto
  then obtain s where s: "pw_session E rx ring n sink w = Some s" "pw_out s = pw_out s1"
    using live(1) o by (auto simp: pw_session_def rx_source_open_def case_prod_unfold Let_def s0_def w2_def)
  obtain given where "length given = length (cycles (pe_events E))" "list_all2 (\<lambda>(xs, q) out. cycle_out xs q out) (zip given (cycles (pe_events E))) (pw_out s)"
      "subseq (concat given @ queue_of (th_ring (pw_thread s1)))
         (queue_of ring @ steps_of ?L ?m (map (take 1556) (take (length (feeds (pe_events E))) (inbox w))))"
    using s1(2) s(2) w2 unfolding step_done_def Let_def s0_def by auto
  then show ?thesis using s(1) subseq_order.trans[OF prefix_imp_subseq[OF prefixI[OF refl]]] by blast
qed

subsection \<open>The program on a live link\<close>

lemma source_node_fresh:
  assumes "documented_geometry L" and "reac_source_node_new L alloc filt port conn rate = Some n"
  shows "so_channels n = 40" "length (so_scratch n) = 8192" "length (so_ports n) = 40"
  using assms by (auto simp: reac_source_node_new_def geometry_simps REAC_MAX_QUANTUM_def Let_def split: if_splits)

lemma sink_node_fresh:
  assumes geo: "documented_geometry (pe_lib E)" and keeps: "control_keeps (pe_os E) obs" and new: "pw_sink_new E tx_if rate tx_ring w = (sink, tx1, w1)"
  shows "obs w1 = obs w \<and> (\<forall>k. sink = Some k \<longrightarrow> playing k)"
proof (cases tx_if)
  case None
  then show ?thesis using new by (simp add: pw_sink_new_def)
next
  case (Some ifname)
  note C = control_keepsD[OF keeps]
  let ?o = "reac_tx_open (pe_os E) (pe_lib E) ifname w"
  have o: "obs (snd (snd ?o)) = obs w" using C(1-3) by (simp add: reac_tx_open_def case_prod_unfold Let_def split: option.splits)
  have "obs (snd (reac_tx_close (pe_os E) tx w')) = obs w'" for tx w' using C(2) by (simp add: reac_tx_close_def)
  moreover have "sink_ok \<lparr>sn_tx = tx\<lparr>tx_src := [0x00, 0x40, 0xab, 0x00, 0x00, 0x01]\<rparr>, sn_tx_open = True, sn_channels = 40, sn_sample_rate = rate,
      sn_stage = replicate 40 (replicate 12 0), sn_staged = 0\<rparr>" for tx by (simp add: sink_ok_def)
  ultimately show ?thesis
    using new o Some by (auto simp: pw_sink_new_def reac_sink_node_new_def geometry_simps[OF geo] case_prod_unfold Let_def playing_def split: if_splits)
qed

text \<open>
  C9.  The PipeWire endpoint records what the wire carried.  Started on an interface that can be opened, at a rate of REAC, on a link whose counter keeps to
  that rate, and with buffers that fit the cycles, the program runs and ends with status 0, however rounds of the feeder, graph cycles of both nodes
  and link changes interleave.  Each cycle of the capture node fills the buffers of the linked ports with the channels of one run of time steps, the same for
  all ports, padded with silence; and the runs of all cycles together are a subsequence, in order, of the time steps of the good ones among the frames taken,
  which are the first frames of the link, one for each round of the feeder.  Nothing is repeated, reordered or torn across channels, and no
  descriptor is left open.
\<close>

theorem pw_main_records:
  assumes env: "documented_geometry (pe_lib E)" "documented_modes (pe_lib E)" "documented_counter (pe_lib E)"
      "documented_inbox (pe_os E) inbox" "documented_trace (pe_os E) sent" "documented_fds (pe_os E) fds"
    and args: "pw_parse_args args pw_default = Some (Inr o')" "po_kind o' = REAC_RX_LIVE" "po_source o' = Some ifname"
    and mem: "\<And>n. pe_ring_alloc E n" and up: "pe_node_alloc E" "pe_source_filter E" "pe_source_connect E" "pe_thread_create E = 0"
    and rx: "reac_rx_open (pe_os E) (pe_detect E) (pe_ring_alloc E) (pe_lib E)
        \<lparr>rc_kind = REAC_RX_LIVE, rc_source = ifname, rc_forced_rate = po_forced_rate o', rc_pcap_realtime = True\<rparr> ring w = (0, rx, ring1, w1)"
    and sink: "pw_sink_new E (po_tx_if o') (rx_sample_rate rx) tx_ring w1 = (sink, tx1, w2)" "fst (reac_capture_open (pe_os E) ifname w2) = 0"
    and events: "\<forall>ev \<in> set (pe_events E). event_ok ev" and link: "\<forall>f \<in> set (inbox w). link_frame f" "reac_rate (rx_sample_rate rx)"
      "steady (pe_lib E) (rx_sample_rate rx) (heard (pe_lib E) (inbox w) (feeds (pe_events E)))"
  shows "\<exists>out w' given. pw_main E ring tx_ring args w = Some (0, out, w') \<and> fds w' = fds w \<and> length given = length (cycles (pe_events E)) \<and>
    list_all2 (\<lambda>(xs, q) out. cycle_out xs q out) (zip given (cycles (pe_events E))) out \<and>
    subseq (concat given) (steps_of (pe_lib E) (reac_mode_for (pe_lib E) (rx_sample_rate rx))
      (map (take 1556) (take (length (feeds (pe_events E))) (inbox w))))"
proof -
  note keeps = documented_inboxD(4)[OF env(4)]
  note R = rx_opened[OF env(1) keeps mem rx link(2)] and K = sink_node_fresh[OF env(1) keeps sink(1)]
  obtain n where n: "reac_source_node_new (pe_lib E) (pe_node_alloc E) (pe_source_filter E) (pe_source_port E) (pe_source_connect E) (rx_sample_rate rx) = Some n"
    using up(1-3) by (auto simp: reac_source_node_new_def Let_def)
  let ?rx = "rx\<lparr>rx_running := True\<rparr>"
  have open2: "fst (reac_capture_open (pe_os E) (rc_source (rx_cfg ?rx)) w2) = 0" using sink(2) R by simp
  have ib: "inbox w2 = inbox w" using K R by simp
  obtain s given where s: "pw_session E ?rx ring1 n sink w2 = Some s" "length given = length (cycles (pe_events E))"
      "list_all2 (\<lambda>(xs, q) out. cycle_out xs q out) (zip given (cycles (pe_events E))) (pw_out s)"
      "subseq (concat given) (steps_of (pe_lib E) (reac_mode_for (pe_lib E) (rx_sample_rate rx))
         (map (take 1556) (take (length (feeds (pe_events E))) (inbox w))))"
    using session_records_wire[where rx = ?rx and ring = ring1, OF env _ open2 _ _ _ source_node_fresh[OF env(1) n] conjunct2[OF K] events] link R
    unfolding ib by auto
  define w' where "w' = reac_sink_node_destroy (pe_os E) (pw_sink s) (th_world (pw_thread s))"
  have serve: "pw_serve E (po_tx_if o') rx ring1 tx_ring n w1 = Some (0, pw_out s, w')"
    using sink(1) s(1) up(4) by (simp add: pw_serve_def reac_rx_start_def w'_def)
  have run: "pw_main E ring tx_ring args w = Some (0, pw_out s, w')" using serve n rx args unfolding pw_main_def by simp
  have "fds w' = fds w" using pw_serve_fds[OF env(6) up(4) serve] rx_open_fds[OF env(6) rx] by simp
  then show ?thesis using run s(2-4) by blast
qed

theorem pw_main_records_witness:
  "\<exists>w' xs out. pw_main sample_pw ring16 ring16 [''--live'', ''reac0'', ''--tx'', ''reac0''] (log_start\<lparr>lw_inbox := [sample_frame, sample_next]\<rparr>)
       = Some (0, [out], w') \<and> cycle_out xs (replicate 39 None @ [Some [Fin 1, Fin 2, Fin 3]], 2) out \<and>
     subseq xs (frame_steps mode_48k sample_frame @ frame_steps mode_48k sample_next) \<and> lw_fds w' = {}"
proof -
  let ?w = "log_start\<lparr>lw_inbox := [sample_frame, sample_next]\<rparr>" and ?a = "[''--live'', ''reac0'', ''--tx'', ''reac0'']"
  let ?cfg = "\<lparr>rc_kind = REAC_RX_LIVE, rc_source = ''reac0'', rc_forced_rate = 0, rc_pcap_realtime = True\<rparr>"
  obtain rx ring1 w1 where rx: "reac_rx_open log_os (\<lambda>_. 48000) (\<lambda>_. True) libreac_doc ?cfg ring16 ?w = (0, rx, ring1, w1)"
      "rx_sample_rate rx = 48000" "w1 = ?w\<lparr>lw_next := 4\<rparr>"
    by (auto simp: reac_rx_open_def reac_capture_open_def reac_capture_close_def log_start_def ifr_name_def IFNAMSIZ_def reac_ring_init_def Let_def)
  obtain sink tx1 w2 where k: "pw_sink_new sample_pw (Some ''reac0'') 48000 ring16 w1 = (sink, tx1, w2)" "w2 = ?w\<lparr>lw_fds := {4}, lw_next := 5\<rparr>"
    by (auto simp: rx(3) pw_sink_new_def reac_sink_node_new_def reac_tx_open_def sample_pw_def reac_ring_init_def log_start_def ifr_name_def IFNAMSIZ_def Let_def)
  have o: "fst (reac_capture_open log_os ''reac0'' w2) = 0" by (simp add: k(2) reac_capture_open_def log_start_def ifr_name_def IFNAMSIZ_def)
  have ins: "ins_ok (replicate 39 None @ [Some [Fin 1, Fin 0]]) 40 2"
    by (auto simp: ins_ok_def nth_append less_Suc_eq numeral_2_eq_2 finite_sample_def split: option.splits)
  have "\<exists>out w' given. pw_main sample_pw ring16 ring16 ?a ?w = Some (0, out, w') \<and> lw_fds w' = lw_fds ?w \<and> length given = length (cycles (pe_events sample_pw)) \<and>
    list_all2 (\<lambda>(xs, q) out. cycle_out xs q out) (zip given (cycles (pe_events sample_pw))) out \<and>
    subseq (concat given) (steps_of (pe_lib sample_pw) (reac_mode_for (pe_lib sample_pw) (rx_sample_rate rx))
      (map (take 1556) (take (length (feeds (pe_events sample_pw))) (lw_inbox ?w))))"
    by (rule pw_main_records[where inbox = lw_inbox and sent = lw_sent and ifname = "''reac0''" and o' = "pw_default\<lparr>po_kind := REAC_RX_LIVE, po_source := Some ''reac0'', po_tx_if := Some ''reac0''\<rparr>"
          and ?ring1.0 = ring1 and ?w1.0 = w1 and sink = sink and ?tx1.0 = tx1 and ?w2.0 = w2])
      (use rx k(1) o ins sample_steady in \<open>simp_all add: pw_default_def cycle_fits_def event_ok_def del: heard_simps\<close>)
  then show ?thesis using rx(2) by (auto simp: length_Suc_conv list_all2_Cons1 log_start_def) blast
qed

text \<open>
  C27.  A session is well typed, and well-typed sessions do not get stuck.  Between any two steps on a steady link the state of the endpoint has its shape: the
  thread runs on the live source with a frame buffer of 1556 bytes, the ring is well formed with forty channels and room for more than a frame, the
  capture node has its forty ports and its scratch space of 8192 samples, and the playback node, if there is one, an
  inventory of forty channels with at most twelve staged samples.  From each such state every permitted event can be taken, and leads to such a state again.
\<close>

theorem endpoint_type_sound:
  assumes env: "documented_geometry (pe_lib E)" "documented_counter (pe_lib E)" "documented_inbox (pe_os E) inbox" "documented_trace (pe_os E) sent"
      "documented_fds (pe_os E) fds" "wire_mode m" and cap: "0 \<le> cap_fd cap" and rate: "reac_rate rate" "steady (pe_lib E) rate obs"
    and ok: "session_ok cap s" "\<forall>e \<in> set (evs @ [ev]). event_ok e" "on_track (pe_lib E) inbox rate obs (feeds (evs @ [ev])) (pw_thread s)"
  shows "\<exists>s1 s2. pw_steps E m evs s = Some s1 \<and> session_ok cap s1 \<and> pw_step E m ev s1 = Some s2 \<and> session_ok cap s2 \<and>
    th_src (pw_thread s2) = LiveSource cap \<and> length (th_frame (pw_thread s2)) = 1556 \<and> ring_ok (th_ring (pw_thread s2)) \<and>
    chans_of (th_ring (pw_thread s2)) = 40 \<and> length (so_ports (pw_source s2)) = 40 \<and> length (so_scratch (pw_source s2)) = 8192 \<and>
    (\<forall>n. pw_sink s2 = Some n \<longrightarrow> playing n)"
proof -
  have ev: "\<forall>e \<in> set evs. event_ok e" "event_ok ev" using ok(2) by simp_all
  obtain s1 where s1: "pw_steps E m evs s = Some s1" "session_ok cap s1" "on_track (pe_lib E) inbox rate obs (feeds [ev]) (pw_thread s1)"
    using session_steps[OF env cap rate ok(1) ev(1) ok(3)] by blast
  obtain s2 where "pw_step E m ev s1 = Some s2" "session_ok cap s2" using session_step[OF env cap s1(2) ev(2) rate s1(3)] by blast
  then show ?thesis using s1(1,2) by (auto simp: session_ok_def)
qed

text \<open>The session of the sample, before its first step.\<close>

definition sample_session :: "log_world pw_state" where
  "sample_session = \<lparr>pw_thread = \<lparr>th_rx = sample_rx, th_ring = ring16,
       th_locals = \<lparr>rl_last_counter = 0, rl_have_counter = False, rl_pcap_first_ts = 0, rl_wall_first_ns = 0\<rparr>,
       th_win = \<lparr>win_start_ns = 0, win_frames = 0, win_last_counter = 0, win_have_last = False\<rparr>, th_src = LiveSource \<lparr>cap_fd = 5\<rparr>,
       th_frame = replicate 1556 0, th_world = log_start\<lparr>lw_inbox := [sample_frame, sample_next]\<rparr>\<rparr>,
     pw_alive = True, pw_source = \<lparr>so_sample_rate = 48000, so_channels = 40, so_ports = replicate 40 None, so_scratch = replicate 8192 0\<rparr>,
     pw_sink = None, pw_out = []\<rparr>"

theorem endpoint_type_sound_witness:
  "\<exists>s1 s2. pw_steps sample_pw mode_48k [Feed (0, 0), Feed (0, 300000000)] sample_session = Some s1 \<and>
     pw_step sample_pw mode_48k (Capture (replicate 40 (Some [Fin 1, Fin 2])) 2) s1 = Some s2 \<and> chans_of (th_ring (pw_thread s2)) = 40 \<and>
     length (so_ports (pw_source s2)) = 40"
proof -
  have "wire_mode mode_48k" by (simp add: wire_mode_def)
  moreover have "session_ok \<lparr>cap_fd = 5\<rparr> sample_session" by (simp add: session_ok_def sample_session_def)
  moreover have "on_track libreac_doc lw_inbox 48000 (heard libreac_doc [sample_frame, sample_next] [(0, 0), (0, 300000000)])
      [(0, 0), (0, 300000000)] (pw_thread sample_session)"
    using sample_link by (auto simp: on_track_def sample_session_def tracks_def intro!: exI[of _ "[]"] simp del: heard_simps)
  ultimately show ?thesis
    using endpoint_type_sound[of sample_pw lw_inbox lw_sent lw_fds mode_48k "\<lparr>cap_fd = 5\<rparr>" 48000
        "heard libreac_doc [sample_frame, sample_next] [(0, 0), (0, 300000000)]" sample_session "[Feed (0, 0), Feed (0, 300000000)]"
        "Capture (replicate 40 (Some [Fin 1, Fin 2])) 2"] sample_steady
    by (auto simp: event_ok_def cycle_fits_def simp del: heard_simps)
qed

end
