(* ===== verification/Aes67_Send.thy ===== *)
theory Aes67_Send
  imports Os
begin

text \<open>
  The UDP sender of \<open>src/aes67_send.c\<close>.  \<open>alloc_ok\<close> tells whether the allocation of the destination
  address succeeds; a null or empty interface name is \<open>None\<close> or the empty string, as in the code.
\<close>

record aes67_sender =
  snd_fd :: int
  snd_dest :: "sockaddr_in option"

definition ifname_to_addr :: "'w os \<Rightarrow> int \<Rightarrow> string \<Rightarrow> 'w \<Rightarrow> byte list option \<times> 'w" where
  "ifname_to_addr K fd ifname w = os_ifaddr K fd (ifr_name ifname) w"

definition aes67_send_open ::
  "'w os \<Rightarrow> bool \<Rightarrow> string \<Rightarrow> u16 \<Rightarrow> int \<Rightarrow> string option \<Rightarrow> 'w \<Rightarrow> int \<times> aes67_sender \<times> 'w" where
  "aes67_send_open K alloc_ok ip port ttl ifname w =
     (let s = \<lparr>snd_fd = - 1, snd_dest = None\<rparr> in
      if \<not> alloc_ok then (- 1, s, w)
      else case os_inet_pton K ip of
        None \<Rightarrow> (- 1, s, w)
      | Some addr \<Rightarrow>
          (let (fd, w) = os_socket K InetDgram w in
           if fd < 0 then (- 1, s, w)
           else
             let t = word_of_int (if ttl < 1 then 1 else ttl);
                 (_, w) = os_setsockopt K fd (IpMulticastTtl t) w;
                 (_, w) = os_setsockopt K fd (IpMulticastLoop 1) w;
                 w = (case ifname of
                        None \<Rightarrow> w
                      | Some name \<Rightarrow>
                          if name = [] then w
                          else
                            let (ia, w) = ifname_to_addr K fd name w;
                                w = (case ia of None \<Rightarrow> w | Some a \<Rightarrow> snd (os_setsockopt K fd (IpMulticastIf a) w))
                            in snd (os_setsockopt K fd (SoBindToDevice name) w))
             in (0, s\<lparr>snd_fd := fd, snd_dest := Some \<lparr>sin_port = port, sin_addr = addr\<rparr>\<rparr>, w)))"

definition aes67_send_set_dscp :: "'w os \<Rightarrow> aes67_sender \<Rightarrow> int \<Rightarrow> 'w \<Rightarrow> int \<times> 'w" where
  "aes67_send_set_dscp K s dscp w =
     (if snd_fd s < 0 then (- 1, w)
      else let tos = push_bit 2 (dscp AND 0x3f) in os_setsockopt K (snd_fd s) (IpTos tos) w)"

definition aes67_send_packet :: "'w os \<Rightarrow> aes67_sender \<Rightarrow> byte list \<Rightarrow> 'w \<Rightarrow> int \<times> 'w" where
  "aes67_send_packet K s buf w =
     (if snd_fd s < 0 then (- 1, w)
      else case snd_dest s of
        None \<Rightarrow> (- 1, w)
      | Some dst \<Rightarrow> os_sendto K (snd_fd s) buf (SockaddrIn dst) w)"

definition aes67_send_close :: "'w os \<Rightarrow> aes67_sender \<Rightarrow> 'w \<Rightarrow> aes67_sender \<times> 'w" where
  "aes67_send_close K s w =
     (if snd_fd s \<ge> 0 then (\<lparr>snd_fd = - 1, snd_dest = None\<rparr>, os_close K (snd_fd s) w)
      else (s\<lparr>snd_dest := None\<rparr>, w))"

lemma snd_setsockopt [simp]: "documented_fds K fds \<Longrightarrow> fds (snd (os_setsockopt K fd x w)) = fds w"
  using documented_fdsD(7) by (metis prod.collapse)

lemma snd_ifaddr [simp]: "documented_fds K fds \<Longrightarrow> fds (snd (os_ifaddr K fd s w)) = fds w"
  using documented_fdsD(5) by (metis prod.collapse)

lemma snd_sendto [simp]: "documented_fds K fds \<Longrightarrow> fds (snd (os_sendto K fd bs a w)) = fds w"
  using documented_fdsD(11) by (metis prod.collapse)

lemma send_open_fds:
  assumes "documented_fds K fds" and "aes67_send_open K alloc_ok ip port ttl ifname w = (rc, s, w1)"
  shows "if rc = 0 then 0 \<le> snd_fd s \<and> snd_fd s \<notin> fds w \<and> fds w1 = insert (snd_fd s) (fds w) \<and>
           (\<exists>a. os_inet_pton K ip = Some a \<and> snd_dest s = Some \<lparr>sin_port = port, sin_addr = a\<rparr>)
         else rc = - 1 \<and> snd_fd s = - 1 \<and> fds w1 = fds w"
proof -
  obtain fd w0 where s: "os_socket K InetDgram w = (fd, w0)" by fastforce
  show ?thesis
    using assms s documented_fdsD(1)[OF assms(1) s] documented_fdsD(2)[OF assms(1) s]
    by (cases "fd < 0")
      (auto simp: aes67_send_open_def ifname_to_addr_def Let_def split_beta split: if_splits option.splits)
qed

lemma send_packet_fds: "documented_fds K fds \<Longrightarrow> fds (snd (aes67_send_packet K s buf w)) = fds w"
  by (simp add: aes67_send_packet_def split: option.split)

lemma send_close_fds:
  "documented_fds K fds \<Longrightarrow> fds (snd (aes67_send_close K s w)) = (if 0 \<le> snd_fd s then fds w - {snd_fd s} else fds w)"
  using documented_fdsD(3)[of K fds] by (simp add: aes67_send_close_def)

lemma send_dscp_fds: "documented_fds K fds \<Longrightarrow> fds (snd (aes67_send_set_dscp K s d w)) = fds w"
  by (simp add: aes67_send_set_dscp_def Let_def)

lemma send_open_dest:
  "aes67_send_open K alloc_ok ip port ttl ifname w = (0, s, w1) \<Longrightarrow>
     \<exists>addr. os_inet_pton K ip = Some addr \<and> snd_dest s = Some \<lparr>sin_port = port, sin_addr = addr\<rparr>"
  unfolding aes67_send_open_def by (auto simp: Let_def case_prod_unfold split: if_splits option.splits)

lemma send_control:
  assumes "control_keeps K obs"
  shows "aes67_send_open K alloc_ok ip port ttl ifname w = (rc, s, w1) \<Longrightarrow> obs w1 = obs w"
    "obs (snd (aes67_send_set_dscp K s d w)) = obs w" "obs (snd (aes67_send_close K s w)) = obs w"
proof -
  note C = control_keepsD[OF assms]
  show "aes67_send_open K alloc_ok ip port ttl ifname w = (rc, s, w1) \<Longrightarrow> obs w1 = obs w"
    using C(1,4,6) unfolding aes67_send_open_def ifname_to_addr_def Let_def
    by (auto simp: case_prod_unfold split: if_splits option.splits)
  show "obs (snd (aes67_send_set_dscp K s d w)) = obs w" using C(6) by (simp add: aes67_send_set_dscp_def Let_def)
  show "obs (snd (aes67_send_close K s w)) = obs w" using C(2) by (simp add: aes67_send_close_def)
qed

text \<open>The type-of-service byte holds the low six bits of the class in its high six bits.\<close>

lemma dscp_tos: "push_bit 2 (dscp AND 0x3f) = 4 * (dscp mod 64 :: int)"
proof -
  have "dscp AND 0x3f = dscp mod 64" using take_bit_eq_mask[of 6 dscp] by (simp add: mask_eq_exp_minus_1 take_bit_eq_mod)
  then show ?thesis by (simp add: push_bit_eq_mult)
qed

end
