(* ===== verification/Sdp_Sap.thy ===== *)
theory Sdp_Sap
  imports C_String Aes67_Send
begin

text \<open>
  The session description of \<open>src/sdp.c\<close> and its announcement packet of \<open>src/sap.c\<close>, with the announcer of
  \<open>src/main.c\<close> that sends it.
\<close>

record sdp_params =
  sp_session_name :: string
  sp_origin_ip :: string
  sp_mcast_ip :: string
  sp_mcast_port :: int
  sp_payload_type :: int
  sp_rate :: int
  sp_channels :: int
  sp_ttl :: int
  sp_ptime_ms :: int
  sp_ts_refclk :: "string option"
  sp_mediaclk_direct :: int

abbreviation crlf :: string where "crlf \<equiv> [CHR 0x0D, CHR 0x0A]"

text \<open>The three texts of the format strings.\<close>

definition sdp_head :: "sdp_params \<Rightarrow> string" where
  "sdp_head p = (let ptime = (if sp_ptime_ms p > 0 then sp_ptime_ms p else 1) in
     ''v=0'' @ crlf @
     ''o=- 1 1 IN IP4 '' @ sp_origin_ip p @ crlf @
     ''s='' @ sp_session_name p @ crlf @
     ''c=IN IP4 '' @ sp_mcast_ip p @ ''/'' @ decimal_int (sp_ttl p) @ crlf @
     ''t=0 0'' @ crlf @
     ''m=audio '' @ decimal_int (sp_mcast_port p) @ '' RTP/AVP '' @ decimal_int (sp_payload_type p) @ crlf @
     ''a=rtpmap:'' @ decimal_int (sp_payload_type p) @ '' L24/'' @ decimal_int (sp_rate p) @ ''/''
       @ decimal_int (sp_channels p) @ crlf @
     ''a=ptime:'' @ decimal_int ptime @ crlf)"

definition sdp_clock :: "string \<Rightarrow> int \<Rightarrow> string" where
  "sdp_clock refclk direct = ''a=ts-refclk:ptp=IEEE1588-2008:'' @ refclk @ crlf @
     ''a=mediaclk:direct='' @ decimal_int direct @ crlf"

definition sdp_tail :: string where "sdp_tail = ''a=recvonly'' @ crlf"

definition sdp_build :: "byte list \<Rightarrow> nat \<Rightarrow> sdp_params \<Rightarrow> (int \<times> byte list) option" where
  "sdp_build out cap p = do {
     let off = 0;
     (n, out) \<leftarrow> snprintf_at out off cap (sdp_head p);
     if n < 0 \<or> n \<ge> int (cap - off) then Some (- 1, out)
     else do {
       let off = off + nat n;
       (fits, off, out) \<leftarrow> (case sp_ts_refclk p of
          None \<Rightarrow> Some (True, off, out)
        | Some refclk \<Rightarrow> do {
            (n, out) \<leftarrow> snprintf_at out off cap (sdp_clock refclk (sp_mediaclk_direct p));
            Some (\<not> (n < 0 \<or> n \<ge> int (cap - off)), off + nat n, out)
          });
       if \<not> fits then Some (- 1, out)
       else do {
         (n, out) \<leftarrow> snprintf_at out off cap sdp_tail;
         if n < 0 \<or> n \<ge> int (cap - off) then Some (- 1, out)
         else Some (int (off + nat n), out)
       }
     }
   }"

definition SAP_MIME :: string where "SAP_MIME = ''application/sdp''"
definition SAP_MCAST_ADDR :: string where "SAP_MCAST_ADDR = ''224.0.0.56''"
definition SAP_MCAST_ADDR_DANTE :: string where "SAP_MCAST_ADDR_DANTE = ''239.255.255.255''"
definition SAP_PORT :: u16 where "SAP_PORT = 9875"

text \<open>\<open>sdp\<close> is the memory the text pointer points to; \<open>strlen\<close> needs a terminator in it.\<close>

definition sap_build ::
  "'w os \<Rightarrow> byte list \<Rightarrow> nat \<Rightarrow> string \<Rightarrow> u16 \<Rightarrow> byte list \<Rightarrow> (int \<times> byte list) option" where
  "sap_build K out cap origin_ip msg_id_hash sdp = (case os_inet_pton K origin_ip of
     None \<Rightarrow> Some (- 1, out)
   | Some a \<Rightarrow> do {
       let mime = bytes_of SAP_MIME @ [0];
       let mime_len = length mime;
       sdp_len \<leftarrow> strlen_from sdp;
       let total = 8 + mime_len + sdp_len;
       if cap < total then Some (- 1, out)
       else do {
         out \<leftarrow> wr out 0 0x20;
         out \<leftarrow> wr out 1 0x00;
         out \<leftarrow> wr out 2 (ucast (drop_bit 8 msg_id_hash));
         out \<leftarrow> wr out 3 (ucast (msg_id_hash AND 0xff));
         out \<leftarrow> memcpy out 4 a 0 4;
         out \<leftarrow> memcpy out 8 mime 0 mime_len;
         out \<leftarrow> memcpy out (8 + mime_len) sdp 0 sdp_len;
         Some (int total, out)
       }
     })"

primrec sap_hash_from :: "u16 \<Rightarrow> byte list \<Rightarrow> u16 option" where
  "sap_hash_from h [] = None"
| "sap_hash_from h (b # bs) = (if b = 0 then Some h else sap_hash_from (h * 31 + ucast b) bs)"

definition sap_hash :: "byte list option \<Rightarrow> u16 option" where
  "sap_hash s = do {
     h \<leftarrow> (case s of None \<Rightarrow> Some 0x1234 | Some bs \<Rightarrow> sap_hash_from 0x1234 bs);
     Some (if h \<noteq> 0 then h else 1)
   }"

record sap_announcer =
  sa_snd :: aes67_sender
  sa_pkt :: "byte list"
  sa_len :: int
  sa_active :: bool

definition sap_announcer_start ::
  "'w os \<Rightarrow> bool \<Rightarrow> sap_announcer \<Rightarrow> string option \<Rightarrow> string \<Rightarrow> u16 \<Rightarrow> int \<Rightarrow> int \<Rightarrow> int \<Rightarrow> int \<Rightarrow>
   string option \<Rightarrow> string option \<Rightarrow> 'w \<Rightarrow> (int \<times> sap_announcer \<times> 'w) option" where
  "sap_announcer_start K alloc_ok sa name mcast_ip mcast_port pt rate channels ttl origin_ip iface_egress w = do {
     let sa = sa\<lparr>sa_active := False\<rparr>;
     let sp = \<lparr>sp_session_name = (case name of None \<Rightarrow> ''REAC'' | Some s \<Rightarrow> s),
               sp_origin_ip = (case origin_ip of None \<Rightarrow> ''0.0.0.0'' | Some s \<Rightarrow> s),
               sp_mcast_ip = mcast_ip, sp_mcast_port = uint mcast_port, sp_payload_type = pt,
               sp_rate = rate, sp_channels = channels, sp_ttl = ttl, sp_ptime_ms = 0,
               sp_ts_refclk = None, sp_mediaclk_direct = 0\<rparr>;
     (n, sdp) \<leftarrow> sdp_build (replicate 768 0) 768 sp;
     if n < 0 then Some (- 1, sa, w)
     else do {
       h \<leftarrow> sap_hash (Some sdp);
       (len, pkt) \<leftarrow> sap_build K (sa_pkt sa) 1024 (sp_origin_ip sp) h sdp;
       let sa = sa\<lparr>sa_pkt := pkt, sa_len := len\<rparr>;
       if len < 0 then Some (- 1, sa, w)
       else let (rc, snd, w) = aes67_send_open K alloc_ok SAP_MCAST_ADDR SAP_PORT ttl iface_egress w;
                sa = sa\<lparr>sa_snd := snd\<rparr>
            in if rc \<noteq> 0 then Some (- 1, sa, w) else Some (0, sa\<lparr>sa_active := True\<rparr>, w)
     }
   }"

definition sap_announce :: "'w os \<Rightarrow> sap_announcer option \<Rightarrow> 'w \<Rightarrow> 'w" where
  "sap_announce K sa w = (case sa of None \<Rightarrow> w
     | Some sa \<Rightarrow> if sa_active sa then snd (aes67_send_packet K (sa_snd sa) (take (nat (sa_len sa)) (sa_pkt sa)) w) else w)"

definition sap_announcer_stop :: "'w os \<Rightarrow> sap_announcer \<Rightarrow> 'w \<Rightarrow> sap_announcer \<times> 'w" where
  "sap_announcer_stop K sa w =
     (if sa_active sa
      then let (snd, w) = aes67_send_close K (sa_snd sa) w in (sa\<lparr>sa_snd := snd, sa_active := False\<rparr>, w)
      else (sa, w))"

subsection \<open>The session description\<close>

text \<open>The whole text, as one string.\<close>

definition sdp_text :: "sdp_params \<Rightarrow> string" where
  "sdp_text p = sdp_head p @ (case sp_ts_refclk p of None \<Rightarrow> [] | Some r \<Rightarrow> sdp_clock r (sp_mediaclk_direct p)) @ sdp_tail"

lemma snprintf_fits:
  assumes "off + length txt < cap" and "cap \<le> length out" and "cap < 2 ^ 31"
  shows "snprintf_at out off cap txt = Some (int (length txt), blit out off (bytes_of txt @ [0]))"
  using assms by (simp add: snprintf_at_def memcpy_Some chunk_def)

lemma snprintf_length:
  assumes "off < cap" and "cap \<le> length out" and "cap < 2 ^ 31"
  shows "\<exists>n out'. snprintf_at out off cap txt = Some (n, out') \<and> length out' = length out \<and>
    (\<not> off + length txt < cap \<longrightarrow> n < 0 \<or> int (cap - off) \<le> n)"
  using assms by (auto simp: snprintf_at_def memcpy_Some)

lemma blit_text:
  "off + length s + length t + 1 \<le> length out \<Longrightarrow>
     blit (blit out off (s @ [z])) (off + length s) (t @ [z']) = blit out off (s @ t @ [z'])"
  by (simp add: blit_def add_ac)

lemma sdp_build_cases:
  assumes "cap \<le> length out" and "cap < 2 ^ 31" and "0 < cap"
  shows "\<exists>out'. length out' = length out \<and> sdp_build out cap p =
    (if length (sdp_text p) < cap then Some (int (length (sdp_text p)), out') else Some (- 1, out')) \<and>
    (length (sdp_text p) < cap \<longrightarrow> out' = blit out 0 (bytes_of (sdp_text p) @ [0]))"
proof -
  let ?h = "sdp_head p" and ?t = sdp_tail
  define c where "c = (case sp_ts_refclk p of None \<Rightarrow> [] | Some r \<Rightarrow> sdp_clock r (sp_mediaclk_direct p))"
  have whole: "sdp_text p = ?h @ c @ ?t" by (simp add: sdp_text_def c_def)
  show ?thesis
  proof (cases "length ?h < cap")
    case False
    then obtain n o1 where "snprintf_at out 0 cap ?h = Some (n, o1)" "length o1 = length out" "n < 0 \<or> int cap \<le> n"
      using snprintf_length[OF assms(3,1,2), of ?h] by auto
    then show ?thesis using False by (auto simp: sdp_build_def whole)
  next
    case True
    let ?o1 = "blit out 0 (bytes_of ?h @ [0])"
    have h: "snprintf_at out 0 cap ?h = Some (int (length ?h), ?o1)" and l1: "length ?o1 = length out"
      using snprintf_fits[of 0 ?h cap out] True assms by simp_all
    show ?thesis
    proof (cases "length ?h + length c < cap")
      case False
      then obtain r where r: "sp_ts_refclk p = Some r" "c = sdp_clock r (sp_mediaclk_direct p)"
        using True by (auto simp: c_def split: option.splits)
      obtain n o2 where "snprintf_at ?o1 (length ?h) cap c = Some (n, o2)" "length o2 = length out"
          "n < 0 \<or> int (cap - length ?h) \<le> n"
        using snprintf_length[OF True, of ?o1 c] False l1 assms by auto
      then show ?thesis using False True h r by (auto simp: sdp_build_def whole)
    next
      case fc: True
      let ?o2 = "blit out 0 (bytes_of (?h @ c) @ [0])"
      have step: "(case sp_ts_refclk p of
          None \<Rightarrow> Some (True, length ?h, ?o1)
        | Some refclk \<Rightarrow> do {
            (n, out) \<leftarrow> snprintf_at ?o1 (length ?h) cap (sdp_clock refclk (sp_mediaclk_direct p));
            Some (\<not> (n < 0 \<or> n \<ge> int (cap - length ?h)), length ?h + nat n, out)
          }) = Some (True, length ?h + length c, ?o2)"
      proof (cases "sp_ts_refclk p")
        case None
        then show ?thesis by (simp add: c_def)
      next
        case (Some r)
        then have c: "c = sdp_clock r (sp_mediaclk_direct p)" by (simp add: c_def)
        have "snprintf_at ?o1 (length ?h) cap c = Some (int (length c), blit ?o1 (length ?h) (bytes_of c @ [0]))"
          using fc l1 assms by (intro snprintf_fits) auto
        moreover have "blit ?o1 (length ?h) (bytes_of c @ [0]) = ?o2"
          using blit_text[of 0 "bytes_of ?h" "bytes_of c" out 0 0] fc assms(1) by simp
        ultimately show ?thesis using Some c fc by auto
      qed
      have l2: "length ?o2 = length out" using fc assms(1) by simp
      show ?thesis
      proof (cases "length ?h + length c + length ?t < cap")
        case False
        then obtain n o3 where "snprintf_at ?o2 (length ?h + length c) cap ?t = Some (n, o3)" "length o3 = length out"
            "n < 0 \<or> int (cap - (length ?h + length c)) \<le> n"
          using snprintf_length[OF fc, of ?o2 ?t] l2 assms by auto
        then show ?thesis using False True h step by (auto simp: sdp_build_def whole)
      next
        case ft: True
        have "snprintf_at ?o2 (length ?h + length c) cap ?t
            = Some (int (length ?t), blit ?o2 (length ?h + length c) (bytes_of ?t @ [0]))"
          using ft l2 assms by (intro snprintf_fits) auto
        moreover have "blit ?o2 (length ?h + length c) (bytes_of ?t @ [0]) = blit out 0 (bytes_of (?h @ c @ ?t) @ [0])"
          using blit_text[of 0 "bytes_of (?h @ c)" "bytes_of ?t" out 0 0] ft assms(1) by simp
        ultimately show ?thesis using ft True h step assms(1) by (auto simp: sdp_build_def whole)
      qed
    qed
  qed
qed


text \<open>
  The builder writes the session description or reports that it does not fit.  If the text and its terminator fit
  the capacity, the text is at the start of the buffer, terminated, the bytes behind it are
  untouched, and its length is returned; otherwise the result is \<open>-1\<close>.  No call writes outside the buffer.
\<close>

theorem sdp_build_writes_text:
  assumes "cap \<le> length out" and "0 < cap" and "cap < 2 ^ 31"
  shows "\<exists>n out'. sdp_build out cap p = Some (n, out') \<and> length out' = length out \<and>
    (if length (sdp_text p) < cap
     then n = int (length (sdp_text p)) \<and> out' = bytes_of (sdp_text p) @ 0 # drop (length (sdp_text p) + 1) out
     else n = - 1)"
proof -
  obtain out' where o: "length out' = length out" "sdp_build out cap p =
      (if length (sdp_text p) < cap then Some (int (length (sdp_text p)), out') else Some (- 1, out'))"
      "length (sdp_text p) < cap \<longrightarrow> out' = blit out 0 (bytes_of (sdp_text p) @ [0])"
    using sdp_build_cases[OF assms(1,3,2), of p] by blast
  then show ?thesis by (cases "length (sdp_text p) < cap") (simp_all add: blit_prefix)
qed

definition sample_sdp :: sdp_params where
  "sample_sdp = \<lparr>sp_session_name = ''REAC-A'', sp_origin_ip = ''10.0.0.1'', sp_mcast_ip = ''239.69.10.0'', sp_mcast_port = 5004,
     sp_payload_type = 97, sp_rate = 48000, sp_channels = 40, sp_ttl = 1, sp_ptime_ms = 0, sp_ts_refclk = None,
     sp_mediaclk_direct = 0\<rparr>"

lemma length_sample_sdp: "length (sdp_text sample_sdp) = 145"
  by (simp add: sdp_text_def sdp_head_def sdp_tail_def decimal_int_def sample_sdp_def decimal.simps)

theorem sdp_build_writes_text_witness:
  "\<exists>out1 out2. sdp_build (replicate 768 0) 768 sample_sdp = Some (145, out1) \<and>
     sdp_build (replicate 64 0) 64 sample_sdp = Some (- 1, out2)"
  using sdp_build_writes_text[of 768 "replicate 768 0" sample_sdp] sdp_build_writes_text[of 64 "replicate 64 0" sample_sdp]
  by (auto simp: length_sample_sdp)

subsection \<open>The announcement packet\<close>

text \<open>An address in network order has four bytes.\<close>

definition documented_inet :: "'w os \<Rightarrow> bool" where
  "documented_inet K \<longleftrightarrow> (\<forall>s a. os_inet_pton K s = Some a \<longrightarrow> length a = 4)"

definition sap_packet :: "u16 \<Rightarrow> byte list \<Rightarrow> byte list \<Rightarrow> byte list" where
  "sap_packet h a body = [0x20, 0x00, ucast (drop_bit 8 h), ucast (h AND 0xff)] @ a @ (bytes_of SAP_MIME @ [0]) @ body"

text \<open>
  A receiver of the announcement (RFC 2974): version 1, an IPv4 announcement without authentication or
  compression; the hash, the origin, the payload type up to its terminator, and the payload.
\<close>

definition parse_sap :: "byte list \<Rightarrow> (u16 \<times> byte list \<times> byte list \<times> byte list) option" where
  "parse_sap p = (if length p < 8 \<or> p ! 0 \<noteq> 0x20 \<or> p ! 1 \<noteq> 0 then None
     else let mime = takeWhile (\<lambda>b. b \<noteq> 0) (drop 8 p) in
       Some (push_bit 8 (ucast (p ! 2)) OR ucast (p ! 3), chunk p 4 4, mime, drop (9 + length mime) p))"

lemma length_mime [simp]: "length SAP_MIME = 15"
  by (simp add: SAP_MIME_def)

lemma no_nul_mime: "no_nul SAP_MIME"
  by (simp add: SAP_MIME_def no_nul_def)

lemma u16_bytes: "push_bit 8 (ucast (ucast (drop_bit 8 h) :: byte)) OR ucast (ucast (h AND 0xff) :: byte) = (h :: u16)"
proof (rule bit_eqI)
  have ff: "h AND 0xff = take_bit 8 h" by (simp add: take_bit_eq_mask mask_eq_exp_minus_1)
  fix n
  assume "possible_bit TYPE(u16) n"
  then have "n < 16" by simp
  then show "bit (push_bit 8 (ucast (ucast (drop_bit 8 h) :: byte)) OR ucast (ucast (h AND 0xff) :: byte) :: u16) n = bit h n"
    unfolding ff by (auto simp: bit_or_iff bit_push_bit_iff bit_ucast_iff bit_drop_bit_eq bit_take_bit_iff)
qed

lemma parse_sap_packet:
  assumes "length a = 4"
  shows "parse_sap (sap_packet h a body) = Some (h, a, bytes_of SAP_MIME, body)"
proof -
  let ?m = "bytes_of SAP_MIME" and ?hd = "[0x20, 0x00, ucast (drop_bit 8 h), ucast (h AND 0xff)] :: byte list"
  have d: "drop 8 (sap_packet h a body) = ?m @ 0 # body" using assms by (simp add: sap_packet_def)
  have mime: "takeWhile (\<lambda>b. b \<noteq> 0) (?m @ 0 # body) = ?m"
    using no_nul_bytes[OF no_nul_mime] by (subst takeWhile_append2) auto
  have "drop (9 + length ?m) (sap_packet h a body) = drop (1 + length ?m) (?m @ 0 # body)"
    unfolding d[symmetric] by simp
  then have body: "drop (9 + length ?m) (sap_packet h a body) = body" by simp
  have "chunk (sap_packet h a body) 4 4 = a" using assms by (simp add: sap_packet_def chunk_def)
  moreover have "8 \<le> length (sap_packet h a body)" using assms by (simp add: sap_packet_def)
  moreover have "sap_packet h a body ! 0 = 0x20" "sap_packet h a body ! 1 = 0"
      "sap_packet h a body ! 2 = ucast (drop_bit 8 h)" "sap_packet h a body ! 3 = ucast (h AND 0xff)"
    by (simp_all add: sap_packet_def)
  ultimately show ?thesis by (simp add: parse_sap_def d mime body u16_bytes del: length_bytes_of)
qed

lemma header_writes:
  assumes "8 \<le> length out" and "length a = 4"
  shows "do { o1 \<leftarrow> wr out 0 x0; o2 \<leftarrow> wr o1 1 x1; o3 \<leftarrow> wr o2 2 x2; o4 \<leftarrow> wr o3 3 x3; o5 \<leftarrow> memcpy o4 4 a 0 4; f o5 }
    = f (blit out 0 ([x0, x1, x2, x3] @ a))"
proof -
  obtain y0 y1 y2 y3 r where "out = y0 # y1 # y2 # y3 # r"
    using assms(1) by (cases out; cases "tl out"; cases "tl (tl out)"; cases "tl (tl (tl out))") auto
  then show ?thesis using assms by (simp add: wr_def memcpy_def blit_def chunk_def)
qed

lemma sap_build_eq:
  assumes "os_inet_pton K ip = Some a" and "length a = 4" and "no_nul s" and "cap \<le> length out"
  shows "sap_build K out cap ip h (bytes_of s @ 0 # rest) =
    (if cap < 24 + length s then Some (- 1, out)
     else Some (int (24 + length s), blit out 0 (sap_packet h a (bytes_of s))))"
proof (cases "cap < 24 + length s")
  case True
  then show ?thesis using assms by (simp add: sap_build_def strlen_text)
next
  case False
  let ?b = "bytes_of s @ 0 # rest" and ?mime = "bytes_of SAP_MIME @ [0]"
  let ?hd = "[0x20, 0x00, ucast (drop_bit 8 h), ucast (h AND 0xff)] @ a"
  have fit: "24 + length s \<le> length out" using False assms(4) by simp
  let ?o = "blit out 0 ?hd"
  have lo: "length ?o = length out" using fit assms(2) by simp
  have h: "do { o1 \<leftarrow> wr out 0 0x20; o2 \<leftarrow> wr o1 1 0x00; o3 \<leftarrow> wr o2 2 (ucast (drop_bit 8 h));
      o4 \<leftarrow> wr o3 3 (ucast (h AND 0xff)); o5 \<leftarrow> memcpy o4 4 a 0 4; f o5 } = f ?o" for f :: "byte list \<Rightarrow> (int \<times> byte list) option"
    using header_writes[of out a, OF _ assms(2), where f = f] fit by simp
  have m: "memcpy ?o 8 ?mime 0 16 = Some (blit out 0 (?hd @ ?mime))"
    using blit_adjacent[of 0 ?hd out ?mime] fit assms(2) lo by (simp add: memcpy_def chunk_def)
  have "memcpy (blit out 0 (?hd @ ?mime)) 24 ?b 0 (length s) = Some (blit out 0 ((?hd @ ?mime) @ bytes_of s))"
    using blit_adjacent[of 0 "?hd @ ?mime" out "bytes_of s"] fit assms(2) by (simp add: memcpy_def chunk_def)
  then show ?thesis
    using False assms(1,3) fit m h
    by (simp add: sap_build_def strlen_text sap_packet_def Let_def)
qed

text \<open>A terminated text is measured and hashed, and the packet is built or refused, whatever the bytes are.\<close>

lemma terminated:
  assumes "0 \<in> set bs"
  shows "\<exists>k. strlen_from bs = Some k \<and> k \<le> length bs" and "\<exists>h. sap_hash_from g bs = Some h"
  using assms by (induction bs arbitrary: g) auto

lemma sap_build_defined:
  assumes "documented_inet K" and "0 \<in> set sdp" and "cap \<le> length out"
  shows "\<exists>n out'. sap_build K out cap ip h sdp = Some (n, out')"
proof (cases "os_inet_pton K ip")
  case None
  then show ?thesis by (simp add: sap_build_def)
next
  case (Some a)
  then have a: "length a = 4" using assms(1) by (simp add: documented_inet_def)
  obtain k where k: "strlen_from sdp = Some k" "k \<le> length sdp" using terminated(1)[OF assms(2)] by blast
  show ?thesis
  proof (cases "cap < 24 + k")
    case True
    then show ?thesis using Some k by (simp add: sap_build_def)
  next
    case False
    then have fit: "24 + k \<le> length out" using assms(3) by simp
    let ?f = "\<lambda>o5. do { o6 \<leftarrow> memcpy o5 8 (bytes_of SAP_MIME @ [0]) 0 16; o7 \<leftarrow> memcpy o6 24 sdp 0 k; Some (24 + int k, o7) }"
    have "sap_build K out cap ip h sdp = ?f (blit out 0 ([0x20, 0x00, ucast (drop_bit 8 h), ucast (h AND 0xff)] @ a))"
      using header_writes[of out a, OF _ a, where f = ?f] fit Some k False by (simp add: sap_build_def Let_def)
    then show ?thesis using fit a k(2) by (simp add: memcpy_def)
  qed
qed

subsection \<open>The announcer\<close>

text \<open>The description the announcer publishes, and what it takes to be announced.\<close>

definition announcer_sdp ::
  "string option \<Rightarrow> string \<Rightarrow> u16 \<Rightarrow> int \<Rightarrow> int \<Rightarrow> int \<Rightarrow> int \<Rightarrow> string option \<Rightarrow> sdp_params" where
  "announcer_sdp name ip port pt rate channels ttl origin =
     \<lparr>sp_session_name = (case name of None \<Rightarrow> ''REAC'' | Some s \<Rightarrow> s),
      sp_origin_ip = (case origin of None \<Rightarrow> ''0.0.0.0'' | Some s \<Rightarrow> s), sp_mcast_ip = ip,
      sp_mcast_port = uint port, sp_payload_type = pt, sp_rate = rate, sp_channels = channels, sp_ttl = ttl,
      sp_ptime_ms = 0, sp_ts_refclk = None, sp_mediaclk_direct = 0\<rparr>"

definition c_strings :: "sdp_params \<Rightarrow> bool" where
  "c_strings p \<longleftrightarrow> no_nul (sp_session_name p) \<and> no_nul (sp_origin_ip p) \<and> no_nul (sp_mcast_ip p) \<and>
     (case sp_ts_refclk p of None \<Rightarrow> True | Some r \<Rightarrow> no_nul r)"

lemma no_nul_sdp_text: "c_strings p \<Longrightarrow> no_nul (sdp_text p)"
  by (auto simp: c_strings_def sdp_text_def sdp_head_def sdp_clock_def sdp_tail_def Let_def split: option.splits)

lemma sap_hash_text: "no_nul s \<Longrightarrow> \<exists>h. sap_hash (Some (bytes_of s @ 0 # rest)) = Some h \<and> h \<noteq> 0"
proof -
  assume s: "no_nul s"
  have "\<exists>h. sap_hash_from h0 (bytes_of s @ 0 # rest) = Some h" for h0
    using s by (induction s arbitrary: h0) (auto simp: no_nul_def bytes_of_def of_char_zero)
  from this[of "0x1234"] show ?thesis by (auto simp: sap_hash_def)
qed

lemma sdp_in_buffer:
  assumes "length (sdp_text p) < cap" and "cap \<le> length out" and "cap < 2 ^ 31"
  shows "sdp_build out cap p
    = Some (int (length (sdp_text p)), bytes_of (sdp_text p) @ 0 # drop (length (sdp_text p) + 1) out)"
  using sdp_build_cases[OF assms(2,3), of p] assms(1) by (auto simp: blit_prefix)

lemma sdp_too_long:
  assumes "\<not> length (sdp_text p) < cap" and "cap \<le> length out" and "cap < 2 ^ 31" and "0 < cap"
  shows "\<exists>out'. sdp_build out cap p = Some (- 1, out')"
  using sdp_build_cases[OF assms(2,3,4), of p] assms(1) by auto

definition announced :: "'w os \<Rightarrow> sdp_params \<Rightarrow> sap_announcer \<Rightarrow> bool" where
  "announced K p sa \<longleftrightarrow> (\<exists>h a g. h \<noteq> 0 \<and> os_inet_pton K (sp_origin_ip p) = Some a \<and> os_inet_pton K SAP_MCAST_ADDR = Some g \<and>
     parse_sap (take (nat (sa_len sa)) (sa_pkt sa)) = Some (h, a, bytes_of SAP_MIME, bytes_of (sdp_text p)) \<and>
     snd_dest (sa_snd sa) = Some \<lparr>sin_port = SAP_PORT, sin_addr = g\<rparr>)"

lemma announcer_start_spec:
  fixes name ip port pt rate channels ttl origin
  defines "p \<equiv> announcer_sdp name ip port pt rate channels ttl origin"
  assumes "documented_fds K fds" and "documented_inet K" and "length (sa_pkt sa) = 1024" and "c_strings p"
  shows "\<exists>rc sa' w'. sap_announcer_start K alloc_ok sa name ip port pt rate channels ttl origin iface w = Some (rc, sa', w') \<and>
    (rc = 0) = (length (sdp_text p) < 768 \<and> os_inet_pton K (sp_origin_ip p) \<noteq> None \<and>
       fst (aes67_send_open K alloc_ok SAP_MCAST_ADDR SAP_PORT ttl iface w) = 0) \<and>
    (if rc = 0 then sa_active sa' \<and> announced K p sa' \<and> snd_fd (sa_snd sa') \<notin> fds w \<and>
       fds w' = insert (snd_fd (sa_snd sa')) (fds w) \<and> fds (snd (sap_announcer_stop K sa' (sap_announce K (Some sa') w'))) = fds w
     else rc = - 1 \<and> \<not> sa_active sa' \<and> fds w' = fds w)"
proof -
  have norm: "sap_announcer_start K alloc_ok sa name ip port pt rate channels ttl origin iface w = do {
     (n, sdp) \<leftarrow> sdp_build (replicate 768 0) 768 p;
     if n < 0 then Some (- 1, sa\<lparr>sa_active := False\<rparr>, w)
     else do {
       h \<leftarrow> sap_hash (Some sdp);
       (len, pkt) \<leftarrow> sap_build K (sa_pkt sa) 1024 (sp_origin_ip p) h sdp;
       let sa = sa\<lparr>sa_active := False, sa_pkt := pkt, sa_len := len\<rparr>;
       if len < 0 then Some (- 1, sa, w)
       else let (rc, snd, w) = aes67_send_open K alloc_ok SAP_MCAST_ADDR SAP_PORT ttl iface w;
                sa = sa\<lparr>sa_snd := snd\<rparr>
            in if rc \<noteq> 0 then Some (- 1, sa, w) else Some (0, sa\<lparr>sa_active := True\<rparr>, w)
     }}"
    by (simp add: sap_announcer_start_def p_def announcer_sdp_def Let_def cong: if_cong)
  show ?thesis
  proof (cases "length (sdp_text p) < 768")
    case False
    then show ?thesis using sdp_too_long[of p 768 "replicate 768 0"] by (auto simp: norm intro!: exI[of _ "- 1"])
  next
    case True
    let ?t = "bytes_of (sdp_text p) @ 0 # drop (length (sdp_text p) + 1) (replicate 768 0)"
    have t: "sdp_build (replicate 768 0) 768 p = Some (int (length (sdp_text p)), ?t)"
      using True by (intro sdp_in_buffer) simp_all
    obtain h where h: "sap_hash (Some ?t) = Some h" "h \<noteq> 0"
      using sap_hash_text[OF no_nul_sdp_text[OF assms(5)]] by blast
    show ?thesis
    proof (cases "os_inet_pton K (sp_origin_ip p)")
      case None
      then have "sap_build K (sa_pkt sa) 1024 (sp_origin_ip p) h ?t = Some (- 1, sa_pkt sa)" by (simp add: sap_build_def)
      then show ?thesis using t h None by (simp add: norm)
    next
      case (Some a)
      then have a: "length a = 4" using assms(3) by (simp add: documented_inet_def)
      let ?pkt = "sap_packet h a (bytes_of (sdp_text p))"
      let ?len = "24 + length (sdp_text p)"
      have len: "length ?pkt = ?len" using a by (simp add: sap_packet_def)
      have b: "sap_build K (sa_pkt sa) 1024 (sp_origin_ip p) h ?t = Some (int ?len, blit (sa_pkt sa) 0 ?pkt)"
        using sap_build_eq[OF Some a no_nul_sdp_text[OF assms(5)], of 1024 "sa_pkt sa"] True assms(4) by simp
      obtain rc s w1 where o: "aes67_send_open K alloc_ok SAP_MCAST_ADDR SAP_PORT ttl iface w = (rc, s, w1)"
        by (metis prod.collapse)
      define sa1 where "sa1 = sa\<lparr>sa_active := False, sa_pkt := blit (sa_pkt sa) 0 ?pkt, sa_len := int ?len, sa_snd := s\<rparr>"
      have run: "sap_announcer_start K alloc_ok sa name ip port pt rate channels ttl origin iface w
          = (if rc \<noteq> 0 then Some (- 1, sa1, w1) else Some (0, sa1\<lparr>sa_active := True\<rparr>, w1))"
        using t h(1) b o by (simp add: norm sa1_def)
      note F = send_open_fds[OF assms(2) o]
      have "take ?len (blit (sa_pkt sa) 0 ?pkt) = ?pkt" using len by (simp add: blit_prefix)
      then have parsed: "parse_sap (take (nat (sa_len sa1)) (sa_pkt sa1)) = Some (h, a, bytes_of SAP_MIME, bytes_of (sdp_text p))"
        using parse_sap_packet[OF a] by (simp add: sa1_def nat_add_distrib)
      have outcome: "(rc = 0) = (length (sdp_text p) < 768 \<and> os_inet_pton K (sp_origin_ip p) \<noteq> None \<and>
          fst (aes67_send_open K alloc_ok SAP_MCAST_ADDR SAP_PORT ttl iface w) = 0)"
        using True Some o by simp
      show ?thesis
      proof (cases "rc = 0")
        case True
        then have "announced K p (sa1\<lparr>sa_active := True\<rparr>)"
          using F Some h(2) parsed unfolding announced_def by (auto simp: sa1_def)
        then show ?thesis
          using True F run outcome send_packet_fds[OF assms(2)] send_close_fds[OF assms(2)]
          by (auto simp: sap_announce_def sap_announcer_stop_def sa1_def split_beta)
      next
        case False
        then show ?thesis using F run outcome by (auto simp: sa1_def)
      qed
    qed
  qed
qed

text \<open>
  C23.  Starting the announcer, for every set of arguments, is defined, and either arms it or leaves no trace.  If it returns 0 the
  packet it will send is an announcement that a receiver parses back to a non-zero hash, the origin address, the type
  \<open>application/sdp\<close> and exactly the session description, addressed to the announcement group and port;
  one descriptor is open more, and stopping gives it back.  Otherwise it returns \<open>-1\<close>, the announcer is
  inactive and no descriptor was left open.  It succeeds exactly when the text is short enough, the origin is a valid
  address and the sender can be opened.
\<close>

theorem announcer_sends_sdp:
  fixes name ip port pt rate channels ttl origin
  defines "p \<equiv> announcer_sdp name ip port pt rate channels ttl origin"
  assumes "documented_fds K fds" and "documented_inet K" and "length (sa_pkt sa) = 1024" and "c_strings p"
  shows "\<exists>rc sa' w'. sap_announcer_start K alloc_ok sa name ip port pt rate channels ttl origin iface w = Some (rc, sa', w') \<and>
    (rc = 0) = (length (sdp_text p) < 768 \<and> os_inet_pton K (sp_origin_ip p) \<noteq> None \<and>
       fst (aes67_send_open K alloc_ok SAP_MCAST_ADDR SAP_PORT ttl iface w) = 0) \<and>
    (if rc = 0 then sa_active sa' \<and> announced K p sa' \<and> snd_fd (sa_snd sa') \<notin> fds w \<and>
       fds w' = insert (snd_fd (sa_snd sa')) (fds w) \<and> fds (snd (sap_announcer_stop K sa' (sap_announce K (Some sa') w'))) = fds w
     else rc = - 1 \<and> \<not> sa_active sa' \<and> fds w' = fds w)"
  using announcer_start_spec[OF assms(2-5)[unfolded p_def]] unfolding p_def .

text \<open>Whatever the arguments: only an active announcer has a descriptor open, and stopping closes it.\<close>

lemma announcer_start_fds:
  assumes "documented_fds K fds"
    and "sap_announcer_start K alloc_ok sa name ip port pt rate channels ttl origin iface w = Some (rc, sa', w')"
  shows "if sa_active sa' then 0 \<le> snd_fd (sa_snd sa') \<and> snd_fd (sa_snd sa') \<notin> fds w \<and> fds w' = insert (snd_fd (sa_snd sa')) (fds w)
         else fds w' = fds w"
proof -
  obtain src s w1 where o: "aes67_send_open K alloc_ok SAP_MCAST_ADDR SAP_PORT ttl iface w = (src, s, w1)"
    by (metis prod.collapse)
  have "sa_active sa' \<and> w' = w1 \<and> sa_snd sa' = s \<and> src = 0 \<or> \<not> sa_active sa' \<and> (w' = w \<or> w' = w1 \<and> src \<noteq> 0)"
    using assms(2) by (auto simp: sap_announcer_start_def Let_def o bind_eq_Some_conv split: if_splits)
  with send_open_fds[OF assms(1) o] show ?thesis by auto
qed

lemma announcer_stop_fds:
  "documented_fds K fds \<Longrightarrow> 0 \<le> snd_fd (sa_snd sa) \<Longrightarrow>
     fds (snd (sap_announcer_stop K sa w)) = (if sa_active sa then fds w - {snd_fd (sa_snd sa)} else fds w)"
  by (simp add: sap_announcer_stop_def send_close_fds split_beta)

lemma announcer_control:
  assumes "control_keeps K obs"
  shows "sap_announcer_start K alloc_ok sa name ip port pt rate channels ttl origin iface w = Some (rc, sa', w') \<Longrightarrow> obs w' = obs w"
    "obs (snd (sap_announcer_stop K sa w)) = obs w"
proof -
  obtain src s w1 where o: "aes67_send_open K alloc_ok SAP_MCAST_ADDR SAP_PORT ttl iface w = (src, s, w1)"
    by (metis prod.collapse)
  show "sap_announcer_start K alloc_ok sa name ip port pt rate channels ttl origin iface w = Some (rc, sa', w') \<Longrightarrow> obs w' = obs w"
    using send_control(1)[OF assms o] by (auto simp: sap_announcer_start_def Let_def o bind_eq_Some_conv split: if_splits)
  show "obs (snd (sap_announcer_stop K sa w)) = obs w"
    using send_control(3)[OF assms] by (simp add: sap_announcer_stop_def split_beta)
qed

lemma log_os_inet [simp]: "documented_inet log_os"
  by (simp add: documented_inet_def log_os_def)

theorem announcer_sends_sdp_witness:
  "\<exists>sa' w'. sap_announcer_start log_os True \<lparr>sa_snd = undefined, sa_pkt = replicate 1024 0, sa_len = 0, sa_active = False\<rparr>
      (Some ''REAC-A'') ''239.69.10.0'' 5004 97 48000 40 1 None None log_start = Some (0, sa', w') \<and>
    announced log_os (announcer_sdp (Some ''REAC-A'') ''239.69.10.0'' 5004 97 48000 40 1 None) sa' \<and>
    lw_fds (snd (sap_announcer_stop log_os sa' (sap_announce log_os (Some sa') w'))) = {}"
proof -
  let ?p = "announcer_sdp (Some ''REAC-A'') ''239.69.10.0'' 5004 97 48000 40 1 None"
  have s: "c_strings ?p" by (simp add: c_strings_def announcer_sdp_def)
  have l: "length (sdp_text ?p) < 768"
    by (simp add: sdp_text_def sdp_head_def sdp_tail_def decimal_int_def announcer_sdp_def decimal.simps)
  have o: "os_inet_pton log_os (sp_origin_ip ?p) \<noteq> None" by (simp add: announcer_sdp_def log_os_def)
  have "os_inet_pton log_os SAP_MCAST_ADDR = Some [224, 0, 0, 56]" by (simp add: log_os_def SAP_MCAST_ADDR_def)
  then have f: "fst (aes67_send_open log_os True SAP_MCAST_ADDR SAP_PORT 1 None log_start) = 0"
    by (simp add: aes67_send_open_def log_start_def)
  show ?thesis
    using announcer_sends_sdp[of log_os lw_fds "\<lparr>sa_snd = undefined, sa_pkt = replicate 1024 0, sa_len = 0, sa_active = False\<rparr>"
        "Some ''REAC-A''" "''239.69.10.0''" 5004 97 48000 40 1 None True None log_start] s l o f
    by (force simp: log_start_def)
qed

end
