(* ===== verification/Media_Clock.thy ===== *)
theory Media_Clock
  imports Reac_Prelude
begin

text \<open>
  The per-stream media clock of \<open>src/media_clock.c\<close>: the RTP timestamp is a running sample
  count, advanced over lost packets that the 16-bit REAC counter reveals.
\<close>

record media_clock =
  mc_rtp_ts :: u32
  mc_anchor :: u32
  mc_last_counter :: u16
  mc_started :: bool
  mc_samples_per_pkt :: int
  mc_total_lost :: u64

record media_clock_step =
  step_rtp_ts :: u32
  step_silence_packets :: int

definition media_clock_init_anchored :: "int \<Rightarrow> u32 \<Rightarrow> media_clock" where
  "media_clock_init_anchored spp anchor =
     \<lparr>mc_rtp_ts = anchor, mc_anchor = anchor, mc_last_counter = 0, mc_started = False,
      mc_samples_per_pkt = spp, mc_total_lost = 0\<rparr>"

definition media_clock_init :: "int \<Rightarrow> media_clock" where
  "media_clock_init spp = media_clock_init_anchored spp 0"

definition media_clock_on_packet ::
  "media_clock \<Rightarrow> u16 \<Rightarrow> media_clock \<times> media_clock_step" where
  "media_clock_on_packet mc counter =
     (if \<not> mc_started mc then
        (mc\<lparr>mc_started := True, mc_last_counter := counter, mc_rtp_ts := mc_anchor mc\<rparr>,
         \<lparr>step_rtp_ts = mc_anchor mc, step_silence_packets = 0\<rparr>)
      else
        let delta = sint (counter - mc_last_counter mc - 1) in
        if delta < 0 then
          let ts = mc_rtp_ts mc + word_of_int (mc_samples_per_pkt mc) in
          (mc\<lparr>mc_rtp_ts := ts\<rparr>, \<lparr>step_rtp_ts = ts, step_silence_packets = 0\<rparr>)
        else
          let lost = (word_of_int delta :: u16);
              ts = mc_rtp_ts mc
                     + word_of_int (uint lost + 1) * word_of_int (mc_samples_per_pkt mc)
          in (mc\<lparr>mc_total_lost := mc_total_lost mc + ucast lost, mc_rtp_ts := ts,
                 mc_last_counter := counter\<rparr>,
              \<lparr>step_rtp_ts = ts, step_silence_packets = uint lost\<rparr>))"

text \<open>A run of the clock over a sequence of received counters.\<close>

fun clock_run :: "media_clock \<Rightarrow> u16 list \<Rightarrow> media_clock \<times> media_clock_step list" where
  "clock_run mc [] = (mc, [])"
| "clock_run mc (c # cs) =
     (let (mc1, st) = media_clock_on_packet mc c; (mc2, sts) = clock_run mc1 cs
      in (mc2, st # sts))"

lemma clock_run_append:
  "clock_run mc (as @ bs) = (fst (clock_run (fst (clock_run mc as)) bs), snd (clock_run mc as) @ snd (clock_run (fst (clock_run mc as)) bs))"
  by (induction as arbitrary: mc) (simp_all add: case_prod_unfold Let_def)

text \<open>Which packets the steps of the clock call for: before each received packet, one concealed packet per packet lost.\<close>

definition conceal_flags :: "media_clock_step list \<Rightarrow> bool list" where
  "conceal_flags sts = concat (map (\<lambda>st. replicate (nat (step_silence_packets st)) True @ [False]) sts)"

lemma conceal_flags_simps [simp]:
  "conceal_flags [] = []" "conceal_flags (st # sts) = replicate (nat (step_silence_packets st)) True @ False # conceal_flags sts"
  "conceal_flags (as @ bs) = conceal_flags as @ conceal_flags bs"
  by (simp_all add: conceal_flags_def)

definition lost_packets :: "media_clock_step list \<Rightarrow> nat" where
  "lost_packets sts = sum_list (map (\<lambda>st. nat (step_silence_packets st)) sts)"

lemma flags_counts: "length (conceal_flags sts) = length sts + lost_packets sts" "length (filter id (conceal_flags sts)) = lost_packets sts"
  by (induction sts) (simp_all add: lost_packets_def)

lemma length_clock_run [simp]: "length (snd (clock_run mc cs)) = length cs"
  by (induction cs arbitrary: mc) (simp_all add: case_prod_unfold Let_def)

subsection \<open>One packet\<close>

lemma sint_u16 [cnum]: "- 32768 \<le> x \<Longrightarrow> x < 32768 \<Longrightarrow> sint (word_of_int x :: u16) = x"
  by (simp add: signed_of_int signed_take_bit_int_eq_self)

lemma sint_u16_range [cnum]: "- 32768 \<le> sint (w :: u16)" "sint (w :: u16) < 32768"
  using sint_lt[of w] sint_ge[of w] by simp_all

lemma uint_u16_nonneg [cnum]:
  "0 \<le> x \<Longrightarrow> x < 32768 \<Longrightarrow> uint (word_of_int x :: u16) = x"
  by (simp add: unsigned_of_int take_bit_int_eq_self)

lemma on_packet_first:
  "\<not> mc_started mc \<Longrightarrow> media_clock_on_packet mc c =
     (mc\<lparr>mc_started := True, mc_last_counter := c, mc_rtp_ts := mc_anchor mc\<rparr>,
      \<lparr>step_rtp_ts = mc_anchor mc, step_silence_packets = 0\<rparr>)"
  by (simp add: media_clock_on_packet_def)

lemma on_packet_late:
  assumes "mc_started mc" and "sint (c - mc_last_counter mc - 1) < 0"
  shows "media_clock_on_packet mc c =
     (mc\<lparr>mc_rtp_ts := mc_rtp_ts mc + word_of_int (mc_samples_per_pkt mc)\<rparr>,
      \<lparr>step_rtp_ts = mc_rtp_ts mc + word_of_int (mc_samples_per_pkt mc), step_silence_packets = 0\<rparr>)"
  using assms by (simp add: media_clock_on_packet_def Let_def)

lemma on_packet_gap:
  assumes "mc_started mc" and "sint (c - mc_last_counter mc - 1) = d" and "0 \<le> d"
  shows "media_clock_on_packet mc c =
     (mc\<lparr>mc_total_lost := mc_total_lost mc + word_of_int d,
         mc_rtp_ts := mc_rtp_ts mc + word_of_int ((d + 1) * mc_samples_per_pkt mc),
         mc_last_counter := c\<rparr>,
      \<lparr>step_rtp_ts = mc_rtp_ts mc + word_of_int ((d + 1) * mc_samples_per_pkt mc),
       step_silence_packets = d\<rparr>)"
proof -
  have d: "d < 32768" using assms(2) sint_u16_range by blast
  then have "ucast (word_of_int d :: u16) = (word_of_int d :: u64)"
      "ucast (word_of_int d :: u16) = (word_of_int d :: u32)"
    using assms(3) by (simp_all add: ucast_eq uint_u16_nonneg)
  with d show ?thesis
    using assms by (simp add: media_clock_on_packet_def Let_def uint_u16_nonneg)
qed

text \<open>Consecutive emission slots: every packet lands right after the slots filled before it.\<close>

lemma on_packet_advance:
  assumes "mc_started mc" and "media_clock_on_packet mc c = (mc', st)"
  shows "step_rtp_ts st
      = mc_rtp_ts mc + word_of_int ((step_silence_packets st + 1) * mc_samples_per_pkt mc)"
    and "mc_rtp_ts mc' = step_rtp_ts st" and "mc_started mc'"
    and "mc_samples_per_pkt mc' = mc_samples_per_pkt mc" and "mc_anchor mc' = mc_anchor mc"
  using assms on_packet_late[of mc c] on_packet_gap[of mc c, OF _ refl]
  by (cases "sint (c - mc_last_counter mc - 1) < 0"; auto)+

lemma on_packet_silence_range:
  assumes "media_clock_on_packet mc c = (mc', st)"
  shows "0 \<le> step_silence_packets st" and "step_silence_packets st < 32768"
  using assms on_packet_first[of mc c] on_packet_late[of mc c] on_packet_gap[of mc c, OF _ refl]
    sint_u16_range[of "c - mc_last_counter mc - 1"]
  by (cases "mc_started mc"; cases "sint (c - mc_last_counter mc - 1) < 0"; auto)+

subsection \<open>A sender's unwrapped sequence numbers\<close>

text \<open>
  The desk numbers its frames 0, 1, 2, \<dots> and sends the number modulo \<open>2 ^ 16\<close>.  Of these
  numbers some are received, in order; \<open>gaps_ok\<close> says that fewer than 32768 frames are
  lost between two received ones.
\<close>

fun gaps_ok :: "int list \<Rightarrow> bool" where
  "gaps_ok (a # b # ns) = (a < b \<and> b - a \<le> 32768 \<and> gaps_ok (b # ns))"
| "gaps_ok _ = True"

fun lost_before :: "int list \<Rightarrow> int list" where
  "lost_before (a # b # ns) = (b - a - 1) # lost_before (b # ns)"
| "lost_before _ = []"

lemma delta_unwrapped:
  "a < b \<Longrightarrow> b - a \<le> 32768 \<Longrightarrow> sint (word_of_int b - word_of_int a - 1 :: u16) = b - a - 1"
  using sint_u16[of "b - a - 1"] by simp

lemma clock_run_tail:
  assumes "mc_started mc" and "mc_last_counter mc = word_of_int a" and "gaps_ok (a # ns)"
    and "mc_samples_per_pkt mc = spp" and "clock_run mc (map word_of_int ns) = (mc', sts)"
  shows "map step_rtp_ts sts = map (\<lambda>n. mc_rtp_ts mc + word_of_int ((n - a) * spp)) ns \<and>
    map step_silence_packets sts = lost_before (a # ns) \<and>
    mc_total_lost mc' = mc_total_lost mc + word_of_int (sum_list (lost_before (a # ns)))"
  using assms
proof (induction ns arbitrary: a mc sts)
  case Nil
  then show ?case by simp
next
  case (Cons b ns)
  have d: "sint (word_of_int b - mc_last_counter mc - 1) = b - a - 1" "0 \<le> b - a - 1"
    using delta_unwrapped[of a b] Cons.prems by simp_all
  note step = on_packet_gap[OF Cons.prems(1) d]
  define mc1 where "mc1 = fst (media_clock_on_packet mc (word_of_int b))"
  have mc1: "mc_started mc1" "mc_last_counter mc1 = word_of_int b" "gaps_ok (b # ns)"
      "mc_samples_per_pkt mc1 = spp"
      "mc_rtp_ts mc1 = mc_rtp_ts mc + word_of_int ((b - a) * spp)"
      "mc_total_lost mc1 = mc_total_lost mc + word_of_int (b - a - 1)"
    using Cons.prems by (simp_all add: mc1_def step)
  obtain sts1 where run: "clock_run mc1 (map word_of_int ns) = (mc', sts1)"
      and sts: "sts = \<lparr>step_rtp_ts = mc_rtp_ts mc + word_of_int ((b - a) * spp),
                       step_silence_packets = b - a - 1\<rparr> # sts1"
    using Cons.prems by (auto simp: mc1_def step split: prod.splits)
  from Cons.IH[OF mc1(1-4) run] show ?case
    unfolding sts by (simp add: mc1(5,6) algebra_simps)
qed

text \<open>The lost frames between the first and the last received one, by telescoping.\<close>

lemma sum_lost_before: "sum_list (lost_before (a # ns)) = last (a # ns) - a - int (length ns)"
  by (induction ns arbitrary: a) auto

text \<open>
  C16.  The clock recovers the sender's sample timeline from the wrapped counter: for
  received sequence numbers \<open>n\<^sub>0 < n\<^sub>1 < \<dots>\<close> with gaps below 32769, packet \<open>n\<close> is stamped
  \<open>anchor + (n - n\<^sub>0) * samples_per_pkt\<close> modulo \<open>2 ^ 32\<close>, the fill counts are exactly the numbers of
  missing frames, and \<open>total_lost\<close> is their sum modulo \<open>2 ^ 64\<close>.
\<close>

theorem clock_tracks_sequence:
  assumes "gaps_ok (n0 # ns)"
    and "clock_run (media_clock_init_anchored spp anchor) (map word_of_int (n0 # ns)) = (mc, sts)"
  shows "map step_rtp_ts sts = map (\<lambda>n. anchor + word_of_int ((n - n0) * spp)) (n0 # ns) \<and>
    map step_silence_packets sts = 0 # lost_before (n0 # ns) \<and>
    mc_total_lost mc = word_of_int (last (n0 # ns) - n0 - int (length ns))"
proof -
  let ?mc1 = "(media_clock_init_anchored spp anchor)
                \<lparr>mc_started := True, mc_last_counter := word_of_int n0, mc_rtp_ts := anchor\<rparr>"
  have first: "media_clock_on_packet (media_clock_init_anchored spp anchor) (word_of_int n0)
      = (?mc1, \<lparr>step_rtp_ts = anchor, step_silence_packets = 0\<rparr>)"
    by (simp add: on_packet_first media_clock_init_anchored_def)
  obtain sts1 where run: "clock_run ?mc1 (map word_of_int ns) = (mc, sts1)"
      and sts: "sts = \<lparr>step_rtp_ts = anchor, step_silence_packets = 0\<rparr> # sts1"
    using assms(2) by (auto simp: first split: prod.splits)
  have "mc_samples_per_pkt ?mc1 = spp" by (simp add: media_clock_init_anchored_def)
  from clock_run_tail[OF _ _ assms(1) this run] show ?thesis
    unfolding sts sum_lost_before by (simp add: media_clock_init_anchored_def)
qed

theorem clock_tracks_sequence_witness:
  "gaps_ok [65534, 65535, 65539 :: int] \<and>
   (let (mc, sts) = clock_run (media_clock_init_anchored 12 1000)
                      (map word_of_int [65534, 65535, 65539 :: int])
    in map step_rtp_ts sts = [1000, 1012, 1060] \<and> map step_silence_packets sts = [0, 0, 3] \<and>
       mc_total_lost mc = 3)"
proof -
  have g: "gaps_ok [65534, 65535, 65539 :: int]" by simp
  from clock_tracks_sequence[OF g prod.collapse [symmetric], of 12 1000] show ?thesis
    by (simp add: Let_def split_beta del: clock_run.simps)
qed

text \<open>
  A duplicate or late packet is never read as a loss: it takes the next timeline slot,
  asks for no concealment, and leaves the high-water counter and the loss count alone.
\<close>

theorem late_packet_is_not_loss:
  assumes "mc_started mc" and "mc_last_counter mc = word_of_int a"
    and "b \<le> a" and "a - b < 32768"
  shows "media_clock_on_packet mc (word_of_int b) =
     (mc\<lparr>mc_rtp_ts := mc_rtp_ts mc + word_of_int (mc_samples_per_pkt mc)\<rparr>,
      \<lparr>step_rtp_ts = mc_rtp_ts mc + word_of_int (mc_samples_per_pkt mc), step_silence_packets = 0\<rparr>)"
proof (rule on_packet_late[OF assms(1)])
  have "sint (word_of_int (b - a - 1) :: u16) = b - a - 1"
    using assms by (intro sint_u16) auto
  then show "sint (word_of_int b - mc_last_counter mc - 1) < 0"
    using assms by simp
qed

theorem late_packet_is_not_loss_witness:
  "media_clock_on_packet \<lparr>mc_rtp_ts = 12, mc_anchor = 0, mc_last_counter = 101, mc_started = True,
       mc_samples_per_pkt = 12, mc_total_lost = 0\<rparr> (word_of_int 99) =
     (\<lparr>mc_rtp_ts = 24, mc_anchor = 0, mc_last_counter = 101, mc_started = True,
       mc_samples_per_pkt = 12, mc_total_lost = 0\<rparr>,
      \<lparr>step_rtp_ts = 24, step_silence_packets = 0\<rparr>)"
  using late_packet_is_not_loss[of "\<lparr>mc_rtp_ts = 12, mc_anchor = 0, mc_last_counter = 101,
      mc_started = True, mc_samples_per_pkt = 12, mc_total_lost = 0\<rparr>" 101 99] by simp

text \<open>
  After two frames arrive in swapped order (\<open>n\<close>, \<open>n+2\<close>, \<open>n+1\<close>, \<open>n+3\<close>) the timeline is one
  packet ahead of the sender's sample count, and stays there: frame \<open>n+3\<close> is stamped four packets
  after frame \<open>n\<close>, one frame has been counted as lost although none was.
\<close>

theorem reorder_shifts_timeline:
  "let (mc, sts) = clock_run (media_clock_init_anchored spp anchor)
                     (map word_of_int [n, n + 2, n + 1, n + 3])
   in map step_rtp_ts sts = map (\<lambda>k. anchor + word_of_int (k * spp)) [0, 2, 3, 4] \<and>
      map step_silence_packets sts = [0, 1, 0, 0] \<and> mc_total_lost mc = 1"
  by (simp add: media_clock_on_packet_def media_clock_init_anchored_def Let_def algebra_simps)

end
