(* ===== verification/Rtp_L24.thy ===== *)
theory Rtp_L24
  imports Reac_Decode
begin

text \<open>
  RTP L24 packetisation, \<open>src/rtp_l24.c\<close>: the RFC 3550 fixed header and the payload, which
  turns planar little-endian samples into interleaved big-endian ones.  The packet buffer
  and its capacity are separate arguments, as in the code.  \<open>size_t\<close> arithmetic is exact:
  the largest product, of two \<open>int\<close>s and 3, is below \<open>2 ^ 64\<close>.
\<close>

definition RTP_HEADER_LEN :: nat where "RTP_HEADER_LEN = 12"
definition RTP_VERSION :: nat where "RTP_VERSION = 2"

record rtp_params =
  rp_payload_type :: byte
  rp_seq :: u16
  rp_timestamp :: u32
  rp_ssrc :: u32

definition write_rtp_header :: "byte list \<Rightarrow> rtp_params \<Rightarrow> byte list option" where
  "write_rtp_header out p = do {
     out \<leftarrow> wr out 0 (of_nat (RTP_VERSION * 2 ^ 6));
     out \<leftarrow> wr out 1 (rp_payload_type p AND 0x7f);
     out \<leftarrow> wr out 2 (ucast (drop_bit 8 (rp_seq p)));
     out \<leftarrow> wr out 3 (ucast (rp_seq p AND 0xff));
     out \<leftarrow> wr out 4 (ucast (drop_bit 24 (rp_timestamp p)));
     out \<leftarrow> wr out 5 (ucast (drop_bit 16 (rp_timestamp p)));
     out \<leftarrow> wr out 6 (ucast (drop_bit 8 (rp_timestamp p)));
     out \<leftarrow> wr out 7 (ucast (rp_timestamp p AND 0xff));
     out \<leftarrow> wr out 8 (ucast (drop_bit 24 (rp_ssrc p)));
     out \<leftarrow> wr out 9 (ucast (drop_bit 16 (rp_ssrc p)));
     out \<leftarrow> wr out 10 (ucast (drop_bit 8 (rp_ssrc p)));
     wr out 11 (ucast (rp_ssrc p AND 0xff))
   }"

definition rtp_l24_build_flow ::
  "byte list \<Rightarrow> nat \<Rightarrow> rtp_params \<Rightarrow> byte list \<Rightarrow> int \<Rightarrow> int \<Rightarrow> int \<Rightarrow> int \<Rightarrow> (int \<times> byte list) option" where
  "rtp_l24_build_flow out cap p planar_pcm total_nch ch_start flow_nch n_samples =
     (if ch_start < 0 \<or> flow_nch \<le> 0 \<or> n_samples \<le> 0 then Some (-1, out)
      else do {
        ch_end \<leftarrow> c_int (ch_start + flow_nch);
        if ch_end > total_nch then Some (-1, out)
        else do {
          let payload = nat flow_nch * nat n_samples * 3;
          let total = RTP_HEADER_LEN + payload;
          if cap < total then Some (-1, out)
          else do {
            out \<leftarrow> write_rtp_header out p;
            out \<leftarrow> forn (nat n_samples) (\<lambda>s. forn (nat flow_nch) (\<lambda>fc out. do {
                let ch = nat ch_start + fc;
                let src = (ch * nat n_samples + s) * 3;
                let dst = RTP_HEADER_LEN + (s * nat flow_nch + fc) * 3;
                b2 \<leftarrow> rd planar_pcm (src + 2);
                out \<leftarrow> wr out dst b2;
                b1 \<leftarrow> rd planar_pcm (src + 1);
                out \<leftarrow> wr out (dst + 1) b1;
                b0 \<leftarrow> rd planar_pcm src;
                wr out (dst + 2) b0
              })) out;
            Some (int total, out)
          }
        }
      })"

definition rtp_l24_build ::
  "byte list \<Rightarrow> nat \<Rightarrow> rtp_params \<Rightarrow> byte list \<Rightarrow> reac_mode \<Rightarrow> (int \<times> byte list) option" where
  "rtp_l24_build out cap p planar_pcm mode =
     rtp_l24_build_flow out cap p planar_pcm (n_channels mode) 0 (n_channels mode)
       (samples_per_pkt mode)"

subsection \<open>The header\<close>

definition rtp_header :: "rtp_params \<Rightarrow> byte list" where
  "rtp_header p =
     [0x80, rp_payload_type p AND 0x7f,
      ucast (drop_bit 8 (rp_seq p)), ucast (rp_seq p AND 0xff),
      ucast (drop_bit 24 (rp_timestamp p)), ucast (drop_bit 16 (rp_timestamp p)),
      ucast (drop_bit 8 (rp_timestamp p)), ucast (rp_timestamp p AND 0xff),
      ucast (drop_bit 24 (rp_ssrc p)), ucast (drop_bit 16 (rp_ssrc p)),
      ucast (drop_bit 8 (rp_ssrc p)), ucast (rp_ssrc p AND 0xff)]"

lemma length_rtp_header [simp]: "length (rtp_header p) = 12"
  by (simp add: rtp_header_def)

lemma write_rtp_header_eq:
  assumes "12 \<le> length out"
  shows "write_rtp_header out p = Some (blit out 0 (rtp_header p))"
proof -
  obtain a b c d e f g h i j k l rest where "out = [a,b,c,d,e,f,g,h,i,j,k,l] @ rest"
    using assms by (auto simp: Suc_le_length_iff numeral_eq_Suc)
  then show ?thesis
    by (simp add: write_rtp_header_def wr_def blit_prefix rtp_header_def RTP_VERSION_def)
qed

text \<open>The receiver's reading of a packet, RFC 3550 section 5.1.\<close>

record rtp_view =
  rv_version :: nat
  rv_padding :: bool
  rv_extension :: bool
  rv_csrc_count :: nat
  rv_marker :: bool
  rv_payload_type :: nat
  rv_seq :: nat
  rv_timestamp :: nat
  rv_ssrc :: nat

definition parse_rtp :: "byte list \<Rightarrow> (rtp_view \<times> byte list) option" where
  "parse_rtp pkt = (if length pkt < 12 then None
     else Some (\<lparr>rv_version = unat (pkt ! 0) div 64, rv_padding = bit (pkt ! 0) 5,
            rv_extension = bit (pkt ! 0) 4, rv_csrc_count = unat (pkt ! 0) mod 16,
            rv_marker = bit (pkt ! 1) 7, rv_payload_type = unat (pkt ! 1) mod 128,
            rv_seq = be_nat (chunk pkt 2 2), rv_timestamp = be_nat (chunk pkt 4 4),
            rv_ssrc = be_nat (chunk pkt 8 4)\<rparr>, drop 12 pkt))"

definition rtp_view_of :: "rtp_params \<Rightarrow> rtp_view" where
  "rtp_view_of p = \<lparr>rv_version = 2, rv_padding = False, rv_extension = False, rv_csrc_count = 0,
     rv_marker = False, rv_payload_type = unat (rp_payload_type p) mod 128,
     rv_seq = unat (rp_seq p), rv_timestamp = unat (rp_timestamp p), rv_ssrc = unat (rp_ssrc p)\<rparr>"

lemma parse_rtp_header: "parse_rtp (rtp_header p @ body) = Some (rtp_view_of p, body)"
proof -
  have m: "rp_payload_type p AND 127 = take_bit 7 (rp_payload_type p)"
    by (simp add: take_bit_eq_mask mask_eq_exp_minus_1)
  then have "unat (rp_payload_type p AND 127) mod 128 = unat (rp_payload_type p) mod 128"
    by (simp only: unsigned_take_bit_eq) (simp add: take_bit_eq_mod)
  moreover have "\<not> bit (rp_payload_type p AND 127) 7" unfolding m by (simp add: bit_simps)
  moreover have "chunk (rtp_header p @ body) 2 2 = [ucast (drop_bit 8 (rp_seq p)), ucast (rp_seq p AND 255)]"
    "chunk (rtp_header p @ body) 4 4 = [ucast (drop_bit 24 (rp_timestamp p)),
      ucast (drop_bit 16 (rp_timestamp p)), ucast (drop_bit 8 (rp_timestamp p)), ucast (rp_timestamp p AND 255)]"
    "chunk (rtp_header p @ body) 8 4 = [ucast (drop_bit 24 (rp_ssrc p)),
      ucast (drop_bit 16 (rp_ssrc p)), ucast (drop_bit 8 (rp_ssrc p)), ucast (rp_ssrc p AND 255)]"
    by (simp_all add: chunk_def rtp_header_def)
  moreover have "(rtp_header p @ body) ! 0 = 0x80" "(rtp_header p @ body) ! 1 = rp_payload_type p AND 127"
    by (simp_all add: rtp_header_def)
  ultimately show ?thesis
    by (simp add: parse_rtp_def rtp_view_of_def be_nat_u16 be_nat_u32 bit_numeral_rec)
qed

subsection \<open>The payload\<close>

definition rtp_payload :: "byte list \<Rightarrow> nat \<Rightarrow> nat \<Rightarrow> nat \<Rightarrow> byte list" where
  "rtp_payload pcm ch_start flow_nch ns =
     interleaved flow_nch ns (\<lambda>fc s. rev (sample_at ns pcm (ch_start + fc) s))"

definition rtp_packet :: "rtp_params \<Rightarrow> byte list \<Rightarrow> nat \<Rightarrow> nat \<Rightarrow> nat \<Rightarrow> byte list" where
  "rtp_packet p pcm ch_start flow_nch ns = rtp_header p @ rtp_payload pcm ch_start flow_nch ns"

lemma length_pcm_sample:
  "ch < nch \<Longrightarrow> s < ns \<Longrightarrow> nch * ns * 3 \<le> length pcm \<Longrightarrow> length (sample_at ns pcm ch s) = 3"
  using index_bound3[of ch nch s ns] by (simp add: sample_at_def)

lemma length_rtp_payload:
  assumes "ch_start + flow_nch \<le> nch" and "nch * ns * 3 \<le> length pcm"
  shows "length (rtp_payload pcm ch_start flow_nch ns) = flow_nch * ns * 3"
  unfolding rtp_payload_def
  by (rule length_interleaved) (use assms in \<open>simp add: length_pcm_sample[of _ nch]\<close>)

lemma length_rtp_packet:
  assumes "ch_start + flow_nch \<le> nch" and "nch * ns * 3 \<le> length pcm"
  shows "length (rtp_packet p pcm ch_start flow_nch ns) = 12 + flow_nch * ns * 3"
  using length_rtp_payload[OF assms] by (simp add: rtp_packet_def)

lemma build_flow_rejects:
  assumes "ch_start < 0 \<or> flow_nch \<le> 0 \<or> n_samples \<le> 0 \<or>
      (ch_start + flow_nch < 2 ^ 31 \<and>
        (total_nch < ch_start + flow_nch \<or> cap < 12 + nat flow_nch * nat n_samples * 3))"
  shows "rtp_l24_build_flow out cap p pcm total_nch ch_start flow_nch n_samples = Some (-1, out)"
  using assms by (auto simp: rtp_l24_build_flow_def RTP_HEADER_LEN_def Let_def)

lemma build_flow_eq:
  assumes args: "0 \<le> ch_start" "0 < flow_nch" "0 < n_samples"
      "ch_start + flow_nch \<le> total_nch" "total_nch < 2 ^ 31"
    and pcm: "nat total_nch * nat n_samples * 3 \<le> length pcm"
    and cap: "12 + nat flow_nch * nat n_samples * 3 \<le> cap" "cap \<le> length out"
  shows "rtp_l24_build_flow out cap p pcm total_nch ch_start flow_nch n_samples
    = Some (12 + flow_nch * n_samples * 3,
        blit out 0 (rtp_packet p pcm (nat ch_start) (nat flow_nch) (nat n_samples)))"
proof -
  let ?N = "nat total_nch" and ?c = "nat ch_start" and ?F = "nat flow_nch" and ?S = "nat n_samples"
  let ?g = "\<lambda>s fc. rev (sample_at ?S pcm (?c + fc) s)"
  define body where "body s fc out = do {
      b2 \<leftarrow> rd pcm (((?c + fc) * ?S + s) * 3 + 2);
      out \<leftarrow> wr out (12 + (s * ?F + fc) * 3) b2;
      b1 \<leftarrow> rd pcm (((?c + fc) * ?S + s) * 3 + 1);
      out \<leftarrow> wr out (12 + (s * ?F + fc) * 3 + 1) b1;
      b0 \<leftarrow> rd pcm (((?c + fc) * ?S + s) * 3);
      wr out (12 + (s * ?F + fc) * 3 + 2) b0 }" for s fc out
  let ?out = "blit out 0 (rtp_header p)"
  have out: "12 + ?S * (?F * 3) \<le> length out" using cap by (simp add: algebra_simps)
  have ch: "?c + fc < ?N" if "fc < ?F" for fc using that args by linarith
  have len: "length (?g s fc) = 3" if "s < ?S" "fc < ?F" for s fc
    using length_pcm_sample[OF ch[OF that(2)] that(1) pcm] by simp
  have step: "body s fc t = Some (blit t (12 + (s * ?F + fc) * 3) (?g s fc))"
    if "s < ?S" "fc < ?F" "length t = length out" for s fc t
  proof -
    have "((?c + fc) * ?S + s) * 3 + 3 \<le> length pcm"
      using index_bound3[OF ch[OF that(2)] that(1)] pcm by simp
    moreover have "12 + (s * ?F + fc) * 3 + 3 \<le> length t"
      using index_bound3[OF that(1,2)] out that(3) by (simp add: algebra_simps)
    moreover define d src where "d = 12 + (s * ?F + fc) * 3" and "src = ((?c + fc) * ?S + s) * 3"
    ultimately have "src + 3 \<le> length pcm" "d + 3 \<le> length t" by simp_all
    then show ?thesis
      unfolding body_def sample_at_def d_def[symmetric] src_def[symmetric] by (simp add: cbuf)
  qed
  have row: "forn ?F (body s) t = Some (blit t (12 + s * (?F * 3)) (concat (map (?g s) [0..<?F])))"
    if "s < ?S" "length t = length out" for s t
  proof (rule forn_blit)
    show "12 + s * (?F * 3) + ?F * 3 \<le> length t"
      using that out mult_le_mono1[of "Suc s" ?S "?F * 3"] by simp
  qed (use that len step in \<open>auto simp: algebra_simps\<close>)
  have "forn ?S (\<lambda>s. forn ?F (body s)) ?out
      = Some (blit ?out 12 (concat (map (\<lambda>s. concat (map (?g s) [0..<?F])) [0..<?S])))"
  proof (rule forn_blit)
    show "length (concat (map (?g s) [0..<?F])) = ?F * 3" if "s < ?S" for s
      by (rule length_concat_const) (rule len[OF that])
  qed (use row out in auto)
  moreover have "concat (map (\<lambda>s. concat (map (?g s) [0..<?F])) [0..<?S]) = rtp_payload pcm ?c ?F ?S"
    by (simp add: rtp_payload_def interleaved_def planar_def)
  moreover have "blit ?out 12 (rtp_payload pcm ?c ?F ?S) = blit out 0 (rtp_packet p pcm ?c ?F ?S)"
    using out blit_adjacent[of 0 "rtp_header p" out] by (simp add: rtp_packet_def)
  moreover have "write_rtp_header out p = Some ?out" using out by (intro write_rtp_header_eq) simp
  ultimately show ?thesis
    using args cap
    by (simp add: rtp_l24_build_flow_def RTP_HEADER_LEN_def body_def [abs_def] Let_def)
qed

subsection \<open>Correctness\<close>

text \<open>
  C18.  A channel slice that fits is packetised: the call returns the packet length, a
  receiver parses the header back to the parameters (version 2, no padding, extension,
  contributing source or marker; the payload type to seven bits), and the payload carries,
  for time step \<open>s\<close> and slot \<open>fc\<close>, the sample of channel \<open>ch_start + fc\<close> most significant
  byte first.  Bytes behind the packet keep their value.
\<close>

theorem build_flow_packet:
  assumes "0 \<le> ch_start" "0 < flow_nch" "0 < n_samples" "ch_start + flow_nch \<le> total_nch"
    and "total_nch < 2 ^ 31" and "nat total_nch * nat n_samples * 3 \<le> length pcm"
    and "12 + nat flow_nch * nat n_samples * 3 \<le> cap" and "cap \<le> length out"
  shows "\<exists>pkt body. rtp_l24_build_flow out cap p pcm total_nch ch_start flow_nch n_samples
      = Some (int (length pkt), pkt @ drop (length pkt) out) \<and>
    length pkt = 12 + nat flow_nch * nat n_samples * 3 \<and>
    parse_rtp pkt = Some (rtp_view_of p, body) \<and>
    (\<forall>s < nat n_samples. \<forall>fc < nat flow_nch.
       sample_at (nat flow_nch) body s fc = rev (sample_at (nat n_samples) pcm (nat ch_start + fc) s))"
proof -
  let ?c = "nat ch_start" and ?F = "nat flow_nch" and ?S = "nat n_samples"
  let ?body = "rtp_payload pcm ?c ?F ?S"
  have fit: "?c + ?F \<le> nat total_nch" using assms(1-4) by linarith
  have "length (rev (sample_at ?S pcm (?c + fc) s)) = 3" if "fc < ?F" "s < ?S" for s fc
    using that fit assms(6) by (simp add: length_pcm_sample[of _ "nat total_nch"])
  then have "sample_at ?F ?body s fc = rev (sample_at ?S pcm (?c + fc) s)"
    if "s < ?S" "fc < ?F" for s fc
    using that unfolding rtp_payload_def by (intro sample_at_interleaved) auto
  moreover have "int (length (rtp_packet p pcm ?c ?F ?S)) = 12 + flow_nch * n_samples * 3"
    using length_rtp_packet[OF fit assms(6)] assms(1-3) by simp
  ultimately show ?thesis
    using build_flow_eq[OF assms] length_rtp_packet[OF fit assms(6)] parse_rtp_header[of p ?body]
    by (intro exI[of _ "rtp_packet p pcm ?c ?F ?S"] exI[of _ ?body])
      (simp add: blit_prefix, simp add: rtp_packet_def)
qed

theorem build_flow_packet_witness:
  "\<exists>pkt body. rtp_l24_build_flow (replicate 30 0) 30
      \<lparr>rp_payload_type = 97, rp_seq = 0x1234, rp_timestamp = 0xDEADBEEF, rp_ssrc = 7\<rparr>
      [1,2,3, 4,5,6, 7,8,9] 3 1 2 1 = Some (18, pkt @ replicate 12 0) \<and>
    sample_at 2 body 0 1 = [9, 8, 7] \<and> parse_rtp pkt = Some (rtp_view_of
      \<lparr>rp_payload_type = 97, rp_seq = 0x1234, rp_timestamp = 0xDEADBEEF, rp_ssrc = 7\<rparr>, body)"
proof -
  let ?p = "\<lparr>rp_payload_type = 97, rp_seq = 0x1234, rp_timestamp = 0xDEADBEEF, rp_ssrc = 7\<rparr>"
  obtain pkt body where *: "rtp_l24_build_flow (replicate 30 0) 30 ?p [1,2,3, 4,5,6, 7,8,9] 3 1 2 1
      = Some (int (length pkt), pkt @ drop (length pkt) (replicate 30 0))"
    "length pkt = 18" "parse_rtp pkt = Some (rtp_view_of ?p, body)"
    "\<forall>s < 1. \<forall>fc < 2. sample_at 2 body s fc = rev (sample_at 1 [1,2,3, 4,5,6, 7,8,9] (1 + fc) s)"
    using build_flow_packet[of 1 2 1 3 "[1,2,3, 4,5,6, 7,8,9]" 30 "replicate 30 0" ?p] by auto
  from *(4) have "sample_at 2 body 0 1 = rev (sample_at 1 [1,2,3, 4,5,6, 7,8,9] 2 0)"
    by (metis one_add_one less_numeral_extra(1) one_less_numeral_iff semiring_norm(76))
  then have "sample_at 2 body 0 1 = [9, 8, 7]" by (simp add: sample_at_def chunk_def)
  with * show ?thesis by auto
qed

text \<open>
  The whole-packet builder on a mode of the wire: the audio payload of the RTP packet
  made from a decoded frame is the frame's audio region with the three bytes of every
  sample reversed, in the same order.
\<close>

theorem wire_to_rtp:
  assumes "documented_geometry L" and "mode_ok m" and "len \<le> length raw" and "well_formed raw len"
    and "length pcm = nch_of m * sps_of m * 3"
    and "12 + nch_of m * sps_of m * 3 \<le> cap" and "cap = length out"
  shows "\<exists>rc pcm' pkt body. reac_decode L raw len m pcm = Some (rc, pcm') \<and> 0 < rc \<and>
    rtp_l24_build out cap p pcm' m = Some (int (length pkt), pkt @ drop (length pkt) out) \<and>
    parse_rtp pkt = Some (rtp_view_of p, body) \<and> length body = nch_of m * sps_of m * 3 \<and>
    (\<forall>i < nch_of m * sps_of m. chunk body (i * 3) 3 = rev (chunk raw (50 + i * 3) 3))"
proof -
  let ?N = "nch_of m" and ?S = "sps_of m"
  have raw: "1492 \<le> length raw" using assms(3,4) by (simp add: well_formed_def)
  let ?pcm = "decoded_pcm m raw"
  let ?body = "rtp_payload ?pcm 0 ?N ?S"
  have dec: "reac_decode L raw len m pcm = Some (samples_per_pkt m, ?pcm)"
    using decode_valid[OF assms(1-4), of pcm] assms(2,5) raw by (simp add: blit_full)
  have lp: "length ?pcm = ?N * ?S * 3" using assms(2) raw by simp
  have len: "length (rtp_packet p ?pcm 0 ?N ?S) = 12 + ?N * ?S * 3"
    by (rule length_rtp_packet[where nch = ?N]) (use lp in auto)
  have m: "0 < n_channels m" "0 < samples_per_pkt m" "n_channels m < 2 ^ 31"
    using assms(2) by (auto simp: mode_ok_def)
  have "rtp_l24_build out cap p ?pcm m
      = Some (12 + n_channels m * samples_per_pkt m * 3, blit out 0 (rtp_packet p ?pcm 0 ?N ?S))"
    unfolding rtp_l24_build_def
    using build_flow_eq[of 0 "n_channels m" "samples_per_pkt m" "n_channels m" ?pcm cap out p] m lp assms(6,7)
    by simp
  then have build: "rtp_l24_build out cap p ?pcm m = Some (int (length (rtp_packet p ?pcm 0 ?N ?S)),
      rtp_packet p ?pcm 0 ?N ?S @ drop (length (rtp_packet p ?pcm 0 ?N ?S)) out)"
    using len m by (simp add: blit_prefix)
  have "chunk ?body (i * 3) 3 = rev (chunk raw (50 + i * 3) 3)" if "i < ?N * ?S" for i
  proof -
    have N: "0 < ?N" using m by simp
    define s ch where "s = i div ?N" and "ch = i mod ?N"
    have i: "i = s * ?N + ch" "ch < ?N" "s < ?S"
      using N that by (simp_all add: s_def ch_def less_mult_imp_div_less mult.commute)
    have "sample_at ?N ?body s ch = rev (sample_at ?S ?pcm ch s)"
      unfolding rtp_payload_def using i lp
      by (subst sample_at_interleaved) (auto simp: length_pcm_sample[of _ ?N])
    also have "sample_at ?S ?pcm ch s = wire_sample m raw ch s"
      unfolding decoded_pcm_def using i assms(2) raw by (intro sample_at_planar) auto
    finally show ?thesis using i(1) by (simp add: sample_at_def wire_sample_def)
  qed
  moreover have "length ?body = ?N * ?S * 3"
    by (rule length_rtp_payload[where nch = ?N]) (use lp in auto)
  ultimately show ?thesis
    using dec build m parse_rtp_header[of p ?body]
    by (intro exI[of _ "samples_per_pkt m"] exI[of _ ?pcm] exI[of _ "rtp_packet p ?pcm 0 ?N ?S"]
          exI[of _ ?body]) (simp add: rtp_packet_def)
qed

definition rtp0 :: rtp_params where
  "rtp0 = \<lparr>rp_payload_type = 96, rp_seq = 1, rp_timestamp = 12, rp_ssrc = 3\<rparr>"

theorem wire_to_rtp_witness:
  "\<exists>rc pcm' pkt body. reac_decode libreac_doc sample_frame 1492 mode_48k (replicate 1440 0) = Some (rc, pcm') \<and>
    rtp_l24_build (replicate 1452 0) 1452 rtp0 pcm' mode_48k = Some (1452, pkt) \<and>
    parse_rtp pkt = Some (rtp_view_of rtp0, body) \<and> take 3 body = [3, 2, 1]"
proof -
  obtain rc pcm' pkt body where
    *: "reac_decode libreac_doc sample_frame 1492 mode_48k (replicate 1440 0) = Some (rc, pcm')"
      "rtp_l24_build (replicate 1452 0) 1452 rtp0 pcm' mode_48k
        = Some (int (length pkt), pkt @ drop (length pkt) (replicate 1452 0))"
      "parse_rtp pkt = Some (rtp_view_of rtp0, body)" "length body = 1440"
      "\<forall>i < 480. chunk body (i * 3) 3 = rev (chunk sample_frame (50 + i * 3) 3)"
    using wire_to_rtp[of libreac_doc mode_48k 1492 sample_frame "replicate 1440 0" 1452 "replicate 1452 0" rtp0]
    by auto
  then have "length pkt = 1452" by (auto simp: parse_rtp_def split: if_splits)
  moreover have "take 3 body = [3, 2, 1]"
    using spec[OF *(5), of 0] by (simp add: chunk_def sample_frame_def)
  ultimately show ?thesis using * by auto
qed

end
