(* ===== verification/Packetizer.thy ===== *)
theory Packetizer
  imports Rtp_L24
begin

text \<open>
  The Dante packetiser, \<open>src/packetizer.c\<close>: the split of the channels into multicast
  flows and the aggregation of several REAC frames into one RTP packet per flow.  The emit
  callback is a function on a world \<open>'w\<close> that may fail; it is given the \<open>len\<close> bytes of the
  packet.  The uninitialised packet buffer of the code is a block of zeros: every byte
  that reaches the callback is written first.
\<close>

definition PACKETIZER_MAX_FPP :: int where "PACKETIZER_MAX_FPP = 4"

record reac_flow =
  fl_ch_start :: int
  fl_n_ch :: int
  fl_payload_type :: byte
  fl_ssrc :: u32
  fl_seq :: u16

record packetizer =
  pk_mode :: reac_mode
  pk_frames_per_packet :: int
  pk_frames_buffered :: int
  pk_pending_ts :: u32
  pk_pending_concealed :: bool
  pk_flows :: "reac_flow list"
  pk_n_flows :: int
  pk_planar :: "byte list"

definition dante_build_flows ::
  "reac_flow list \<Rightarrow> int \<Rightarrow> int \<Rightarrow> int \<Rightarrow> byte \<Rightarrow> u32 \<Rightarrow> (int \<times> reac_flow list) option" where
  "dante_build_flows flows mx nch ch_per_flow payload_type ssrc_base =
     (if ch_per_flow \<le> 0 \<or> nch \<le> 0 then Some (-1, flows)
      else do {
        sum \<leftarrow> c_int (nch + ch_per_flow);
        n \<leftarrow> c_div (sum - 1) ch_per_flow;
        if n > mx then Some (-1, flows)
        else do {
          flows \<leftarrow> forn (nat n) (\<lambda>i flows. do {
              start \<leftarrow> c_int (int i * ch_per_flow);
              width \<leftarrow> c_int (nch - start);
              let width = (if width > ch_per_flow then ch_per_flow else width);
              wr flows i \<lparr>fl_ch_start = start, fl_n_ch = width, fl_payload_type = payload_type,
                          fl_ssrc = ssrc_base + of_nat i, fl_seq = 0\<rparr>
            }) flows;
          Some (n, flows)
        }
      })"

definition packetizer_init ::
  "packetizer \<Rightarrow> reac_mode \<Rightarrow> int \<Rightarrow> reac_flow list \<Rightarrow> int \<Rightarrow> packetizer" where
  "packetizer_init pk mode frames_per_packet flows n_flows =
     (let fpp = frames_per_packet;
          fpp = (if fpp < 1 then 1 else fpp);
          fpp = (if fpp > PACKETIZER_MAX_FPP then PACKETIZER_MAX_FPP else fpp)
      in pk\<lparr>pk_mode := mode, pk_frames_per_packet := fpp, pk_frames_buffered := 0,
            pk_pending_ts := 0, pk_pending_concealed := False,
            pk_flows := flows, pk_n_flows := n_flows\<rparr>)"

definition packetizer_push ::
  "libreac \<Rightarrow> packetizer \<Rightarrow> byte list \<Rightarrow> u32 \<Rightarrow> bool \<Rightarrow>
   (nat \<Rightarrow> byte list \<Rightarrow> bool \<Rightarrow> 'w \<Rightarrow> 'w option) \<Rightarrow> 'w \<Rightarrow> (packetizer \<times> 'w) option" where
  "packetizer_push L pk frame_planar rtp_ts concealed emit ctx = do {
     let nch = n_channels (pk_mode pk);
     let sps = samples_per_pkt (pk_mode pk);
     total_samples \<leftarrow> c_int (pk_frames_per_packet pk * sps);
     let f = pk_frames_buffered pk;
     let pk = (if f = 0 then pk\<lparr>pk_pending_ts := rtp_ts, pk_pending_concealed := False\<rparr> else pk);
     let pk = pk\<lparr>pk_pending_concealed := pk_pending_concealed pk \<or> concealed\<rparr>;
     planar \<leftarrow> forn (nat nch) (\<lambda>c planar.
         memcpy planar ((c * nat total_samples + nat f * nat sps) * 3)
           frame_planar (c * nat sps * 3) (nat sps * 3)) (pk_planar pk);
     buffered \<leftarrow> c_int (f + 1);
     let pk = pk\<lparr>pk_planar := planar, pk_frames_buffered := buffered\<rparr>;
     if pk_frames_buffered pk < pk_frames_per_packet pk then Some (pk, ctx)
     else do {
       (flows, ctx) \<leftarrow> forn (nat (pk_n_flows pk)) (\<lambda>i (flows, ctx). do {
           fl \<leftarrow> rd flows i;
           let p = \<lparr>rp_payload_type = fl_payload_type fl, rp_seq = fl_seq fl,
                    rp_timestamp = pk_pending_ts pk, rp_ssrc = fl_ssrc fl\<rparr>;
           let size = RTP_HEADER_LEN + REAC_MAX_CHANNELS L * nat PACKETIZER_MAX_FPP * 24 * 3;
           (n, pkt) \<leftarrow> rtp_l24_build_flow (replicate size 0) size p (pk_planar pk) nch
                        (fl_ch_start fl) (fl_n_ch fl) total_samples;
           if n > 0 then do {
             ctx \<leftarrow> emit i (take (nat n) pkt) (pk_pending_concealed pk) ctx;
             flows \<leftarrow> wr flows i (fl\<lparr>fl_seq := fl_seq fl + 1\<rparr>);
             Some (flows, ctx)
           } else Some (flows, ctx)
         }) (pk_flows pk, ctx);
       Some (pk\<lparr>pk_flows := flows, pk_frames_buffered := 0\<rparr>, ctx)
     }
   }"

subsection \<open>The flow split\<close>

text \<open>The flow \<open>i\<close> of a split, and the number of flows.\<close>

definition flow_at :: "int \<Rightarrow> int \<Rightarrow> byte \<Rightarrow> u32 \<Rightarrow> nat \<Rightarrow> reac_flow" where
  "flow_at nch cpf pt ssrc i =
     \<lparr>fl_ch_start = int i * cpf, fl_n_ch = min cpf (nch - int i * cpf), fl_payload_type = pt,
      fl_ssrc = ssrc + of_nat i, fl_seq = 0\<rparr>"

definition flow_count :: "int \<Rightarrow> int \<Rightarrow> nat" where
  "flow_count nch cpf = nat ((nch + cpf - 1) div cpf)"

lemma flow_count_bounds:
  assumes "0 < nch" and "0 < cpf"
  shows "(int (flow_count nch cpf) - 1) * cpf < nch" "nch \<le> int (flow_count nch cpf) * cpf"
    "0 < flow_count nch cpf"
proof -
  let ?q = "(nch + cpf - 1) div cpf"
  have q: "cpf * ?q + (nch + cpf - 1) mod cpf = nch + cpf - 1" by simp
  have m: "0 \<le> (nch + cpf - 1) mod cpf" "(nch + cpf - 1) mod cpf < cpf" using assms by simp_all
  have "0 < ?q" using assms by (simp add: pos_imp_zdiv_pos_iff)
  then show "0 < flow_count nch cpf" by (simp add: flow_count_def)
  have e: "int (flow_count nch cpf) = ?q" using \<open>0 < ?q\<close> by (simp add: flow_count_def)
  have "?q * cpf = nch + cpf - 1 - (nch + cpf - 1) mod cpf"
    using q unfolding mult.commute[of ?q] by linarith
  then show "(int (flow_count nch cpf) - 1) * cpf < nch" "nch \<le> int (flow_count nch cpf) * cpf"
    using m unfolding e by (simp_all add: left_diff_distrib)
qed

lemma flow_start_less:
  assumes "0 < nch" and "0 < cpf" and "i < flow_count nch cpf"
  shows "int i * cpf < nch"
proof -
  have "int i * cpf \<le> (int (flow_count nch cpf) - 1) * cpf"
    using assms by (intro mult_right_mono) auto
  then show ?thesis using flow_count_bounds(1)[OF assms(1,2)] by simp
qed

lemma forn_fill:
  assumes "\<And>i t. i < n \<Longrightarrow> length t = length xs \<Longrightarrow> body i t = wr t i (g i)" and "n \<le> length xs"
  shows "forn n body xs = Some (map g [0..<n] @ drop n xs)"
proof -
  have "forn n body xs = Some (blit xs 0 (concat (map (\<lambda>i. [g i]) [0..<n])))"
    using assms by (intro forn_blit[where k = 1]) (auto simp: wr_blit)
  then show ?thesis by (simp add: blit_prefix)
qed

lemma dante_build_flows_eq:
  assumes "0 < nch" and "0 < cpf" and "nch + cpf < 2 ^ 31" and "mx \<le> int (length flows)"
  shows "dante_build_flows flows mx nch cpf pt ssrc =
    (if int (flow_count nch cpf) \<le> mx
     then Some (int (flow_count nch cpf),
       map (flow_at nch cpf pt ssrc) [0..<flow_count nch cpf] @ drop (flow_count nch cpf) flows)
     else Some (-1, flows))"
proof -
  let ?n = "flow_count nch cpf"
  have n: "(nch + cpf - 1) div cpf = int ?n"
    using assms by (simp add: flow_count_def pos_imp_zdiv_nonneg_iff)
  have "c_div (nch + cpf - 1) cpf = Some (int ?n)"
    using assms n by (subst c_div_pos) auto
  moreover have "forn ?n (\<lambda>i flows. do {
              start \<leftarrow> c_int (int i * cpf);
              width \<leftarrow> c_int (nch - start);
              let width = (if width > cpf then cpf else width);
              wr flows i \<lparr>fl_ch_start = start, fl_n_ch = width, fl_payload_type = pt,
                          fl_ssrc = ssrc + of_nat i, fl_seq = 0\<rparr>
            }) flows = Some (map (flow_at nch cpf pt ssrc) [0..<?n] @ drop ?n flows)"
    if "int ?n \<le> mx"
  proof (rule forn_fill)
    fix i and t :: "reac_flow list"
    assume i: "i < ?n"
    then have "int i * cpf < nch" by (rule flow_start_less[OF assms(1,2)])
    moreover have "0 \<le> int i * cpf" using assms by simp
    moreover have "nch < 2 ^ 31" using assms by simp
    ultimately have "c_int (int i * cpf) = Some (int i * cpf)"
        "c_int (nch - int i * cpf) = Some (nch - int i * cpf)"
      by (simp_all only: c_int_def) auto
    then show "(do {
              start \<leftarrow> c_int (int i * cpf);
              width \<leftarrow> c_int (nch - start);
              let width = (if width > cpf then cpf else width);
              wr t i \<lparr>fl_ch_start = start, fl_n_ch = width, fl_payload_type = pt,
                          fl_ssrc = ssrc + of_nat i, fl_seq = 0\<rparr>
            }) = wr t i (flow_at nch cpf pt ssrc i)"
      by (simp add: flow_at_def min_def)
  qed (use that assms in auto)
  ultimately show ?thesis using assms by (simp add: dante_build_flows_def)
qed

text \<open>
  C19.  The flow split is a partition: the number of flows is the channel count divided by
  the width, rounded up; the flows' channel ranges, in order, are exactly the channels
  \<open>0 .. n_channels - 1\<close>; none is empty or wider than \<open>ch_per_flow\<close>; their synchronisation
  sources count up from the base and their sequence numbers start at 0.  When more than
  \<open>max\<close> flows would be needed the call fails and leaves the array alone.
\<close>

theorem flows_partition_channels:
  assumes "0 < nch" and "0 < cpf" and "nch + cpf < 2 ^ 31" and "mx \<le> int (length flows)"
  shows "let n = (nch + cpf - 1) div cpf in
    if n > mx then dante_build_flows flows mx nch cpf pt ssrc = Some (-1, flows)
    else \<exists>fs. length fs = nat n \<and>
      dante_build_flows flows mx nch cpf pt ssrc = Some (n, fs @ drop (nat n) flows) \<and>
      concat (map (\<lambda>f. [fl_ch_start f .. fl_ch_start f + fl_n_ch f - 1]) fs) = [0 .. nch - 1] \<and>
      (\<forall>i < nat n. let f = fs ! i in 0 < fl_n_ch f \<and> fl_n_ch f \<le> cpf \<and>
         fl_payload_type f = pt \<and> fl_ssrc f = ssrc + of_nat i \<and> fl_seq f = 0)"
proof -
  let ?n = "flow_count nch cpf"
  have n: "(nch + cpf - 1) div cpf = int ?n"
    using assms by (simp add: flow_count_def pos_imp_zdiv_nonneg_iff)
  let ?fs = "map (flow_at nch cpf pt ssrc) [0..<?n]"
  have "concat (map (\<lambda>i. [int i * cpf .. int i * cpf + min cpf (nch - int i * cpf) - 1]) [0..<k])
      = [0 .. min nch (int k * cpf) - 1]" if "k \<le> ?n" for k
    using that
  proof (induction k)
    case 0
    then show ?case using assms(1) by simp
  next
    case (Suc k)
    have k: "int k * cpf < nch" using Suc.prems by (intro flow_start_less[OF assms(1,2)]) simp
    then have "int k * cpf + min cpf (nch - int k * cpf) = min nch (int (Suc k) * cpf)"
      by (simp add: min_def algebra_simps)
    moreover have "[0 .. min nch (int (Suc k) * cpf) - 1]
        = [0 .. int k * cpf - 1] @ [int k * cpf .. min nch (int (Suc k) * cpf) - 1]"
      using k assms(2) by (intro upto_split1) (simp_all add: algebra_simps)
    ultimately show ?case using Suc k by simp
  qed
  from this[of ?n] have "concat (map (\<lambda>f. [fl_ch_start f .. fl_ch_start f + fl_n_ch f - 1]) ?fs)
      = [0 .. nch - 1]"
    using flow_count_bounds(2)[OF assms(1,2)] by (simp add: flow_at_def o_def min_def)
  moreover have "0 < fl_n_ch (?fs ! i)" if "i < ?n" for i
    using that flow_start_less[OF assms(1,2) that] assms(2) by (simp add: flow_at_def)
  moreover have "fl_n_ch (?fs ! i) \<le> cpf" "fl_payload_type (?fs ! i) = pt"
      "fl_ssrc (?fs ! i) = ssrc + of_nat i" "fl_seq (?fs ! i) = 0" if "i < ?n" for i
    using that by (simp_all add: flow_at_def)
  ultimately show ?thesis
    unfolding n Let_def using dante_build_flows_eq[OF assms]
    by (cases "int ?n \<le> mx") (auto intro!: exI[of _ ?fs])
qed

theorem flows_partition_channels_witness:
  "\<exists>fs. length fs = 5 \<and> concat (map (\<lambda>f. [fl_ch_start f .. fl_ch_start f + fl_n_ch f - 1]) fs) = [0 .. 39] \<and>
     dante_build_flows (replicate 16 undefined) 16 40 8 97 1000 = Some (5, fs @ replicate 11 undefined)"
  using flows_partition_channels[of 40 8 16 "replicate 16 undefined" 97 1000] by auto

text \<open>
  The rounding of the flow count adds \<open>n_channels + ch_per_flow\<close> as signed \<open>int\<close>s: for
  a width near the top of the range, where a single flow would do, the sum overflows and
  the call is undefined.
\<close>

theorem flow_count_overflows:
  assumes "0 < nch" and "0 < cpf" and "2147483647 < nch + cpf"
  shows "dante_build_flows flows mx nch cpf pt ssrc = None"
  using assms by (simp add: dante_build_flows_def)

theorem flow_count_overflows_witness:
  "dante_build_flows (replicate 16 undefined) 16 40 2147483647 97 1000 = None"
  by (rule flow_count_overflows) simp_all

subsection \<open>The accumulation window\<close>

definition flow_ok :: "reac_mode \<Rightarrow> reac_flow \<Rightarrow> bool" where
  "flow_ok m f \<longleftrightarrow> 0 \<le> fl_ch_start f \<and> 0 < fl_n_ch f \<and> fl_ch_start f + fl_n_ch f \<le> n_channels m"

definition packetizer_ok :: "packetizer \<Rightarrow> bool" where
  "packetizer_ok pk \<longleftrightarrow> mode_ok (pk_mode pk) \<and>
     1 \<le> pk_frames_per_packet pk \<and> pk_frames_per_packet pk \<le> 4 \<and>
     0 \<le> pk_frames_buffered pk \<and> pk_frames_buffered pk < pk_frames_per_packet pk \<and>
     length (pk_planar pk) = 11520 \<and>
     0 \<le> pk_n_flows pk \<and> pk_n_flows pk \<le> int (length (pk_flows pk)) \<and>
     (\<forall>f \<in> set (take (nat (pk_n_flows pk)) (pk_flows pk)). flow_ok (pk_mode pk) f)"

text \<open>
  The abstract state of the window is the list of the frames it holds, each with its time
  stamp and its concealment flag.
\<close>

type_synonym pushed = "byte list \<times> u32 \<times> bool"

abbreviation fpp_of :: "packetizer \<Rightarrow> nat" where "fpp_of pk \<equiv> nat (pk_frames_per_packet pk)"
abbreviation pnch :: "packetizer \<Rightarrow> nat" where "pnch pk \<equiv> nch_of (pk_mode pk)"
abbreviation psps :: "packetizer \<Rightarrow> nat" where "psps pk \<equiv> sps_of (pk_mode pk)"

definition holds_frames :: "packetizer \<Rightarrow> pushed list \<Rightarrow> bool" where
  "holds_frames pk fs \<longleftrightarrow> length fs = nat (pk_frames_buffered pk) \<and>
     (\<forall>j < length fs. \<forall>c < pnch pk.
        chunk (pk_planar pk) ((c * (fpp_of pk * psps pk) + j * psps pk) * 3) (psps pk * 3)
          = chunk (fst (fs ! j)) (c * psps pk * 3) (psps pk * 3)) \<and>
     (fs \<noteq> [] \<longrightarrow> pk_pending_ts pk = fst (snd (hd fs)) \<and>
        pk_pending_concealed pk = (\<exists>x \<in> set fs. snd (snd x)))"

text \<open>The planar block of a full window: frame \<open>t div sps\<close> holds the time step \<open>t\<close>.\<close>

definition window_pcm :: "nat \<Rightarrow> nat \<Rightarrow> nat \<Rightarrow> pushed list \<Rightarrow> byte list" where
  "window_pcm nch sps fpp fs = planar nch (fpp * sps)
     (\<lambda>c t. sample_at sps (fst (fs ! (t div sps))) c (t mod sps))"

definition flow_packet :: "reac_mode \<Rightarrow> nat \<Rightarrow> pushed list \<Rightarrow> reac_flow \<Rightarrow> byte list" where
  "flow_packet m fpp fs fl =
     rtp_packet \<lparr>rp_payload_type = fl_payload_type fl, rp_seq = fl_seq fl,
                 rp_timestamp = fst (snd (hd fs)), rp_ssrc = fl_ssrc fl\<rparr>
       (window_pcm (nch_of m) (sps_of m) fpp fs) (nat (fl_ch_start fl)) (nat (fl_n_ch fl)) (fpp * sps_of m)"

text \<open>The abstract push: append, and hand one packet per flow out when the window is full.\<close>

definition spec_emit ::
  "packetizer \<Rightarrow> pushed list \<Rightarrow> (nat \<Rightarrow> byte list \<Rightarrow> bool \<Rightarrow> 'w \<Rightarrow> 'w option) \<Rightarrow> 'w \<Rightarrow> 'w option" where
  "spec_emit pk fs emit = forn (nat (pk_n_flows pk)) (\<lambda>i.
     emit i (flow_packet (pk_mode pk) (fpp_of pk) fs (pk_flows pk ! i)) (\<exists>x \<in> set fs. snd (snd x)))"

definition bump :: "nat \<Rightarrow> reac_flow list \<Rightarrow> reac_flow list" where
  "bump n fls = map (\<lambda>f. f\<lparr>fl_seq := fl_seq f + 1\<rparr>) (take n fls) @ drop n fls"

lemma packetizer_ok_nat:
  assumes "packetizer_ok pk"
  shows "0 < fpp_of pk" "fpp_of pk \<le> 4" "pnch pk * (fpp_of pk * psps pk) * 3 \<le> 11520"
    "nat (pk_frames_buffered pk) < fpp_of pk"
    "c_int (pk_frames_per_packet pk * samples_per_pkt (pk_mode pk))
      = Some (pk_frames_per_packet pk * samples_per_pkt (pk_mode pk))"
    "nat (pk_frames_per_packet pk * samples_per_pkt (pk_mode pk)) = fpp_of pk * psps pk"
    "c_int (pk_frames_buffered pk + 1) = Some (pk_frames_buffered pk + 1)"
proof -
  let ?f = "pk_frames_per_packet pk" and ?s = "samples_per_pkt (pk_mode pk)"
  have m: "mode_ok (pk_mode pk)" and f: "1 \<le> ?f" "?f \<le> 4" using assms by (auto simp: packetizer_ok_def)
  note mm = mode_ok_nat[OF m]
  show fp: "0 < fpp_of pk" "fpp_of pk \<le> 4" using f by linarith+
  have "pnch pk * psps pk * 3 * fpp_of pk \<le> 1440 * 4" using mm(5) fp by (intro mult_le_mono)
  then show "pnch pk * (fpp_of pk * psps pk) * 3 \<le> 11520" by (simp add: ac_simps)
  show "nat (pk_frames_buffered pk) < fpp_of pk" using assms by (auto simp: packetizer_ok_def)
  have s: "0 < ?s" "?s \<le> 24" using m by (auto simp: mode_ok_def)
  have "0 \<le> ?f * ?s" using f s by simp
  moreover have "?f * ?s \<le> 4 * 24" using f s by (intro mult_mono) auto
  ultimately show "c_int (?f * ?s) = Some (?f * ?s)" by (intro c_int_Some) auto
  show "nat (?f * ?s) = fpp_of pk * psps pk" using f by (simp add: nat_mult_distrib)
  show "c_int (pk_frames_buffered pk + 1) = Some (pk_frames_buffered pk + 1)"
    using assms by (intro c_int_Some) (auto simp: packetizer_ok_def)
qed

text \<open>Appending frame \<open>j\<close> writes its channels into their slots and keeps the others.\<close>

lemma append_frame:
  assumes "0 < sps" "j < fpp" and "nch * (fpp * sps) * 3 \<le> length win" and "nch * sps * 3 \<le> length fr"
  shows "\<exists>win'. forn nch (\<lambda>c win. memcpy win ((c * (fpp * sps) + j * sps) * 3) fr (c * sps * 3) (sps * 3)) win
      = Some win' \<and> length win' = length win \<and>
    (\<forall>i < fpp. \<forall>c < nch. chunk win' ((c * (fpp * sps) + i * sps) * 3) (sps * 3)
       = (if i = j then chunk fr (c * sps * 3) (sps * 3)
          else chunk win ((c * (fpp * sps) + i * sps) * 3) (sps * 3)))"
proof -
  let ?at = "\<lambda>c i. (c * (fpp * sps) + i * sps) * 3"
  let ?P = "\<lambda>k win'. length win' = length win \<and> (\<forall>i < fpp. \<forall>c < nch. chunk win' (?at c i) (sps * 3)
       = (if i = j \<and> c < k then chunk fr (c * sps * 3) (sps * 3) else chunk win (?at c i) (sps * 3)))"
  have fits: "?at c i + sps * 3 \<le> length win" if "c < nch" "i < fpp" for c i
  proof -
    have "(c * fpp + i + 1) * (sps * 3) \<le> nch * fpp * (sps * 3)"
      using index_bound[OF that] by (intro mult_le_mono1) simp
    then show ?thesis using assms(3) by (simp add: algebra_simps)
  qed
  have apart: "?at c i + sps * 3 \<le> ?at d j \<or> ?at d j + sps * 3 \<le> ?at c i"
    if "(c, i) \<noteq> (d, j)" "i < fpp" for c d i
  proof -
    have "c * fpp + i \<noteq> d * fpp + j"
    proof
      assume e: "c * fpp + i = d * fpp + j"
      have "(c * fpp + i) div fpp = c" "(d * fpp + j) div fpp = d" using that assms(2) by auto
      with e that show False by simp
    qed
    then have "c * fpp + i + 1 \<le> d * fpp + j \<or> d * fpp + j + 1 \<le> c * fpp + i" by linarith
    then have "(c * fpp + i + 1) * (sps * 3) \<le> (d * fpp + j) * (sps * 3) \<or>
        (d * fpp + j + 1) * (sps * 3) \<le> (c * fpp + i) * (sps * 3)"
      by (metis mult_le_mono1)
    then show ?thesis by (simp add: algebra_simps)
  qed
  have "\<exists>t. forn nch (\<lambda>c win. memcpy win (?at c j) fr (c * sps * 3) (sps * 3)) win = Some t \<and> ?P nch t"
  proof (rule forn_rule[where P = ?P])
    show "?P 0 win" by simp
    fix k t
    assume k: "k < nch" and P: "?P k t"
    have src: "k * sps * 3 + sps * 3 \<le> length fr"
      using assms(4) mult_le_mono1[of "Suc k" nch "sps * 3"] k by (simp add: algebra_simps)
    let ?t = "blit t (?at k j) (chunk fr (k * sps * 3) (sps * 3))"
    have d: "?at k j + length (chunk fr (k * sps * 3) (sps * 3)) \<le> length t"
      using fits[OF k assms(2)] P src by simp
    have "memcpy t (?at k j) fr (k * sps * 3) (sps * 3) = Some ?t"
      using fits[OF k assms(2)] P src by (intro memcpy_Some) simp_all
    moreover have "chunk ?t (?at c i) (sps * 3) = (if i = j \<and> c < Suc k then chunk fr (c * sps * 3) (sps * 3)
        else chunk win (?at c i) (sps * 3))" if "i < fpp" "c < nch" for i c
    proof (cases "(c, i) = (k, j)")
      case True
      then show ?thesis using chunk_blit_same[OF d] src by simp
    next
      case False
      have "chunk ?t (?at c i) (sps * 3) = chunk t (?at c i) (sps * 3)"
        using apart[OF False that(1)] fits[OF that(2,1)] src P by (intro chunk_blit_disjoint[OF d]) auto
      then show ?thesis using P that False by auto
    qed
    ultimately show "\<exists>t'. memcpy t (?at k j) fr (k * sps * 3) (sps * 3) = Some t' \<and> ?P (Suc k) t'"
      using P length_blit[OF d] by auto
  qed
  then show ?thesis by auto
qed

lemma full_window_sample:
  assumes ok: "packetizer_ok pk" and fs: "length fs = fpp_of pk"
    and win: "\<forall>j < fpp_of pk. \<forall>c < pnch pk.
        chunk win ((c * (fpp_of pk * psps pk) + j * psps pk) * 3) (psps pk * 3)
          = chunk (fst (fs ! j)) (c * psps pk * 3) (psps pk * 3)"
    and c: "c < pnch pk" and t: "t < fpp_of pk * psps pk"
  shows "sample_at (fpp_of pk * psps pk) win c t
    = sample_at (psps pk) (fst (fs ! (t div psps pk))) c (t mod psps pk)"
proof -
  let ?S = "psps pk" and ?F = "fpp_of pk"
  let ?j = "t div ?S" and ?r = "t mod ?S"
  have S: "0 < ?S" using ok mode_ok_nat(3) by (auto simp: packetizer_ok_def)
  then have j: "?j < ?F" using t by (simp add: less_mult_imp_div_less)
  have r: "?r * 3 + 3 \<le> ?S * 3" using mod_less_divisor[OF S, of t] by simp
  have "t = ?j * ?S + ?r" by simp
  then have "sample_at (?F * ?S) win c t = chunk win ((c * (?F * ?S) + ?j * ?S) * 3 + ?r * 3) 3"
    unfolding sample_at_def by (metis add.assoc add_mult_distrib)
  also have "\<dots> = chunk (chunk win ((c * (?F * ?S) + ?j * ?S) * 3) (?S * 3)) (?r * 3) 3"
    by (rule chunk_chunk[OF r, symmetric])
  also have "\<dots> = chunk (chunk (fst (fs ! ?j)) (c * ?S * 3) (?S * 3)) (?r * 3) 3"
    using win j c by simp
  also have "\<dots> = chunk (fst (fs ! ?j)) (c * ?S * 3 + ?r * 3) 3" by (rule chunk_chunk[OF r])
  finally show ?thesis by (simp add: sample_at_def algebra_simps)
qed

lemma rtp_payload_cong:
  assumes "\<And>ch s. ch < c + n \<Longrightarrow> s < ns \<Longrightarrow> sample_at ns a ch s = sample_at ns b ch s"
  shows "rtp_payload a c n ns = rtp_payload b c n ns"
  unfolding rtp_payload_def interleaved_def by (rule planar_cong) (simp add: assms)

lemma nth_take_mem: "i < n \<Longrightarrow> n \<le> length xs \<Longrightarrow> xs ! i \<in> set (take n xs)"
  by (metis in_set_conv_nth length_take min.absorb2 nth_take)

lemma emit_loop:
  assumes "n \<le> length fls"
    and "\<And>i fls' w. i < n \<Longrightarrow> length fls' = length fls \<Longrightarrow> fls' ! i = fls ! i \<Longrightarrow>
      body i (fls', w) = do { w \<leftarrow> emit i w; Some (fls'[i := inc (fls ! i)], w) }"
  shows "forn n body (fls, w) = do { w \<leftarrow> forn n emit w; Some (map inc (take n fls) @ drop n fls, w) }"
  using assms
proof (induction n)
  case 0
  then show ?case by simp
next
  case (Suc n)
  let ?fls = "map inc (take n fls) @ drop n fls"
  have nth: "?fls ! n = fls ! n" using Suc.prems(1) by (simp add: nth_append)
  have "?fls[n := inc (fls ! n)] = map inc (take (Suc n) fls) @ drop (Suc n) fls"
    using Suc.prems(1) by (simp add: list_update_append take_Suc_conv_app_nth Cons_nth_drop_Suc[symmetric])
  moreover have "body n (?fls, v) = do { w \<leftarrow> emit n v; Some (?fls[n := inc (fls ! n)], w) }" for v
    using Suc.prems(1) nth by (intro Suc.prems(2)) auto
  ultimately show ?case using Suc by (simp add: Option.bind_assoc)
qed

lemma window_packet:
  assumes ok: "packetizer_ok pk" and fs: "length fs = fpp_of pk"
    and fr: "\<forall>x \<in> set fs. pnch pk * psps pk * 3 \<le> length (fst x)"
    and win: "\<forall>j < fpp_of pk. \<forall>c < pnch pk.
        chunk win ((c * (fpp_of pk * psps pk) + j * psps pk) * 3) (psps pk * 3)
          = chunk (fst (fs ! j)) (c * psps pk * 3) (psps pk * 3)"
    and fl: "flow_ok (pk_mode pk) fl"
  shows "rtp_payload win (nat (fl_ch_start fl)) (nat (fl_n_ch fl)) (fpp_of pk * psps pk)
    = rtp_payload (window_pcm (pnch pk) (psps pk) (fpp_of pk) fs)
        (nat (fl_ch_start fl)) (nat (fl_n_ch fl)) (fpp_of pk * psps pk)"
proof (rule rtp_payload_cong)
  let ?S = "psps pk" and ?T = "fpp_of pk * psps pk"
  fix ch t
  assume "ch < nat (fl_ch_start fl) + nat (fl_n_ch fl)" and t: "t < ?T"
  then have ch: "ch < pnch pk" using fl by (auto simp: flow_ok_def)
  have S: "0 < ?S" using ok mode_ok_nat(3) by (auto simp: packetizer_ok_def)
  have len: "length (sample_at ?S (fst (fs ! (t div ?S))) c (t mod ?S)) = 3"
    if "c < pnch pk" "t < ?T" for c t
  proof -
    have "t div ?S < length fs" using that(2) fs by (simp add: less_mult_imp_div_less)
    then have "pnch pk * ?S * 3 \<le> length (fst (fs ! (t div ?S)))" using fr nth_mem by blast
    then show ?thesis using S that by (intro length_pcm_sample[of c "pnch pk"]) auto
  qed
  have "sample_at ?T (window_pcm (pnch pk) ?S (fpp_of pk) fs) ch t
      = sample_at ?S (fst (fs ! (t div ?S))) ch (t mod ?S)"
    unfolding window_pcm_def by (rule sample_at_planar) (use len ch t in auto)
  then show "sample_at ?T win ch t = sample_at ?T (window_pcm (pnch pk) ?S (fpp_of pk) fs) ch t"
    using full_window_sample[OF ok fs win ch t] by simp
qed

text \<open>
  The flow loop of a full window, given the window's planar block: it emits the abstract
  packets in flow order and advances every flow's sequence number.
\<close>

lemma flow_loop:
  assumes geo: "documented_geometry L" and ok: "packetizer_ok pk" and fs: "length fs = fpp_of pk"
    and fr: "\<forall>x \<in> set fs. pnch pk * psps pk * 3 \<le> length (fst x)"
    and win: "length win = 11520" "\<forall>j < fpp_of pk. \<forall>c < pnch pk.
        chunk win ((c * (fpp_of pk * psps pk) + j * psps pk) * 3) (psps pk * 3)
          = chunk (fst (fs ! j)) (c * psps pk * 3) (psps pk * 3)"
  shows "forn (nat (pk_n_flows pk)) (\<lambda>i (flows, ctx). do {
           fl \<leftarrow> rd flows i;
           let p = \<lparr>rp_payload_type = fl_payload_type fl, rp_seq = fl_seq fl,
                    rp_timestamp = fst (snd (hd fs)), rp_ssrc = fl_ssrc fl\<rparr>;
           let size = RTP_HEADER_LEN + REAC_MAX_CHANNELS L * nat PACKETIZER_MAX_FPP * 24 * 3;
           (n, pkt) \<leftarrow> rtp_l24_build_flow (replicate size 0) size p win (n_channels (pk_mode pk))
                        (fl_ch_start fl) (fl_n_ch fl) (pk_frames_per_packet pk * samples_per_pkt (pk_mode pk));
           if n > 0 then do {
             ctx \<leftarrow> emit i (take (nat n) pkt) (\<exists>x \<in> set fs. snd (snd x)) ctx;
             flows \<leftarrow> wr flows i (fl\<lparr>fl_seq := fl_seq fl + 1\<rparr>);
             Some (flows, ctx)
           } else Some (flows, ctx)
         }) (pk_flows pk, ctx)
    = do { ctx \<leftarrow> spec_emit pk fs emit ctx; Some (bump (nat (pk_n_flows pk)) (pk_flows pk), ctx) }"
  unfolding spec_emit_def bump_def
proof (rule emit_loop)
  let ?N = "n_channels (pk_mode pk)" and ?T = "pk_frames_per_packet pk * samples_per_pkt (pk_mode pk)"
  note ns = packetizer_ok_nat[OF ok]
  show nfl: "nat (pk_n_flows pk) \<le> length (pk_flows pk)" using ok by (auto simp: packetizer_ok_def)
  fix i fls' w
  assume i: "i < nat (pk_n_flows pk)" and fls': "length fls' = length (pk_flows pk)"
    "fls' ! i = pk_flows pk ! i"
  define fl where "fl = pk_flows pk ! i"
  define p where "p = \<lparr>rp_payload_type = fl_payload_type fl, rp_seq = fl_seq fl,
      rp_timestamp = fst (snd (hd fs)), rp_ssrc = fl_ssrc fl\<rparr>"
  have "fl \<in> set (take (nat (pk_n_flows pk)) (pk_flows pk))"
    unfolding fl_def by (rule nth_take_mem[OF i nfl])
  then have fl: "flow_ok (pk_mode pk) fl" using ok by (simp add: packetizer_ok_def)
  then have b: "0 \<le> fl_ch_start fl" "0 < fl_n_ch fl" "fl_ch_start fl + fl_n_ch fl \<le> ?N"
    by (simp_all add: flow_ok_def)
  have m: "mode_ok (pk_mode pk)" "1 \<le> pk_frames_per_packet pk" using ok by (auto simp: packetizer_ok_def)
  then have T: "0 < ?T" "?N < 2 ^ 31" by (auto simp: mode_ok_def)
  have win3: "nat ?N * nat ?T * 3 \<le> length win" using ns(3,6) win(1) by (simp add: mult.assoc)
  have fit: "nat (fl_ch_start fl) + nat (fl_n_ch fl) \<le> nat ?N" using b by linarith
  have "nat (fl_n_ch fl) * nat ?T * 3 \<le> nat ?N * nat ?T * 3" using fit by simp
  then have cap: "12 + nat (fl_n_ch fl) * nat ?T * 3 \<le> 11532" using win3 unfolding win(1) by linarith
  let ?pkt = "rtp_packet p win (nat (fl_ch_start fl)) (nat (fl_n_ch fl)) (nat ?T)"
  have "rtp_l24_build_flow (replicate 11532 0) 11532 p win ?N (fl_ch_start fl) (fl_n_ch fl) ?T
      = Some (12 + fl_n_ch fl * ?T * 3, blit (replicate 11532 0) 0 ?pkt)"
    by (rule build_flow_eq) (use b T win3 cap in simp_all)
  moreover have len: "length ?pkt = 12 + nat (fl_n_ch fl) * nat ?T * 3"
    by (rule length_rtp_packet[OF fit win3])
  moreover have "12 + fl_n_ch fl * ?T * 3 = int (length ?pkt)" using len b T by simp
  moreover have "?pkt = flow_packet (pk_mode pk) (fpp_of pk) fs fl"
    using window_packet[OF ok fs fr win(2) fl]
    by (simp add: flow_packet_def rtp_packet_def p_def ns(6))
  ultimately have build: "rtp_l24_build_flow (replicate 11532 0) 11532 p win ?N (fl_ch_start fl) (fl_n_ch fl) ?T
      = Some (int (length ?pkt), flow_packet (pk_mode pk) (fpp_of pk) fs fl @ drop (length ?pkt) (replicate 11532 0))"
      "0 < length ?pkt" "length ?pkt = length (flow_packet (pk_mode pk) (fpp_of pk) fs fl)"
    by (simp_all add: blit_prefix)
  have size: "RTP_HEADER_LEN + REAC_MAX_CHANNELS L * nat PACKETIZER_MAX_FPP * 24 * 3 = 11532"
    using geo by (simp add: RTP_HEADER_LEN_def PACKETIZER_MAX_FPP_def geometry_simps)
  have il: "i < length fls'" using i nfl fls' by simp
  show "(\<lambda>(flows, ctx). do {
           fl \<leftarrow> rd flows i;
           let p = \<lparr>rp_payload_type = fl_payload_type fl, rp_seq = fl_seq fl,
                    rp_timestamp = fst (snd (hd fs)), rp_ssrc = fl_ssrc fl\<rparr>;
           let size = RTP_HEADER_LEN + REAC_MAX_CHANNELS L * nat PACKETIZER_MAX_FPP * 24 * 3;
           (n, pkt) \<leftarrow> rtp_l24_build_flow (replicate size 0) size p win (n_channels (pk_mode pk))
                        (fl_ch_start fl) (fl_n_ch fl) ?T;
           if n > 0 then do {
             ctx \<leftarrow> emit i (take (nat n) pkt) (\<exists>x \<in> set fs. snd (snd x)) ctx;
             flows \<leftarrow> wr flows i (fl\<lparr>fl_seq := fl_seq fl + 1\<rparr>);
             Some (flows, ctx)
           } else Some (flows, ctx)
         }) (fls', w)
    = do { w \<leftarrow> emit i (flow_packet (pk_mode pk) (fpp_of pk) fs (pk_flows pk ! i)) (\<exists>x \<in> set fs. snd (snd x)) w;
           Some (fls'[i := (pk_flows pk ! i)\<lparr>fl_seq := fl_seq (pk_flows pk ! i) + 1\<rparr>], w) }"
    using il fls'(2) build unfolding fl_def[symmetric] size
    by (simp add: p_def[symmetric] wr_def Let_def del: replicate.simps)
qed

subsection \<open>One push\<close>

definition same_setup :: "packetizer \<Rightarrow> packetizer \<Rightarrow> bool" where
  "same_setup pk pk' \<longleftrightarrow> pk_mode pk' = pk_mode pk \<and>
     pk_frames_per_packet pk' = pk_frames_per_packet pk \<and> pk_n_flows pk' = pk_n_flows pk"

lemma bump_ok:
  assumes "\<forall>f \<in> set (take n fls). flow_ok m f"
  shows "\<forall>f \<in> set (take n (bump n fls)). flow_ok m f" "length (bump n fls) = length fls"
  using assms by (cases "n \<le> length fls"; auto simp: bump_def flow_ok_def)+

text \<open>The window after the copy of a push, with the stamp and flag the push computes.\<close>

lemma window_after_copy:
  assumes ok: "packetizer_ok pk" and h: "holds_frames pk fs" and fr: "pnch pk * psps pk * 3 \<le> length fr"
  shows "\<exists>win. forn (pnch pk) (\<lambda>c win. memcpy win
        ((c * (fpp_of pk * psps pk) + nat (pk_frames_buffered pk) * psps pk) * 3) fr
        (c * psps pk * 3) (psps pk * 3)) (pk_planar pk) = Some win \<and> length win = 11520 \<and>
    (\<forall>j \<le> length fs. \<forall>c < pnch pk.
        chunk win ((c * (fpp_of pk * psps pk) + j * psps pk) * 3) (psps pk * 3)
          = chunk (fst ((fs @ [(fr, ts, con)]) ! j)) (c * psps pk * 3) (psps pk * 3))"
proof -
  let ?S = "psps pk" and ?F = "fpp_of pk" and ?f = "nat (pk_frames_buffered pk)"
  have S: "0 < ?S" using ok mode_ok_nat(3) by (auto simp: packetizer_ok_def)
  have f: "?f < ?F" and len: "length (pk_planar pk) = 11520" and lf: "length fs = ?f"
    using packetizer_ok_nat(4)[OF ok] ok h by (auto simp: packetizer_ok_def holds_frames_def)
  obtain win where win: "forn (pnch pk) (\<lambda>c win. memcpy win ((c * (?F * ?S) + ?f * ?S) * 3) fr
        (c * ?S * 3) (?S * 3)) (pk_planar pk) = Some win" "length win = length (pk_planar pk)"
      "\<forall>i < ?F. \<forall>c < pnch pk. chunk win ((c * (?F * ?S) + i * ?S) * 3) (?S * 3)
       = (if i = ?f then chunk fr (c * ?S * 3) (?S * 3)
          else chunk (pk_planar pk) ((c * (?F * ?S) + i * ?S) * 3) (?S * 3))"
    using append_frame[OF S f, of "pnch pk" "pk_planar pk" fr] fr len packetizer_ok_nat(3)[OF ok] by auto
  have "chunk win ((c * (?F * ?S) + j * ?S) * 3) (?S * 3)
          = chunk (fst ((fs @ [(fr, ts, con)]) ! j)) (c * ?S * 3) (?S * 3)"
    if "j \<le> length fs" "c < pnch pk" for j c
  proof (cases "j = ?f")
    case True
    then show ?thesis using win(3) that f lf by (simp add: nth_append)
  next
    case False
    then have j: "j < length fs" "j < ?F" using that lf f by linarith+
    then have "chunk win ((c * (?F * ?S) + j * ?S) * 3) (?S * 3)
        = chunk (pk_planar pk) ((c * (?F * ?S) + j * ?S) * 3) (?S * 3)"
      using win(3) that False by metis
    also have "\<dots> = chunk (fst (fs ! j)) (c * ?S * 3) (?S * 3)"
      using h j that unfolding holds_frames_def by blast
    finally show ?thesis using j by (simp add: nth_append)
  qed
  then show ?thesis using win len by auto
qed

lemma packetizer_push_eq:
  fixes ts :: u32 and con :: bool
  assumes geo: "documented_geometry L" and ok: "packetizer_ok pk" and h: "holds_frames pk fs"
    and fr: "pnch pk * psps pk * 3 \<le> length fr"
    and frs: "\<forall>x \<in> set fs. pnch pk * psps pk * 3 \<le> length (fst x)"
  defines "fs' \<equiv> fs @ [(fr, ts, con)]"
  shows "length fs' < fpp_of pk \<Longrightarrow> \<exists>pk'. packetizer_push L pk fr ts con emit w = Some (pk', w) \<and>
      packetizer_ok pk' \<and> holds_frames pk' fs' \<and> same_setup pk pk' \<and> pk_flows pk' = pk_flows pk"
    and "length fs' = fpp_of pk \<Longrightarrow> \<exists>pk'. packetizer_push L pk fr ts con emit w
        = do { w \<leftarrow> spec_emit pk fs' emit w; Some (pk', w) } \<and>
      packetizer_ok pk' \<and> holds_frames pk' [] \<and> same_setup pk pk' \<and>
      pk_flows pk' = bump (nat (pk_n_flows pk)) (pk_flows pk)"
    and "length fs' \<le> fpp_of pk"
proof -
  let ?S = "psps pk" and ?F = "fpp_of pk" and ?f = "pk_frames_buffered pk"
  note ns = packetizer_ok_nat[OF ok]
  have lf: "length fs = nat ?f" "0 \<le> ?f" using h ok by (auto simp: holds_frames_def packetizer_ok_def)
  have "Suc (length fs) \<le> ?F" unfolding lf(1) using ns(4) by (rule Suc_leI)
  then show "length fs' \<le> ?F" by (simp add: fs'_def)
  obtain win where win: "forn (pnch pk) (\<lambda>c win. memcpy win
        ((c * (?F * ?S) + nat ?f * ?S) * 3) fr (c * ?S * 3) (?S * 3)) (pk_planar pk) = Some win"
      "length win = 11520"
      "\<forall>j \<le> length fs. \<forall>c < pnch pk. chunk win ((c * (?F * ?S) + j * ?S) * 3) (?S * 3)
          = chunk (fst (fs' ! j)) (c * ?S * 3) (?S * 3)"
    using window_after_copy[OF ok h fr, of ts con] unfolding fs'_def by auto
  define pk1 where "pk1 = pk\<lparr>pk_pending_ts := fst (snd (hd fs')),
      pk_pending_concealed := (\<exists>x \<in> set fs'. snd (snd x)), pk_planar := win, pk_frames_buffered := ?f + 1\<rparr>"
  have stamp: "(let pk' = (if ?f = 0 then pk\<lparr>pk_pending_ts := ts, pk_pending_concealed := False\<rparr> else pk)
      in pk'\<lparr>pk_pending_concealed := pk_pending_concealed pk' \<or> con, pk_planar := win,
             pk_frames_buffered := ?f + 1\<rparr>) = pk1"
  proof -
    have c: "(\<exists>x \<in> set fs'. snd (snd x)) = ((if ?f = 0 then False else pk_pending_concealed pk) \<or> con)"
      using lf h by (cases fs) (auto simp: fs'_def holds_frames_def)
    have t: "fst (snd (hd fs')) = (if ?f = 0 then ts else pk_pending_ts pk)"
      using lf h by (cases fs) (auto simp: fs'_def holds_frames_def)
    show ?thesis unfolding pk1_def c t by (cases "?f = 0") simp_all
  qed
  let ?loop = "forn (nat (pk_n_flows pk1)) (\<lambda>i (flows, ctx). do {
           fl \<leftarrow> rd flows i;
           let p = \<lparr>rp_payload_type = fl_payload_type fl, rp_seq = fl_seq fl,
                    rp_timestamp = pk_pending_ts pk1, rp_ssrc = fl_ssrc fl\<rparr>;
           let size = RTP_HEADER_LEN + REAC_MAX_CHANNELS L * nat PACKETIZER_MAX_FPP * 24 * 3;
           (n, pkt) \<leftarrow> rtp_l24_build_flow (replicate size 0) size p (pk_planar pk1) (n_channels (pk_mode pk))
                        (fl_ch_start fl) (fl_n_ch fl) (pk_frames_per_packet pk * samples_per_pkt (pk_mode pk));
           if n > 0 then do {
             ctx \<leftarrow> emit i (take (nat n) pkt) (pk_pending_concealed pk1) ctx;
             flows \<leftarrow> wr flows i (fl\<lparr>fl_seq := fl_seq fl + 1\<rparr>);
             Some (flows, ctx)
           } else Some (flows, ctx)
         }) (pk_flows pk1, w)"
  have push: "packetizer_push L pk fr ts con emit w =
      (if ?f + 1 < pk_frames_per_packet pk then Some (pk1, w)
       else do { (flows, w) \<leftarrow> ?loop; Some (pk1\<lparr>pk_flows := flows, pk_frames_buffered := 0\<rparr>, w) })"
  proof (cases "?f = 0")
    case True
    then show ?thesis
      using win(1) stamp ns(7) unfolding packetizer_push_def
      by (simp add: ns(5,6) del: forn.simps)
  next
    case False
    then show ?thesis
      using win(1) stamp ns(7) unfolding packetizer_push_def
      by (simp add: ns(5,6) del: forn.simps)
  qed
  have pk1: "pk_mode pk1 = pk_mode pk" "pk_frames_per_packet pk1 = pk_frames_per_packet pk"
      "pk_n_flows pk1 = pk_n_flows pk" "pk_flows pk1 = pk_flows pk" "pk_planar pk1 = win"
      "pk_pending_ts pk1 = fst (snd (hd fs'))" "pk_frames_buffered pk1 = ?f + 1"
      "pk_pending_concealed pk1 = (\<exists>x \<in> set fs'. snd (snd x))"
    by (simp_all add: pk1_def)
  show "\<exists>pk'. packetizer_push L pk fr ts con emit w = Some (pk', w) \<and>
      packetizer_ok pk' \<and> holds_frames pk' fs' \<and> same_setup pk pk' \<and> pk_flows pk' = pk_flows pk"
    if "length fs' < ?F"
  proof -
    have "?f + 1 < pk_frames_per_packet pk" using that lf by (simp add: fs'_def)
    moreover from this have "packetizer_ok pk1" using ok win(2) by (simp add: packetizer_ok_def pk1)
    moreover have "length fs' = nat (?f + 1)" "fs' \<noteq> []" using lf by (auto simp: fs'_def)
    then have "holds_frames pk1 fs'" using win(3) lf by (auto simp: holds_frames_def pk1 fs'_def)
    ultimately show ?thesis using push by (auto simp: same_setup_def pk1)
  qed
  show "\<exists>pk'. packetizer_push L pk fr ts con emit w
        = do { w \<leftarrow> spec_emit pk fs' emit w; Some (pk', w) } \<and>
      packetizer_ok pk' \<and> holds_frames pk' [] \<and> same_setup pk pk' \<and>
      pk_flows pk' = bump (nat (pk_n_flows pk)) (pk_flows pk)"
    if full: "length fs' = ?F"
  proof -
    have nf: "\<not> ?f + 1 < pk_frames_per_packet pk" using full lf by (simp add: fs'_def)
    have frs': "\<forall>x \<in> set fs'. pnch pk * ?S * 3 \<le> length (fst x)" using frs fr by (auto simp: fs'_def)
    have "\<forall>j < ?F. \<forall>c < pnch pk. chunk win ((c * (?F * ?S) + j * ?S) * 3) (?S * 3)
          = chunk (fst (fs' ! j)) (c * ?S * 3) (?S * 3)"
      using win(3) full by (simp add: fs'_def)
    from flow_loop[OF geo ok full frs' win(2) this, of emit w]
    have "?loop = do { w \<leftarrow> spec_emit pk fs' emit w; Some (bump (nat (pk_n_flows pk)) (pk_flows pk), w) }"
      unfolding pk1 by simp
    moreover define pk2 where "pk2 = pk1\<lparr>pk_flows := bump (nat (pk_n_flows pk)) (pk_flows pk), pk_frames_buffered := 0\<rparr>"
    moreover have "packetizer_ok pk2"
      using ok win(2) bump_ok[of "nat (pk_n_flows pk)" "pk_flows pk" "pk_mode pk"]
      by (simp add: packetizer_ok_def pk2_def pk1)
    ultimately show ?thesis
      using push nf by (auto simp: same_setup_def pk1 holds_frames_def intro!: exI[of _ pk2])
  qed
qed

subsection \<open>A run\<close>

primrec packetizer_feed ::
  "libreac \<Rightarrow> (nat \<Rightarrow> byte list \<Rightarrow> bool \<Rightarrow> 'w \<Rightarrow> 'w option) \<Rightarrow> pushed list \<Rightarrow>
   packetizer \<times> 'w \<Rightarrow> (packetizer \<times> 'w) option" where
  "packetizer_feed L emit [] s = Some s"
| "packetizer_feed L emit (x # xs) s =
     packetizer_push L (fst s) (fst x) (fst (snd x)) (snd (snd x)) emit (snd s) \<bind> packetizer_feed L emit xs"

lemma packetizer_feed_Nil [simp]: "packetizer_feed L emit [] = Some"
  by (rule ext) simp

lemma packetizer_feed_append:
  "packetizer_feed L emit (xs @ ys) s = packetizer_feed L emit xs s \<bind> packetizer_feed L emit ys"
  by (induction xs arbitrary: s) (auto split: Option.bind_split)

text \<open>The callback that records what it is given.\<close>

definition record_emit ::
  "nat \<Rightarrow> byte list \<Rightarrow> bool \<Rightarrow> (nat \<times> byte list \<times> bool) list \<Rightarrow> (nat \<times> byte list \<times> bool) list option" where
  "record_emit i pkt c log = Some (log @ [(i, pkt, c)])"

text \<open>What a run should emit: for every full group of \<open>fpp\<close> frames, one packet per flow.\<close>

definition group_packets :: "packetizer \<Rightarrow> nat \<Rightarrow> pushed list \<Rightarrow> (nat \<times> byte list \<times> bool) list" where
  "group_packets pk k g = map (\<lambda>i. (i,
       flow_packet (pk_mode pk) (fpp_of pk) g
         ((pk_flows pk ! i)\<lparr>fl_seq := fl_seq (pk_flows pk ! i) + of_nat k\<rparr>),
       \<exists>x \<in> set g. snd (snd x))) [0..<nat (pk_n_flows pk)]"

definition aggregated :: "packetizer \<Rightarrow> pushed list \<Rightarrow> (nat \<times> byte list \<times> bool) list" where
  "aggregated pk xs = concat (map (\<lambda>k. group_packets pk k (chunk xs (k * fpp_of pk) (fpp_of pk)))
     [0..<length xs div fpp_of pk])"

text \<open>A callback called with every entry of such a list.\<close>

primrec emit_flows ::
  "(nat \<Rightarrow> byte list \<Rightarrow> bool \<Rightarrow> 'w \<Rightarrow> 'w option) \<Rightarrow> (nat \<times> byte list \<times> bool) list \<Rightarrow> 'w \<Rightarrow> 'w option" where
  "emit_flows emit [] w = Some w"
| "emit_flows emit (x # xs) w = emit (fst x) (fst (snd x)) (snd (snd x)) w \<bind> emit_flows emit xs"

lemma emit_flows_append: "emit_flows emit (xs @ ys) w = emit_flows emit xs w \<bind> emit_flows emit ys"
  by (induction xs arbitrary: w) (auto split: Option.bind_split)

lemma emit_flows_record: "emit_flows record_emit xs log = Some (log @ xs)"
  by (induction xs arbitrary: log) (simp_all add: record_emit_def)

lemma forn_emit: "forn n (\<lambda>i. emit i (f i) (c i)) w = emit_flows emit (map (\<lambda>i. (i, f i, c i)) [0..<n]) w"
proof (induction n)
  case (Suc n)
  have "emit_flows emit [(n, f n, c n)] = emit n (f n) (c n)"
  proof
    have nil: "emit_flows emit [] = Some" by (rule ext) simp
    show "emit_flows emit [(n, f n, c n)] v = emit n (f n) (c n) v" for v by (simp add: nil)
  qed
  then show ?case using Suc by (simp add: emit_flows_append)
qed simp

lemma length_bump_pow: "length ((bump n ^^ k) fls) = length fls"
  by (induction k) (simp_all add: bump_def)

lemma nth_bump_pow:
  "i < n \<Longrightarrow> n \<le> length fls \<Longrightarrow>
     (bump n ^^ k) fls ! i = (fls ! i)\<lparr>fl_seq := fl_seq (fls ! i) + of_nat k\<rparr>"
proof (induction k)
  case 0
  then show ?case by simp
next
  case (Suc k)
  have "bump n gs ! i = (gs ! i)\<lparr>fl_seq := fl_seq (gs ! i) + 1\<rparr>" if "length gs = length fls" for gs
    using that Suc.prems by (simp add: bump_def nth_append)
  with Suc length_bump_pow[of k n fls] show ?case by (simp add: add.assoc add.commute)
qed

lemma aggregated_snoc:
  fixes xs :: "pushed list"
  assumes "0 < fpp_of pk"
  defines "k \<equiv> length xs div fpp_of pk"
  shows "aggregated pk (xs @ [x]) = aggregated pk xs @
    (if Suc (length xs mod fpp_of pk) = fpp_of pk
     then group_packets pk k (drop (k * fpp_of pk) xs @ [x]) else [])"
proof -
  let ?F = "fpp_of pk"
  have fit: "k * ?F \<le> length xs" by (simp add: k_def)
  have old: "chunk (xs @ [x]) (j * ?F) ?F = chunk xs (j * ?F) ?F" if "j < k" for j
  proof -
    have "Suc j * ?F \<le> k * ?F" using that by (intro mult_le_mono1) simp
    then show ?thesis using fit by (intro chunk_append1) simp
  qed
  let ?g = "\<lambda>j. group_packets pk j (chunk (xs @ [x]) (j * ?F) ?F)"
  have "map ?g [0..<k] = map (\<lambda>j. group_packets pk j (chunk xs (j * ?F) ?F)) [0..<k]"
    using old by (intro map_cong) auto
  then have olds: "concat (map ?g [0..<k]) = aggregated pk xs" by (simp only: aggregated_def k_def)
  show ?thesis
  proof (cases "Suc (length xs mod ?F) = ?F")
    case True
    then have "Suc (length xs) div ?F = Suc k" by (simp add: div_Suc k_def mod_Suc)
    moreover have "length xs - k * ?F = length xs mod ?F" by (simp add: k_def minus_div_mult_eq_mod)
    then have "chunk (xs @ [x]) (k * ?F) ?F = drop (k * ?F) xs @ [x]"
      using True fit by (simp add: chunk_def)
    moreover have "aggregated pk (xs @ [x]) = concat (map ?g [0..<Suc k])"
      using calculation(1) by (simp only: aggregated_def length_append_singleton)
    ultimately show ?thesis using True olds by simp
  next
    case False
    then have "Suc (length xs) div ?F = k" using assms(1) by (simp add: div_Suc k_def mod_Suc)
    then have "aggregated pk (xs @ [x]) = concat (map ?g [0..<k])"
      by (simp only: aggregated_def length_append_singleton)
    then show ?thesis using False olds by simp
  qed
qed

lemma packetizer_feed_inv:
  assumes geo: "documented_geometry L" and ok: "packetizer_ok pk" and empty: "pk_frames_buffered pk = 0"
    and fr: "\<forall>x \<in> set xs. pnch pk * psps pk * 3 \<le> length (fst x)"
  shows "\<exists>pk'. packetizer_feed L emit xs (pk, w) = do { w \<leftarrow> emit_flows emit (aggregated pk xs) w; Some (pk', w) } \<and>
    packetizer_ok pk' \<and> same_setup pk pk' \<and>
    holds_frames pk' (drop (length xs div fpp_of pk * fpp_of pk) xs) \<and>
    pk_flows pk' = (bump (nat (pk_n_flows pk)) ^^ (length xs div fpp_of pk)) (pk_flows pk)"
  using fr
proof (induction xs rule: rev_induct)
  case Nil
  then show ?case
    using ok empty by (auto simp: aggregated_def same_setup_def holds_frames_def)
next
  case (snoc x xs)
  let ?F = "fpp_of pk" and ?k = "length xs div fpp_of pk" and ?n = "nat (pk_n_flows pk)"
  let ?fs = "drop (?k * ?F) xs"
  obtain pk' where pk': "packetizer_feed L emit xs (pk, w) = do { w \<leftarrow> emit_flows emit (aggregated pk xs) w; Some (pk', w) }"
      "packetizer_ok pk'" "same_setup pk pk'" "holds_frames pk' ?fs"
      "pk_flows pk' = (bump ?n ^^ ?k) (pk_flows pk)"
    using snoc by auto
  have same: "pk_mode pk' = pk_mode pk" "pk_frames_per_packet pk' = pk_frames_per_packet pk"
      "pk_n_flows pk' = pk_n_flows pk"
    using pk'(3) by (simp_all add: same_setup_def)
  have F: "0 < ?F" using packetizer_ok_nat(1)[OF ok] .
  have nfl: "?n \<le> length (pk_flows pk)" using ok by (auto simp: packetizer_ok_def)
  obtain fr ts con where x: "x = (fr, ts, con)" by (cases x) auto
  have frs: "\<forall>y \<in> set ?fs. pnch pk' * psps pk' * 3 \<le> length (fst y)"
    using snoc.prems unfolding same by (auto dest: in_set_dropD)
  have xl: "pnch pk' * psps pk' * 3 \<le> length fr" using snoc.prems x unfolding same by simp
  define w1 where "w1 = (case emit_flows emit (aggregated pk xs) w of Some v \<Rightarrow> v | None \<Rightarrow> w)"
  note push = packetizer_push_eq(1,2)[OF geo pk'(2,4) xl frs, where ts = ts and con = con and emit = emit and w = w1,
      unfolded same, folded x]
    packetizer_push_eq(3)[OF geo pk'(2,4) xl frs, where ts = ts and con = con, unfolded same, folded x]
  have lfs: "length ?fs = length xs mod ?F" by (simp add: minus_div_mult_eq_mod)
  have feed: "packetizer_feed L emit (xs @ [x]) (pk, w)
      = do { _ \<leftarrow> emit_flows emit (aggregated pk xs) w; packetizer_push L pk' fr ts con emit w1 }"
    using pk'(1) x by (cases "emit_flows emit (aggregated pk xs) w") (simp_all add: packetizer_feed_append w1_def)
  have now: "do { _ \<leftarrow> emit_flows emit (aggregated pk xs) w; f w1 } = do { v \<leftarrow> emit_flows emit (aggregated pk xs) w; f v }"
    for f :: "'a \<Rightarrow> (packetizer \<times> 'a) option"
    by (cases "emit_flows emit (aggregated pk xs) w") (simp_all add: w1_def)
  show ?case
  proof (cases "Suc (length xs mod ?F) = ?F")
    case False
    then have "length (?fs @ [x]) < ?F" using push(3) lfs by simp
    from push(1)[OF this] obtain pk2 where
      p2: "packetizer_push L pk' fr ts con emit w1 = Some (pk2, w1)" and
      "packetizer_ok pk2" "holds_frames pk2 (?fs @ [x])" "same_setup pk' pk2" "pk_flows pk2 = pk_flows pk'"
      by auto
    moreover have "length (xs @ [x]) div ?F = ?k" using False F by (simp add: div_Suc mod_Suc)
    moreover have "packetizer_feed L emit (xs @ [x]) (pk, w) = do { w \<leftarrow> emit_flows emit (aggregated pk xs) w; Some (pk2, w) }"
      unfolding feed p2 by (rule now)
    ultimately show ?thesis
      using pk'(3,5) False aggregated_snoc[OF F, of xs x] by (auto simp: same_setup_def)
  next
    case True
    then have "length (?fs @ [x]) = ?F" using lfs by simp
    from push(2)[OF this] obtain pk2 where pk2:
      "packetizer_push L pk' fr ts con emit w1 = do { w \<leftarrow> spec_emit pk' (?fs @ [x]) emit w1; Some (pk2, w) }"
      "packetizer_ok pk2" "holds_frames pk2 []" "same_setup pk' pk2" "pk_flows pk2 = bump ?n (pk_flows pk')"
      by auto
    have "map (\<lambda>i. (i, flow_packet (pk_mode pk) ?F (?fs @ [x]) ((bump ?n ^^ ?k) (pk_flows pk) ! i), \<exists>x \<in> set (?fs @ [x]). snd (snd x)))
        [0..<?n] = group_packets pk ?k (?fs @ [x])"
      using nfl unfolding group_packets_def by (simp add: nth_bump_pow)
    then have "spec_emit pk' (?fs @ [x]) emit v = emit_flows emit (group_packets pk ?k (?fs @ [x])) v" for v
      unfolding spec_emit_def same pk'(5)
      using forn_emit[of ?n emit "\<lambda>i. flow_packet (pk_mode pk) ?F (?fs @ [x]) ((bump ?n ^^ ?k) (pk_flows pk) ! i)"
          "\<lambda>_. \<exists>x \<in> set (?fs @ [x]). snd (snd x)" v] by simp
    then have "packetizer_feed L emit (xs @ [x]) (pk, w) = do { w \<leftarrow> emit_flows emit (aggregated pk xs @ group_packets pk ?k (?fs @ [x])) w;
        Some (pk2, w) }"
      unfolding feed pk2(1) now[of "\<lambda>v. do { w \<leftarrow> spec_emit pk' (?fs @ [x]) emit v; Some (pk2, w) }"]
      by (simp add: emit_flows_append Option.bind_assoc)
    moreover have "length (xs @ [x]) div ?F = Suc ?k" using True by (simp add: div_Suc mod_Suc)
    moreover have "length (xs @ [x]) = Suc ?k * ?F"
      using div_mult_mod_eq[of "length xs" ?F] True unfolding mult_Suc length_append_singleton by linarith
    then have "drop (Suc ?k * ?F) (xs @ [x]) = []" by (metis drop_all order_refl)
    ultimately show ?thesis
      using pk2(2-) pk'(3,5) True aggregated_snoc[OF F, of xs x] by (auto simp: same_setup_def)
  qed
qed

lemma flow_packet_parse:
  assumes m: "mode_ok m" and fl: "flow_ok m fl" and fs: "length fs = F"
    and fr: "\<forall>x \<in> set fs. nch_of m * sps_of m * 3 \<le> length (fst x)"
  shows "\<exists>body. parse_rtp (flow_packet m F fs fl) = Some (rtp_view_of
      \<lparr>rp_payload_type = fl_payload_type fl, rp_seq = fl_seq fl,
       rp_timestamp = fst (snd (hd fs)), rp_ssrc = fl_ssrc fl\<rparr>, body) \<and>
    length body = nat (fl_n_ch fl) * (F * sps_of m) * 3 \<and>
    (\<forall>t < F * sps_of m. \<forall>fc < nat (fl_n_ch fl). sample_at (nat (fl_n_ch fl)) body t fc
       = rev (sample_at (sps_of m) (fst (fs ! (t div sps_of m))) (nat (fl_ch_start fl) + fc) (t mod sps_of m)))"
proof -
  let ?S = "sps_of m" and ?N = "nch_of m" and ?c = "nat (fl_ch_start fl)" and ?n = "nat (fl_n_ch fl)"
  let ?pcm = "window_pcm ?N ?S F fs"
  let ?body = "rtp_payload ?pcm ?c ?n (F * ?S)"
  have S: "0 < ?S" using mode_ok_nat(3)[OF m] .
  have fit: "?c + ?n \<le> ?N" using fl by (auto simp: flow_ok_def)
  have one: "length (sample_at ?S (fst (fs ! (t div ?S))) c (t mod ?S)) = 3"
    if "c < ?N" "t < F * ?S" for c t
  proof -
    have "t div ?S < length fs" using that(2) fs by (simp add: less_mult_imp_div_less)
    then have "?N * ?S * 3 \<le> length (fst (fs ! (t div ?S)))" using fr nth_mem by blast
    then show ?thesis using S that by (intro length_pcm_sample[of c ?N]) auto
  qed
  have pcm: "length ?pcm = ?N * (F * ?S) * 3"
    unfolding window_pcm_def by (rule length_planar) (rule one)
  have at: "sample_at (F * ?S) ?pcm c t = sample_at ?S (fst (fs ! (t div ?S))) c (t mod ?S)"
    if "c < ?N" "t < F * ?S" for c t
    unfolding window_pcm_def by (rule sample_at_planar) (use one that in auto)
  have "sample_at ?n ?body t fc
       = rev (sample_at ?S (fst (fs ! (t div ?S))) (?c + fc) (t mod ?S))"
    if "t < F * ?S" "fc < ?n" for t fc
  proof -
    have "sample_at ?n ?body t fc = rev (sample_at (F * ?S) ?pcm (?c + fc) t)"
      unfolding rtp_payload_def
      by (rule sample_at_interleaved) (use that fit pcm in \<open>auto simp: length_pcm_sample[of _ ?N]\<close>)
    then show ?thesis using at[of "?c + fc" t] that fit by simp
  qed
  moreover have "length ?body = ?n * (F * ?S) * 3"
    by (rule length_rtp_payload[OF fit]) (use pcm in simp)
  ultimately show ?thesis
    unfolding flow_packet_def rtp_packet_def parse_rtp_header by blast
qed

lemma packetizer_init_ok:
  assumes "mode_ok m" and "length (pk_planar pk0) = 11520" and "0 \<le> n" and "n \<le> int (length fls)"
    and "\<forall>f \<in> set (take (nat n) fls). flow_ok m f"
  shows "packetizer_ok (packetizer_init pk0 m fpp fls n)"
  using assms by (simp add: packetizer_ok_def packetizer_init_def Let_def PACKETIZER_MAX_FPP_def)

lemma packetizer_init_sel:
  "pk_mode (packetizer_init pk0 m fpp fls n) = m" "pk_flows (packetizer_init pk0 m fpp fls n) = fls"
  "pk_n_flows (packetizer_init pk0 m fpp fls n) = n"
  "pk_frames_buffered (packetizer_init pk0 m fpp fls n) = 0"
  "pk_frames_per_packet (packetizer_init pk0 m fpp fls n) = min 4 (max 1 fpp)"
  by (simp_all add: packetizer_init_def Let_def PACKETIZER_MAX_FPP_def)

text \<open>The packet that group \<open>k\<close> of the frames makes for flow \<open>i\<close>, as a receiver reads it.\<close>

lemma aggregated_entry:
  assumes m: "mode_ok m" "pk_mode pk = m" "pk_flows pk = fls" "nat (pk_n_flows pk) = n" "fpp_of pk = F" "0 < F"
    and flows: "n \<le> length fls" "\<forall>f \<in> set (take n fls). flow_ok m f" and frames: "\<forall>x \<in> set xs. nch_of m * sps_of m * 3 \<le> length (fst x)"
    and k: "k < length xs div F" and i: "i < n"
  shows "\<exists>pkt body. let fl = fls ! i in
       aggregated pk xs ! (k * n + i) = (i, pkt, \<exists>x \<in> set (chunk xs (k * F) F). snd (snd x)) \<and>
       parse_rtp pkt = Some (rtp_view_of
         \<lparr>rp_payload_type = fl_payload_type fl, rp_seq = fl_seq fl + of_nat k,
          rp_timestamp = fst (snd (xs ! (k * F))), rp_ssrc = fl_ssrc fl\<rparr>, body) \<and>
       length body = nat (fl_n_ch fl) * (F * sps_of m) * 3 \<and>
       (\<forall>t < F * sps_of m. \<forall>fc < nat (fl_n_ch fl). sample_at (nat (fl_n_ch fl)) body t fc
          = rev (sample_at (sps_of m) (fst (xs ! (k * F + t div sps_of m)))
                   (nat (fl_ch_start fl) + fc) (t mod sps_of m)))"
proof -
  let ?fs = "chunk xs (k * F) F" and ?fl = "(fls ! i)\<lparr>fl_seq := fl_seq (fls ! i) + of_nat k\<rparr>"
  let ?g = "\<lambda>k. group_packets pk k (chunk xs (k * F) F)"
  have g: "length (?g k) = n" for k by (simp add: group_packets_def m)
  have agg: "aggregated pk xs = concat (map ?g [0..<length xs div F])" by (simp add: aggregated_def m)
  have len: "length (aggregated pk xs) = length xs div F * n" unfolding agg by (rule length_concat_const) (rule g)
  have "Suc k * F \<le> length xs div F * F" using k by (intro mult_le_mono1) simp
  also have "\<dots> \<le> length xs" by simp
  finally have fit: "k * F + F \<le> length xs" by simp
  then have fs: "length ?fs = F" by simp
  have nth: "?fs ! j = xs ! (k * F + j)" if "j < F" for j using that fit by (intro nth_chunk) auto
  have hd: "hd ?fs = xs ! (k * F)"
    using nth[of 0] m(6) fs hd_conv_nth[of ?fs] by (metis add_0_right length_greater_0_conv)
  have "set ?fs \<subseteq> set xs" by (auto simp: chunk_def dest: in_set_takeD in_set_dropD)
  then have fr: "\<forall>x \<in> set ?fs. nch_of m * sps_of m * 3 \<le> length (fst x)" using frames by auto
  have "flow_ok m (fls ! i)" using flows i nth_take_mem by blast
  then have fl: "flow_ok m ?fl" by (simp add: flow_ok_def)
  have "aggregated pk xs ! (k * n + i) = chunk (aggregated pk xs) (k * n) n ! i"
    using i k len mult_le_mono1[of "Suc k" "length xs div F" n] by simp
  also have "chunk (aggregated pk xs) (k * n) n = ?g k" unfolding agg by (rule chunk_concat_map[OF g k])
  also have "?g k ! i = (i, flow_packet m F ?fs ?fl, \<exists>x \<in> set ?fs. snd (snd x))" using i by (simp add: group_packets_def m)
  finally have entry: "aggregated pk xs ! (k * n + i) = (i, flow_packet m F ?fs ?fl, \<exists>x \<in> set ?fs. snd (snd x))" .
  have "fst (?fs ! (t div sps_of m)) = fst (xs ! (k * F + t div sps_of m))" if "t < F * sps_of m" for t
    using that nth[of "t div sps_of m"] by (simp add: less_mult_imp_div_less)
  with entry flow_packet_parse[OF m(1) fl fs fr] show ?thesis by (auto simp: hd Let_def)
qed

text \<open>
  C4.  A packetiser that is initialised and then given a sequence of frames hands out, for every
  full group of \<open>frames_per_packet\<close> frames and every flow in order, exactly one packet.
  Its sequence number is the flow's initial one plus the number of earlier groups, its
  time stamp is that of the first frame of the group, its flag says whether any frame of
  the group was concealed, and its payload is the flow's channels of the group's
  frames one after the other.  Frames short of a group stay buffered.
\<close>

theorem packetizer_aggregates:
  assumes "documented_geometry L" and "mode_ok m" and "length (pk_planar pk0) = 11520"
    and "n \<le> length fls" and "\<forall>f \<in> set (take n fls). flow_ok m f"
    and "\<forall>x \<in> set xs. nch_of m * sps_of m * 3 \<le> length (fst x)"
    and "F = nat (min 4 (max 1 fpp))"
  shows "\<exists>pk' log. packetizer_feed L record_emit xs (packetizer_init pk0 m fpp fls (int n), [])
      = Some (pk', log) \<and>
    length log = length xs div F * n \<and> pk_frames_buffered pk' = int (length xs mod F) \<and>
    (\<forall>k < length xs div F. \<forall>i < n. \<exists>pkt body. let fl = fls ! i in
       log ! (k * n + i) = (i, pkt, \<exists>x \<in> set (chunk xs (k * F) F). snd (snd x)) \<and>
       parse_rtp pkt = Some (rtp_view_of
         \<lparr>rp_payload_type = fl_payload_type fl, rp_seq = fl_seq fl + of_nat k,
          rp_timestamp = fst (snd (xs ! (k * F))), rp_ssrc = fl_ssrc fl\<rparr>, body) \<and>
       length body = nat (fl_n_ch fl) * (F * sps_of m) * 3 \<and>
       (\<forall>t < F * sps_of m. \<forall>fc < nat (fl_n_ch fl). sample_at (nat (fl_n_ch fl)) body t fc
          = rev (sample_at (sps_of m) (fst (xs ! (k * F + t div sps_of m)))
                   (nat (fl_ch_start fl) + fc) (t mod sps_of m))))"
proof -
  define pk where "pk = packetizer_init pk0 m fpp fls (int n)"
  have sel: "pk_mode pk = m" "pk_flows pk = fls" "nat (pk_n_flows pk) = n"
      "pk_frames_buffered pk = 0" "fpp_of pk = F"
    using assms(7) by (simp_all add: pk_def packetizer_init_sel)
  have ok: "packetizer_ok pk"
    unfolding pk_def by (rule packetizer_init_ok) (use assms in auto)
  have F: "0 < F" using assms(7) by simp
  obtain pk' where run: "packetizer_feed L record_emit xs (pk, []) = Some (pk', aggregated pk xs)"
      "holds_frames pk' (drop (length xs div F * F) xs)" "packetizer_ok pk'"
    using packetizer_feed_inv[OF assms(1) ok sel(4), of xs record_emit "[]"] assms(6) by (auto simp: sel emit_flows_record)
  have "length (drop (length xs div F * F) xs) = length xs mod F" by (simp add: minus_div_mult_eq_mod)
  then have buffered: "pk_frames_buffered pk' = int (length xs mod F)"
    using run(2,3) by (simp add: holds_frames_def packetizer_ok_def)
  have "length (group_packets pk k (chunk xs (k * F) F)) = n" for k by (simp add: group_packets_def sel)
  then have len: "length (aggregated pk xs) = length xs div F * n" unfolding aggregated_def sel by (intro length_concat_const)
  show ?thesis
    using run(1) buffered len aggregated_entry[OF assms(2) sel(1-3,5) F assms(4-6)] unfolding pk_def by blast
qed

theorem packetizer_aggregates_witness:
  "\<exists>pk' log. packetizer_feed libreac_doc record_emit (replicate 9 (replicate 1440 0, 7, False))
      (packetizer_init (undefined\<lparr>pk_planar := replicate 11520 0\<rparr>) mode_48k 4
         (map (flow_at 40 8 97 1000) [0..<5]) 5, []) = Some (pk', log) \<and>
     length log = 10 \<and> pk_frames_buffered pk' = 1"
proof -
  let ?fls = "map (flow_at 40 8 97 1000) [0..<5]"
  have "\<forall>f \<in> set (take 5 ?fls). flow_ok mode_48k f"
    by (auto simp: flow_ok_def flow_at_def)
  then show ?thesis
    using packetizer_aggregates[of libreac_doc mode_48k "undefined\<lparr>pk_planar := replicate 11520 0\<rparr>"
        5 ?fls "replicate 9 (replicate 1440 0, 7, False)" 4 4] by auto
qed

end
