(* ===== verification/Pipeline.thy ===== *)
theory Pipeline
  imports Media_Clock Plc_Conceal Packetizer
begin

text \<open>
  The REAC to RTP pipeline, \<open>src/pipeline.c\<close>: decode, media clock, loss concealment and the
  hand-over of every block either to the RTP builder (AES67) or to a PCM sink (Dante).
  Both callbacks are functions on a world \<open>'w\<close> that may fail.  The uninitialised
  stack buffers of the code are blocks of zeros.
\<close>

record pipeline_stats =
  ps_packets :: u64
  ps_concealed :: u64
  ps_loss_total :: u64
  ps_malformed :: u64
  ps_last_seq :: u16
  ps_last_tier :: int

record 'w pipeline =
  pl_mode :: reac_mode
  pl_clock :: media_clock
  pl_rtp :: rtp_params
  pl_plc :: plc
  pl_stats :: pipeline_stats
  pl_pcm_sink :: "(byte list \<Rightarrow> u32 \<Rightarrow> bool \<Rightarrow> 'w \<Rightarrow> 'w option) option"

type_synonym 'w emit_fn = "byte list \<Rightarrow> bool \<Rightarrow> 'w \<Rightarrow> 'w option"

definition pipeline_init_ex :: "libreac \<Rightarrow> reac_mode \<Rightarrow> byte \<Rightarrow> u32 \<Rightarrow> int \<Rightarrow> int \<Rightarrow> 'w pipeline" where
  "pipeline_init_ex L mode payload_type ssrc plc_xfade plc_fade_pkts =
     \<lparr>pl_mode = mode, pl_clock = media_clock_init (samples_per_pkt mode),
      pl_rtp = \<lparr>rp_payload_type = payload_type, rp_seq = 0, rp_timestamp = 0, rp_ssrc = ssrc\<rparr>,
      pl_plc = plc_init L mode plc_fade_pkts plc_xfade,
      pl_stats = \<lparr>ps_packets = 0, ps_concealed = 0, ps_loss_total = 0, ps_malformed = 0,
                  ps_last_seq = 0, ps_last_tier = -1\<rparr>,
      pl_pcm_sink = None\<rparr>"

definition pipeline_set_pcm_sink ::
  "'w pipeline \<Rightarrow> (byte list \<Rightarrow> u32 \<Rightarrow> bool \<Rightarrow> 'w \<Rightarrow> 'w option) option \<Rightarrow> 'w pipeline" where
  "pipeline_set_pcm_sink pl fn = pl\<lparr>pl_pcm_sink := fn\<rparr>"

definition pipeline_anchor :: "'w pipeline \<Rightarrow> u32 \<Rightarrow> 'w pipeline" where
  "pipeline_anchor pl anchor =
     pl\<lparr>pl_clock := media_clock_init_anchored (samples_per_pkt (pl_mode pl)) anchor\<rparr>"

definition pipeline_init :: "libreac \<Rightarrow> reac_mode \<Rightarrow> byte \<Rightarrow> u32 \<Rightarrow> 'w pipeline" where
  "pipeline_init L mode payload_type ssrc = pipeline_init_ex L mode payload_type ssrc 0 0"

definition pipeline_get_stats :: "'w pipeline \<Rightarrow> pipeline_stats" where
  "pipeline_get_stats pl = pl_stats pl"

definition emit_pcm ::
  "libreac \<Rightarrow> 'w pipeline \<Rightarrow> byte list \<Rightarrow> u32 \<Rightarrow> bool \<Rightarrow> 'w emit_fn \<Rightarrow> 'w \<Rightarrow> ('w pipeline \<times> 'w) option" where
  "emit_pcm L pl pcm ts concealed emit ctx = do {
     (pl, ctx) \<leftarrow> (case pl_pcm_sink pl of
         Some pcm_sink \<Rightarrow> do { ctx \<leftarrow> pcm_sink pcm ts concealed ctx; Some (pl, ctx) }
       | None \<Rightarrow> do {
           let size = RTP_HEADER_LEN + REAC_MAX_CHANNELS L * 24 * 3;
           let pl = pl\<lparr>pl_rtp := (pl_rtp pl)\<lparr>rp_timestamp := ts\<rparr>\<rparr>;
           (n, pkt) \<leftarrow> rtp_l24_build (replicate size 0) size (pl_rtp pl) pcm (pl_mode pl);
           ctx \<leftarrow> (if n > 0 then emit (take (nat n) pkt) concealed ctx else Some ctx);
           let pl = pl\<lparr>pl_stats := (pl_stats pl)\<lparr>ps_last_seq := rp_seq (pl_rtp pl)\<rparr>\<rparr>;
           let pl = pl\<lparr>pl_rtp := (pl_rtp pl)\<lparr>rp_seq := rp_seq (pl_rtp pl) + 1\<rparr>\<rparr>;
           Some (pl, ctx)
         });
     Some (if concealed
           then pl\<lparr>pl_stats := (pl_stats pl)\<lparr>ps_concealed := ps_concealed (pl_stats pl) + 1\<rparr>\<rparr>
           else pl\<lparr>pl_stats := (pl_stats pl)\<lparr>ps_packets := ps_packets (pl_stats pl) + 1\<rparr>\<rparr>, ctx)
   }"

definition pipeline_on_frame ::
  "libreac \<Rightarrow> 'w pipeline \<Rightarrow> byte list \<Rightarrow> nat \<Rightarrow> 'w emit_fn \<Rightarrow> 'w \<Rightarrow> (int \<times> 'w pipeline \<times> 'w) option" where
  "pipeline_on_frame L pl raw len emit ctx = do {
     let size = REAC_MAX_CHANNELS L * 24 * 3;
     (ns, pcm) \<leftarrow> reac_decode L raw len (pl_mode pl) (replicate size 0);
     if ns < 0 then
       Some (-1, pl\<lparr>pl_stats := (pl_stats pl)\<lparr>ps_malformed := ps_malformed (pl_stats pl) + 1\<rparr>\<rparr>, ctx)
     else do {
       f \<leftarrow> reac_frame_inspect L raw len (pl_mode pl);
       let (clock, step) = media_clock_on_packet (pl_clock pl) (fr_counter f);
       let pl = pl\<lparr>pl_clock := clock\<rparr>;
       let pl = pl\<lparr>pl_stats := (pl_stats pl)\<lparr>ps_loss_total := ps_loss_total (pl_stats pl)
                     + word_of_int (step_silence_packets step)\<rparr>\<rparr>;
       let sps = samples_per_pkt (pl_mode pl);
       (pl, ctx) \<leftarrow> forn (nat (step_silence_packets step)) (\<lambda>i (pl, ctx). do {
           let cts = step_rtp_ts step
                 - word_of_int (step_silence_packets step - int i) * word_of_int sps;
           (cpcm, tier) \<leftarrow> plc_conceal (pl_plc pl) (replicate size 0) (int i);
           let pl = pl\<lparr>pl_stats := (pl_stats pl)\<lparr>ps_last_tier := tier\<rparr>\<rparr>;
           emit_pcm L pl cpcm cts True emit ctx
         }) (pl, ctx);
       (pl, ctx) \<leftarrow> emit_pcm L pl pcm (step_rtp_ts step) False emit ctx;
       plc \<leftarrow> plc_observe (pl_plc pl) pcm;
       Some (0, pl\<lparr>pl_plc := plc\<rparr>, ctx)
     }
   }"

text \<open>The callers' loop: every captured frame, with its length, goes to \<open>pipeline_on_frame\<close>.\<close>

primrec pipeline_run ::
  "libreac \<Rightarrow> 'w emit_fn \<Rightarrow> (byte list \<times> nat) list \<Rightarrow> 'w pipeline \<times> 'w \<Rightarrow> ('w pipeline \<times> 'w) option" where
  "pipeline_run L emit [] s = Some s"
| "pipeline_run L emit (fr # frs) s = do {
     (rc, pl, ctx) \<leftarrow> pipeline_on_frame L (fst s) (fst fr) (snd fr) emit (snd s);
     pipeline_run L emit frs (pl, ctx)
   }"

subsection \<open>Delivering blocks\<close>

text \<open>
  What the delivery of a block (samples, time stamp, concealment flag) does to the world
  and to the pipeline.
\<close>

definition deliver :: "'w pipeline \<Rightarrow> 'w emit_fn \<Rightarrow> pushed \<Rightarrow> 'w \<Rightarrow> 'w option" where
  "deliver pl emit x = (case pl_pcm_sink pl of
     Some sink \<Rightarrow> sink (fst x) (fst (snd x)) (snd (snd x))
   | None \<Rightarrow> emit (rtp_packet ((pl_rtp pl)\<lparr>rp_timestamp := fst (snd x)\<rparr>) (fst x) 0
                    (nch_of (pl_mode pl)) (sps_of (pl_mode pl))) (snd (snd x)))"

definition after_block :: "'w pipeline \<Rightarrow> pushed \<Rightarrow> 'w pipeline" where
  "after_block pl x =
     (let pl = (if pl_pcm_sink pl = None
                then pl\<lparr>pl_rtp := (pl_rtp pl)\<lparr>rp_timestamp := fst (snd x), rp_seq := rp_seq (pl_rtp pl) + 1\<rparr>,
                        pl_stats := (pl_stats pl)\<lparr>ps_last_seq := rp_seq (pl_rtp pl)\<rparr>\<rparr>
                else pl)
      in if snd (snd x)
         then pl\<lparr>pl_stats := (pl_stats pl)\<lparr>ps_concealed := ps_concealed (pl_stats pl) + 1\<rparr>\<rparr>
         else pl\<lparr>pl_stats := (pl_stats pl)\<lparr>ps_packets := ps_packets (pl_stats pl) + 1\<rparr>\<rparr>)"

primrec deliver_all :: "'w pipeline \<Rightarrow> 'w emit_fn \<Rightarrow> pushed list \<Rightarrow> 'w \<Rightarrow> 'w option" where
  "deliver_all pl emit [] w = Some w"
| "deliver_all pl emit (x # xs) w = deliver pl emit x w \<bind> deliver_all (after_block pl x) emit xs"

lemma emit_pcm_eq:
  assumes geo: "documented_geometry L" and m: "mode_ok (pl_mode pl)"
    and pcm: "nch_of (pl_mode pl) * sps_of (pl_mode pl) * 3 \<le> length pcm"
  shows "emit_pcm L pl pcm ts c emit w
    = do { w \<leftarrow> deliver pl emit (pcm, ts, c) w; Some (after_block pl (pcm, ts, c), w) }"
proof (cases "pl_pcm_sink pl")
  case None
  let ?N = "n_channels (pl_mode pl)" and ?S = "samples_per_pkt (pl_mode pl)"
  let ?p = "(pl_rtp pl)\<lparr>rp_timestamp := ts\<rparr>"
  let ?pkt = "rtp_packet ?p pcm 0 (nat ?N) (nat ?S)"
  have N: "0 < ?N" "0 < ?S" "?N < 2 ^ 31" using m by (auto simp: mode_ok_def)
  have cap: "12 + nat ?N * nat ?S * 3 \<le> 2892" using mode_ok_nat(5)[OF m] by simp
  have len: "length ?pkt = 12 + nat ?N * nat ?S * 3"
    by (rule length_rtp_packet[where nch = "nat ?N"]) (use pcm in auto)
  have "rtp_l24_build (replicate 2892 0) 2892 ?p pcm (pl_mode pl)
      = Some (int (length ?pkt), ?pkt @ drop (length ?pkt) (replicate 2892 0))"
    unfolding rtp_l24_build_def
    using build_flow_eq[of 0 ?N ?S ?N pcm 2892 "replicate 2892 0" ?p] N pcm cap len
    by (simp add: blit_prefix)
  moreover have "RTP_HEADER_LEN + REAC_MAX_CHANNELS L * 24 * 3 = 2892"
    using geo by (simp add: RTP_HEADER_LEN_def geometry_simps)
  moreover have "0 < length ?pkt" using len by simp
  ultimately show ?thesis
    using None by (simp add: emit_pcm_def deliver_def after_block_def Let_def Option.bind_assoc)
next
  case (Some sink)
  then show ?thesis
    by (simp add: emit_pcm_def deliver_def after_block_def Option.bind_assoc)
qed

text \<open>The parts of the pipeline that decide how a block is delivered.\<close>

definition same_output :: "'w pipeline \<Rightarrow> 'w pipeline \<Rightarrow> bool" where
  "same_output pl pl' \<longleftrightarrow> pl_mode pl' = pl_mode pl \<and> pl_pcm_sink pl' = pl_pcm_sink pl \<and>
     rp_seq (pl_rtp pl') = rp_seq (pl_rtp pl) \<and> rp_ssrc (pl_rtp pl') = rp_ssrc (pl_rtp pl) \<and>
     rp_payload_type (pl_rtp pl') = rp_payload_type (pl_rtp pl)"

lemma rtp_stamp_cong:
  "rp_seq a = rp_seq b \<Longrightarrow> rp_ssrc a = rp_ssrc b \<Longrightarrow> rp_payload_type a = rp_payload_type b \<Longrightarrow>
     a\<lparr>rp_timestamp := t\<rparr> = (b\<lparr>rp_timestamp := t\<rparr> :: rtp_params)"
  by (cases a; cases b) simp

lemma deliver_all_cong: "same_output pl pl' \<Longrightarrow> deliver_all pl' emit xs w = deliver_all pl emit xs w"
proof (induction xs arbitrary: pl pl' w)
  case Nil
  then show ?case by simp
next
  case (Cons x xs)
  then have eq: "(pl_rtp pl')\<lparr>rp_timestamp := t\<rparr> = (pl_rtp pl)\<lparr>rp_timestamp := t\<rparr>" for t
    by (intro rtp_stamp_cong) (simp_all add: same_output_def)
  have "pl_mode pl' = pl_mode pl" "pl_pcm_sink pl' = pl_pcm_sink pl"
    using Cons.prems by (simp_all add: same_output_def)
  then have "deliver pl' emit x = deliver pl emit x" by (simp only: deliver_def eq)
  moreover have "same_output (after_block pl x) (after_block pl' x)"
    using Cons.prems by (simp add: same_output_def after_block_def Let_def)
  then have "deliver_all (after_block pl' x) emit xs = deliver_all (after_block pl x) emit xs"
    using Cons.IH by (intro ext) blast
  ultimately show ?case by simp
qed

lemma deliver_all_append:
  "deliver_all pl emit (xs @ ys) w
     = deliver_all pl emit xs w \<bind> deliver_all (foldl after_block pl xs) emit ys"
  by (induction xs arbitrary: pl w) (auto split: Option.bind_split)

lemma foldl_after_block:
  "pl_mode (foldl after_block pl xs) = pl_mode pl"
  "pl_pcm_sink (foldl after_block pl xs) = pl_pcm_sink pl"
  "pl_clock (foldl after_block pl xs) = pl_clock pl"
  "pl_plc (foldl after_block pl xs) = pl_plc pl"
  "rp_ssrc (pl_rtp (foldl after_block pl xs)) = rp_ssrc (pl_rtp pl)"
  "rp_payload_type (pl_rtp (foldl after_block pl xs)) = rp_payload_type (pl_rtp pl)"
  "rp_seq (pl_rtp (foldl after_block pl xs))
     = rp_seq (pl_rtp pl) + (if pl_pcm_sink pl = None then of_nat (length xs) else 0)"
  "ps_packets (pl_stats (foldl after_block pl xs))
     = ps_packets (pl_stats pl) + of_nat (length (filter (\<lambda>x. \<not> snd (snd x)) xs))"
  "ps_concealed (pl_stats (foldl after_block pl xs))
     = ps_concealed (pl_stats pl) + of_nat (length (filter (\<lambda>x. snd (snd x)) xs))"
  "ps_loss_total (pl_stats (foldl after_block pl xs)) = ps_loss_total (pl_stats pl)"
  "ps_malformed (pl_stats (foldl after_block pl xs)) = ps_malformed (pl_stats pl)"
  "ps_last_tier (pl_stats (foldl after_block pl xs)) = ps_last_tier (pl_stats pl)"
  by (induction xs rule: rev_induct) (simp_all add: after_block_def Let_def)

subsection \<open>One frame\<close>

text \<open>
  The invariant: the parts agree on the geometry, the burst gain is defined at every loss
  index, and once a packet was received every channel has a full packet of history.
\<close>

definition parts_ok :: "'w pipeline \<Rightarrow> bool" where
  "parts_ok pl \<longleftrightarrow> mode_ok (pl_mode pl) \<and> plc_ok (pl_plc pl) \<and>
     plc_S (pl_plc pl) = samples_per_pkt (pl_mode pl) \<and>
     plc_n_channels (pl_plc pl) = n_channels (pl_mode pl) \<and>
     plc_fade_packets (pl_plc pl) \<le> 65536 \<and>
     mc_samples_per_pkt (pl_clock pl) = samples_per_pkt (pl_mode pl)"

definition pipeline_ok :: "'w pipeline \<Rightarrow> bool" where
  "pipeline_ok pl \<longleftrightarrow> parts_ok pl \<and> (mc_started (pl_clock pl) \<longrightarrow>
     (\<forall>ch < nch_of (pl_mode pl). sps_of (pl_mode pl) \<le> length (chist (pl_plc pl) ch)))"

definition gain :: "plc \<Rightarrow> int \<Rightarrow> int" where
  "gain st k = the (burst_gain_q15 st k)"

lemma gain_defined: "plc_ok st \<Longrightarrow> plc_fade_packets st \<le> 65536 \<Longrightarrow> burst_gain_q15 st k = Some (gain st k)"
  using burst_gain_value[of st k] by (simp add: gain_def plc_ok_def)

definition conceal_block :: "plc \<Rightarrow> u32 \<Rightarrow> int \<Rightarrow> nat \<Rightarrow> pushed" where
  "conceal_block st ts k i =
     (blit (replicate 2880 0) 0 (concealed_pcm st (gain st (int i)) (int i)),
      ts - word_of_int (k - int i) * word_of_int (plc_S st), True)"

definition real_block :: "reac_mode \<Rightarrow> u32 \<Rightarrow> byte list \<Rightarrow> pushed" where
  "real_block m ts raw = (blit (replicate 2880 0) 0 (decoded_pcm m raw), ts, False)"

definition frame_blocks :: "'w pipeline \<Rightarrow> byte list \<Rightarrow> pushed list" where
  "frame_blocks pl raw = (let step = snd (media_clock_on_packet (pl_clock pl) (frame_counter raw)) in
     map (conceal_block (pl_plc pl) (step_rtp_ts step) (step_silence_packets step))
       [0..<nat (step_silence_packets step)] @
     [real_block (pl_mode pl) (step_rtp_ts step) raw])"

definition set_tier :: "'w pipeline \<Rightarrow> int \<Rightarrow> 'w pipeline" where
  "set_tier pl t = pl\<lparr>pl_stats := (pl_stats pl)\<lparr>ps_last_tier := t\<rparr>\<rparr>"

lemma set_tier_simps [simp]:
  "deliver (set_tier pl t) = deliver pl" "after_block (set_tier pl t) x = set_tier (after_block pl x) t"
  "set_tier (set_tier pl a) b = set_tier pl b" "set_tier pl (ps_last_tier (pl_stats pl)) = pl"
  "pl_plc (set_tier pl t) = pl_plc pl" "pl_mode (set_tier pl t) = pl_mode pl"
  by (auto simp: set_tier_def deliver_def after_block_def Let_def fun_eq_iff split: option.splits)

lemma conceal_loop:
  fixes ts :: u32 and k :: int
  assumes geo: "documented_geometry L" and ok: "parts_ok pl" and sps: "sps = plc_S (pl_plc pl)"
  defines "cb \<equiv> conceal_block (pl_plc pl) ts k"
  shows "forn n (\<lambda>i (pl, ctx). do {
           let cts = ts - word_of_int (k - int i) * word_of_int sps;
           (cpcm, tier) \<leftarrow> plc_conceal (pl_plc pl) (replicate 2880 0) (int i);
           let pl = pl\<lparr>pl_stats := (pl_stats pl)\<lparr>ps_last_tier := tier\<rparr>\<rparr>;
           emit_pcm L pl cpcm cts True emit ctx
         }) (pl, ctx)
    = do { ctx \<leftarrow> deliver_all pl emit (map cb [0..<n]) ctx;
           Some (set_tier (foldl after_block pl (map cb [0..<n]))
             (if n = 0 then ps_last_tier (pl_stats pl) else worst_tier (pl_plc pl) (int n - 1)), ctx) }"
proof (induction n)
  case 0
  show ?case by simp
next
  case (Suc n)
  let ?pl = "foldl after_block pl (map cb [0..<n])"
  let ?g = "gain (pl_plc pl) (int n)"
  have st: "plc_ok (pl_plc pl)" "N_of (pl_plc pl) = nch_of (pl_mode pl)" "S_of (pl_plc pl) = sps_of (pl_mode pl)"
      "mode_ok (pl_mode pl)"
    using ok by (auto simp: parts_ok_def)
  have size: "nch_of (pl_mode pl) * sps_of (pl_mode pl) * 3 \<le> 2880" using mode_ok_nat(5)[OF st(4)] by simp
  have g: "burst_gain_q15 (pl_plc pl) (int n) = Some ?g"
    using ok by (intro gain_defined) (auto simp: parts_ok_def)
  have con: "plc_conceal (pl_plc pl) (replicate 2880 0) (int n)
      = Some (fst (cb n), worst_tier (pl_plc pl) (int n))"
    using plc_conceal_eq[OF st(1) g, of "replicate 2880 0"] size st
    by (simp add: cb_def conceal_block_def)
  have len: "length (fst (cb n)) = 2880" using size st by (simp add: cb_def conceal_block_def)
  have emit: "emit_pcm L (set_tier ?pl t) (fst (cb n)) u True emit c
      = do { w \<leftarrow> deliver ?pl emit (fst (cb n), u, True) c;
             Some (set_tier (after_block ?pl (fst (cb n), u, True)) t, w) }" for t u c
    using emit_pcm_eq[OF geo, of "set_tier ?pl t" "fst (cb n)"] size st len by (simp add: foldl_after_block)
  have cbn: "(fst (cb n), ts - word_of_int (k - int n) * word_of_int (plc_S (pl_plc pl)), True) = cb n"
    by (simp add: cb_def conceal_block_def)
  show ?case
    unfolding forn.simps Suc
    by (simp add: Option.bind_assoc deliver_all_append foldl_after_block con set_tier_def[symmetric]
        emit cbn sps del: of_int_diff)
qed

lemma worst_tier_seen:
  assumes "\<forall>ch < N_of st. S_of st \<le> length (chist st ch)" and "0 < S_of st"
  shows "worst_tier st k \<in> {PLC_TIER_REPEAT_XFADE, PLC_TIER_BURST_FADE}"
proof -
  have "conceal_tier (S_of st) k (chist st ch) \<in> {0, 1}" if "ch < N_of st" for ch
  proof -
    have "0 < length (chist st ch)" using assms that by (meson order_less_le_trans)
    then have "chist st ch \<noteq> []" unfolding length_greater_0_conv .
    then show ?thesis using assms(1) that by (auto simp: conceal_tier_def plc_tiers)
  qed
  then have "foldl max t (map (\<lambda>ch. conceal_tier (S_of st) k (chist st ch)) [0..<n]) \<in> {0, 1}"
    if "t \<in> {0, 1}" "n \<le> N_of st" for t n
    using that
  proof (induction n)
    case (Suc n)
    then show ?case by (auto simp: max_def)
  qed simp
  from this[of 0 "N_of st"] show ?thesis by (simp add: worst_tier_def plc_tiers)
qed

lemma frame_block_length:
  assumes "pipeline_ok pl" and "1492 \<le> length raw" and "x \<in> set (frame_blocks pl raw)"
  shows "length (fst x) = 2880"
proof -
  have "nch_of (pl_mode pl) * sps_of (pl_mode pl) * 3 \<le> 1440"
    using assms(1) mode_ok_nat(5) by (auto simp: pipeline_ok_def parts_ok_def)
  then show ?thesis
    using assms by (auto simp: frame_blocks_def conceal_block_def real_block_def Let_def pipeline_ok_def parts_ok_def)
qed

lemma on_frame_malformed:
  assumes "documented_geometry L" and "len \<le> length raw" and "\<not> well_formed raw len"
  shows "pipeline_on_frame L pl raw len emit w
    = Some (-1, pl\<lparr>pl_stats := (pl_stats pl)\<lparr>ps_malformed := ps_malformed (pl_stats pl) + 1\<rparr>\<rparr>, w)"
  using assms by (simp add: pipeline_on_frame_def decode_invalid)

lemma on_frame_valid:
  assumes geo: "documented_geometry L" and ok: "pipeline_ok pl" and len: "len \<le> length raw"
    and wf: "well_formed raw len"
  defines "xs \<equiv> frame_blocks pl raw"
    and "step \<equiv> snd (media_clock_on_packet (pl_clock pl) (frame_counter raw))"
  shows "\<exists>pl'. (\<forall>emit w. pipeline_on_frame L pl raw len emit w
        = do { w \<leftarrow> deliver_all pl emit xs w; Some (0, pl', w) }) \<and>
    pipeline_ok pl' \<and> same_output (foldl after_block pl xs) pl' \<and>
    pl_clock pl' = fst (media_clock_on_packet (pl_clock pl) (frame_counter raw)) \<and>
    ps_packets (pl_stats pl') = ps_packets (pl_stats pl) + 1 \<and>
    ps_concealed (pl_stats pl') = ps_concealed (pl_stats pl) + word_of_int (step_silence_packets step) \<and>
    ps_loss_total (pl_stats pl') = ps_loss_total (pl_stats pl) + word_of_int (step_silence_packets step) \<and>
    ps_malformed (pl_stats pl') = ps_malformed (pl_stats pl) \<and>
    (ps_last_tier (pl_stats pl') = ps_last_tier (pl_stats pl) \<or>
     ps_last_tier (pl_stats pl') \<in> {PLC_TIER_REPEAT_XFADE, PLC_TIER_BURST_FADE})"
proof -
  let ?m = "pl_mode pl" and ?st = "pl_plc pl"
  obtain mc where step: "media_clock_on_packet (pl_clock pl) (frame_counter raw) = (mc, step)"
    by (cases "media_clock_on_packet (pl_clock pl) (frame_counter raw)") (simp add: step_def)
  define k where "k = step_silence_packets step"
  have k: "0 \<le> k" using on_packet_silence_range(1)[OF step] by (simp add: k_def)
  define pl0 where "pl0 = pl\<lparr>pl_clock := mc,
      pl_stats := (pl_stats pl)\<lparr>ps_loss_total := ps_loss_total (pl_stats pl) + word_of_int k\<rparr>\<rparr>"
  let ?cb = "conceal_block ?st (step_rtp_ts step) k"
  let ?cs = "map ?cb [0..<nat k]" and ?x = "real_block ?m (step_rtp_ts step) raw"
  have xs: "xs = ?cs @ [?x]" by (simp add: xs_def frame_blocks_def step k_def)
  have m: "mode_ok ?m" "plc_ok ?st" "plc_S ?st = samples_per_pkt ?m" "plc_n_channels ?st = n_channels ?m"
    using ok by (auto simp: pipeline_ok_def parts_ok_def)
  have size: "nch_of ?m * sps_of ?m * 3 \<le> 2880" using mode_ok_nat(5)[OF m(1)] by simp
  have raw: "1492 \<le> length raw" using wf len by (simp add: well_formed_def)
  have dec: "reac_decode L raw len ?m (replicate 2880 0) = Some (samples_per_pkt ?m, fst ?x)"
    using decode_valid[OF geo m(1) len wf, of "replicate 2880 0"] size by (simp add: real_block_def)
  have lx: "length (fst ?x) = 2880" using size raw m(1) by (simp add: real_block_def)
  have pl0: "pl_mode pl0 = ?m" "pl_plc pl0 = ?st" "pl_pcm_sink pl0 = pl_pcm_sink pl" "pl_rtp pl0 = pl_rtp pl"
      "pl_clock pl0 = mc"
    by (simp_all add: pl0_def)
  define t where "t = (if nat k = 0 then ps_last_tier (pl_stats pl) else worst_tier ?st (k - 1))"
  define pl1 where "pl1 = set_tier (foldl after_block pl0 ?cs) t"
  have gain: "plc_fade_packets ?st \<le> 65536" using ok by (simp add: pipeline_ok_def parts_ok_def)
  have spp: "mc_samples_per_pkt mc = samples_per_pkt ?m"
    using ok step on_packet_advance(4)[of "pl_clock pl" "frame_counter raw" mc step]
      on_packet_first[of "pl_clock pl" "frame_counter raw"]
    by (cases "mc_started (pl_clock pl)") (auto simp: pipeline_ok_def parts_ok_def)
  have started: "mc_started mc"
    using step on_packet_advance(3)[of "pl_clock pl" "frame_counter raw" mc step]
      on_packet_first[of "pl_clock pl" "frame_counter raw"]
    by (cases "mc_started (pl_clock pl)") auto
  have parts: "parts_ok pl0"
    using ok spp by (simp add: pipeline_ok_def parts_ok_def pl0)
  have tier: "t = (if nat k = 0 then ps_last_tier (pl_stats pl0) else worst_tier (pl_plc pl0) (int (nat k) - 1))"
    using k by (simp add: t_def pl0) (simp add: pl0_def)
  have loop: "forn (nat k) (\<lambda>i (pl, ctx). do {
           let cts = step_rtp_ts step - word_of_int (k - int i) * word_of_int (samples_per_pkt ?m);
           (cpcm, tier) \<leftarrow> plc_conceal (pl_plc pl) (replicate 2880 0) (int i);
           let pl = pl\<lparr>pl_stats := (pl_stats pl)\<lparr>ps_last_tier := tier\<rparr>\<rparr>;
           emit_pcm L pl cpcm cts True emit ctx
         }) (pl0, w) = do { w \<leftarrow> deliver_all pl0 emit ?cs w; Some (pl1, w) }" for emit w
    unfolding pl1_def tier pl0(2)[symmetric]
    by (rule conceal_loop[OF geo parts]) (simp add: pl0 m(3))
  have pl1: "pl_mode pl1 = ?m" "pl_plc pl1 = ?st" "pl_clock pl1 = mc" "pl_pcm_sink pl1 = pl_pcm_sink pl"
    by (simp_all add: pl1_def set_tier_def foldl_after_block pl0)
  have real: "emit_pcm L pl1 (fst ?x) (step_rtp_ts step) False emit w
      = do { w \<leftarrow> deliver (foldl after_block pl0 ?cs) emit ?x w; Some (after_block pl1 ?x, w) }" for emit w
    using emit_pcm_eq[OF geo, of pl1 "fst ?x" "step_rtp_ts step" False emit w] m(1) size lx
    by (simp add: pl1 real_block_def) (simp add: pl1_def)
  have fit: "N_of ?st * S_of ?st * 3 \<le> length (fst ?x)" using lx size m by simp
  obtain st' where ob: "plc_observe ?st (fst ?x) = Some st'" using plc_observe_eq[OF m(2) fit] by blast
  note fr = plc_observe_frame[OF m(2) fit ob]
  define pl' where "pl' = (after_block pl1 ?x)\<lparr>pl_plc := st'\<rparr>"
  have same0: "same_output pl0 pl" by (simp add: same_output_def pl0)
  have run: "pipeline_on_frame L pl raw len emit w = do { w \<leftarrow> deliver_all pl emit xs w; Some (0, pl', w) }"
    for emit w
  proof -
    have "REAC_MAX_CHANNELS L * 24 * 3 = 2880" using geo by (simp add: geometry_simps)
    moreover have "\<not> samples_per_pkt ?m < 0" using m(1) by (simp add: mode_ok_def)
    moreover have "deliver_all pl emit xs w = deliver_all pl0 emit ?cs w \<bind> (\<lambda>w. deliver (foldl after_block pl0 ?cs) emit ?x w)"
      using deliver_all_cong[OF same0, of emit xs w] deliver_all_append[of pl0 emit ?cs "[?x]" w]
      unfolding xs by (auto split: Option.bind_split)
    ultimately show ?thesis
      unfolding pipeline_on_frame_def
      using dec inspect_eq[OF geo len, of ?m] wf step loop real ob
      by (simp add: Let_def Option.bind_assoc pl0_def[symmetric] k_def[symmetric] pl1 pl'_def
          foldl_after_block(4)[of _ "[_]", simplified])
  qed
  have fold: "foldl after_block pl0 xs = after_block (foldl after_block pl0 ?cs) ?x" by (simp add: xs)
  have stats: "pl_stats pl' = (pl_stats (foldl after_block pl0 xs))\<lparr>ps_last_tier := t\<rparr>"
    by (simp add: pl'_def pl1_def fold) (simp add: set_tier_def)
  have "pl_rtp pl' = pl_rtp (foldl after_block pl0 xs)"
    by (simp add: pl'_def pl1_def fold) (simp add: set_tier_def)
  then have same: "same_output (foldl after_block pl xs) pl'"
    by (simp add: same_output_def foldl_after_block pl0 pl'_def) (simp add: after_block_def pl1 Let_def)
  have cl: "pl_clock pl' = mc" "pl_mode pl' = ?m" by (simp_all add: pl'_def after_block_def pl1 Let_def)
  have "sps_of ?m \<le> length (chist st' ch)" if "ch < nch_of ?m" for ch
    using observed_history(3)[OF m(2) fit ob, of ch] that by (simp only: m(3,4))
  then have ok': "pipeline_ok pl'"
    using m fr gain spp cl unfolding pipeline_ok_def parts_ok_def by (simp add: pl'_def)
  have counts: "filter (\<lambda>x. \<not> snd (snd x)) xs = [?x]" "filter (\<lambda>x. snd (snd x)) xs = ?cs"
    unfolding xs by (auto simp: conceal_block_def real_block_def filter_empty_conv filter_id_conv)
  have tiers: "t = ps_last_tier (pl_stats pl) \<or> t \<in> {PLC_TIER_REPEAT_XFADE, PLC_TIER_BURST_FADE}"
  proof (cases "nat k = 0")
    case False
    then have "mc_started (pl_clock pl)"
      using on_packet_first[of "pl_clock pl" "frame_counter raw"] step
      by (cases "mc_started (pl_clock pl)") (auto simp: k_def)
    then have "\<forall>ch < N_of ?st. S_of ?st \<le> length (chist ?st ch)" "0 < S_of ?st"
      using ok m unfolding pipeline_ok_def by (simp_all add: m(3,4) mode_ok_def)
    from worst_tier_seen[OF this, of "k - 1"] show ?thesis using False by (simp add: t_def)
  qed (simp add: t_def)
  have "of_nat (nat k) = (word_of_int k :: u64)" using k by (metis of_int_of_nat_eq nat_0_le)
  then have "ps_packets (pl_stats pl') = ps_packets (pl_stats pl) + 1"
      "ps_concealed (pl_stats pl') = ps_concealed (pl_stats pl) + word_of_int k"
      "ps_loss_total (pl_stats pl') = ps_loss_total (pl_stats pl) + word_of_int k"
      "ps_malformed (pl_stats pl') = ps_malformed (pl_stats pl)" "ps_last_tier (pl_stats pl') = t"
    unfolding stats by (simp_all add: foldl_after_block counts) (simp_all add: pl0_def)
  with run ok' same cl tiers step show ?thesis unfolding k_def by auto
qed

subsection \<open>A run of frames\<close>

text \<open>\<open>at_slot A n pl\<close>: the clock has handed out the \<open>n\<close> time slots that follow the anchor \<open>A\<close>.\<close>

definition at_slot :: "u32 \<Rightarrow> nat \<Rightarrow> 'w pipeline \<Rightarrow> bool" where
  "at_slot A n pl \<longleftrightarrow>
     (if mc_started (pl_clock pl)
      then 0 < n \<and> mc_rtp_ts (pl_clock pl)
             = A + of_nat (n - 1) * word_of_int (samples_per_pkt (pl_mode pl))
      else n = 0 \<and> mc_anchor (pl_clock pl) = A)"

definition in_slots :: "u32 \<Rightarrow> int \<Rightarrow> nat \<Rightarrow> pushed list \<Rightarrow> bool" where
  "in_slots A spp n xs \<longleftrightarrow> (\<forall>j < length xs. fst (snd (xs ! j)) = A + of_nat (n + j) * word_of_int spp)"

lemma in_slots_append:
  "in_slots A spp n xs \<Longrightarrow> in_slots A spp (n + length xs) ys \<Longrightarrow> in_slots A spp n (xs @ ys)"
  by (auto simp: in_slots_def nth_append)

lemma frame_blocks_slots:
  assumes ok: "pipeline_ok pl" and slot: "at_slot A n pl"
    and step: "media_clock_on_packet (pl_clock pl) (frame_counter raw) = (mc, step)"
    and pl': "pl_clock pl' = mc" "pl_mode pl' = pl_mode pl"
  defines "xs \<equiv> frame_blocks pl raw"
  shows "in_slots A (samples_per_pkt (pl_mode pl)) n xs" and "at_slot A (n + length xs) pl'"
    and "length xs = nat (step_silence_packets step) + 1"
proof -
  let ?s = "samples_per_pkt (pl_mode pl)" and ?k = "step_silence_packets step"
  have spp: "mc_samples_per_pkt (pl_clock pl) = ?s" "plc_S (pl_plc pl) = ?s"
    using ok by (auto simp: pipeline_ok_def parts_ok_def)
  have k: "0 \<le> ?k" using on_packet_silence_range(1)[OF step] .
  show len: "length xs = nat ?k + 1" by (simp add: xs_def frame_blocks_def step)
  have ts: "fst (snd (xs ! j)) = step_rtp_ts step - word_of_int (?k - int j) * word_of_int ?s"
    if "j < length xs" for j
  proof (cases "j < nat ?k")
    case True
    then show ?thesis by (simp add: xs_def frame_blocks_def step conceal_block_def nth_append spp)
  next
    case False
    then have "j = nat ?k" using that len by simp
    with k show ?thesis by (simp add: xs_def frame_blocks_def step real_block_def nth_append)
  qed
  show "in_slots A ?s n xs"
  proof (cases "mc_started (pl_clock pl)")
    case True
    have n: "0 < n" "mc_rtp_ts (pl_clock pl) = A + of_nat (n - 1) * word_of_int ?s"
      using slot True by (simp_all add: at_slot_def)
    have nn: "(of_nat n :: u32) = of_nat (n - 1) + 1" using n(1) by (cases n) simp_all
    have "step_rtp_ts step = A + of_nat (n - 1) * word_of_int ?s + word_of_int ((?k + 1) * ?s)"
      using on_packet_advance(1)[OF True step] n(2) spp by simp
    then have "fst (snd (xs ! j)) = A + of_nat (n + j) * word_of_int ?s" if "j < length xs" for j
      using ts[OF that] by (simp add: nn algebra_simps)
    then show ?thesis by (simp add: in_slots_def)
  next
    case False
    then have "?k = 0" "step_rtp_ts step = A" "n = 0"
      using slot step on_packet_first[OF False, of "frame_counter raw"] by (auto simp: at_slot_def)
    then show ?thesis using ts len by (simp add: in_slots_def)
  qed
  show "at_slot A (n + length xs) pl'"
  proof (cases "mc_started (pl_clock pl)")
    case True
    have n: "0 < n" "mc_rtp_ts (pl_clock pl) = A + of_nat (n - 1) * word_of_int ?s"
      using slot True by (simp_all add: at_slot_def)
    have "(of_nat (n + nat ?k) :: u32) = of_nat (n - 1) + 1 + word_of_int ?k"
      using n(1) k by (cases n) (simp_all add: of_nat_nat)
    then show ?thesis
      using on_packet_advance(1-3)[OF True step] n(2) spp len
      by (simp add: at_slot_def pl' algebra_simps)
  next
    case False
    then have "mc_started mc" "mc_rtp_ts mc = A" "n = 0" "?k = 0"
      using slot step on_packet_first[OF False, of "frame_counter raw"] by (auto simp: at_slot_def)
    then show ?thesis using len pl' by (simp add: at_slot_def)
  qed
qed

abbreviation is_frame :: "byte list \<times> nat \<Rightarrow> bool" where
  "is_frame fr \<equiv> well_formed (fst fr) (snd fr)"

text \<open>The planar buffer a received frame is decoded into.\<close>

definition frame_pcm :: "reac_mode \<Rightarrow> byte list \<times> nat \<Rightarrow> byte list" where
  "frame_pcm m fr = blit (replicate 2880 0) 0 (decoded_pcm m (fst fr))"

text \<open>What a run from \<open>pl\<close> to \<open>pl'\<close> over the frames \<open>frs\<close> with the blocks \<open>xs\<close> satisfies.\<close>

abbreviation frame_clock :: "media_clock \<Rightarrow> (byte list \<times> nat) list \<Rightarrow> media_clock \<times> media_clock_step list" where
  "frame_clock mc frs \<equiv> clock_run mc (map (\<lambda>fr. frame_counter (fst fr)) (filter is_frame frs))"

definition run_summary ::
  "u32 \<Rightarrow> nat \<Rightarrow> 'w pipeline \<Rightarrow> (byte list \<times> nat) list \<Rightarrow> pushed list \<Rightarrow> 'w pipeline \<Rightarrow> bool" where
  "run_summary A n pl frs xs pl' \<longleftrightarrow>
     pipeline_ok pl' \<and> at_slot A (n + length xs) pl' \<and> same_output (foldl after_block pl xs) pl' \<and>
     in_slots A (samples_per_pkt (pl_mode pl)) n xs \<and> (\<forall>x \<in> set xs. length (fst x) = 2880) \<and>
     map fst (filter (\<lambda>x. \<not> snd (snd x)) xs) = map (frame_pcm (pl_mode pl)) (filter is_frame frs) \<and>
     length xs \<le> 32768 * length (filter is_frame frs) \<and>
     pl_clock pl' = fst (frame_clock (pl_clock pl) frs) \<and>
     map (\<lambda>x. snd (snd x)) xs = conceal_flags (snd (frame_clock (pl_clock pl) frs)) \<and>
     ps_packets (pl_stats pl') = ps_packets (pl_stats pl) + of_nat (length (filter is_frame frs)) \<and>
     ps_malformed (pl_stats pl') = ps_malformed (pl_stats pl) + of_nat (length (filter (\<lambda>fr. \<not> is_frame fr) frs)) \<and>
     ps_concealed (pl_stats pl') = ps_concealed (pl_stats pl) + of_nat (length (filter (\<lambda>x. snd (snd x)) xs)) \<and>
     ps_loss_total (pl_stats pl') = ps_loss_total (pl_stats pl) + of_nat (length (filter (\<lambda>x. snd (snd x)) xs)) \<and>
     (ps_last_tier (pl_stats pl') = ps_last_tier (pl_stats pl) \<or>
      ps_last_tier (pl_stats pl') \<in> {PLC_TIER_REPEAT_XFADE, PLC_TIER_BURST_FADE})"

lemma frame_blocks_flags:
  assumes "media_clock_on_packet (pl_clock pl) (frame_counter raw) = (mc, step)"
  shows "filter (\<lambda>x. \<not> snd (snd x)) (frame_blocks pl raw) = [real_block (pl_mode pl) (step_rtp_ts step) raw]"
    and "length (filter (\<lambda>x. snd (snd x)) (frame_blocks pl raw)) = nat (step_silence_packets step)"
    and "map (\<lambda>x. snd (snd x)) (frame_blocks pl raw) = replicate (nat (step_silence_packets step)) True @ [False]"
proof -
  let ?cs = "map (conceal_block (pl_plc pl) (step_rtp_ts step) (step_silence_packets step))
       [0..<nat (step_silence_packets step)]"
  have xs: "frame_blocks pl raw = ?cs @ [real_block (pl_mode pl) (step_rtp_ts step) raw]"
    using assms by (simp add: frame_blocks_def)
  have "filter (\<lambda>x. \<not> snd (snd x)) ?cs = []" "filter (\<lambda>x. snd (snd x)) ?cs = ?cs"
    by (auto simp: conceal_block_def filter_empty_conv filter_id_conv)
  then show "filter (\<lambda>x. \<not> snd (snd x)) (frame_blocks pl raw) = [real_block (pl_mode pl) (step_rtp_ts step) raw]"
    "length (filter (\<lambda>x. snd (snd x)) (frame_blocks pl raw)) = nat (step_silence_packets step)"
    unfolding xs filter_append length_append by (simp_all add: real_block_def del: filter_map)
  show "map (\<lambda>x. snd (snd x)) (frame_blocks pl raw) = replicate (nat (step_silence_packets step)) True @ [False]"
    unfolding xs by (simp add: real_block_def conceal_block_def o_def map_replicate_const)
qed

lemma on_frame_summary:
  assumes "documented_geometry L" and "pipeline_ok pl" and "at_slot A n pl" and "len \<le> length raw"
  shows "\<exists>rc xs pl'. (\<forall>emit w. pipeline_on_frame L pl raw len emit w
      = do { w \<leftarrow> deliver_all pl emit xs w; Some (rc, pl', w) }) \<and>
    run_summary A n pl [(raw, len)] xs pl' \<and> (rc = 0) = well_formed raw len"
proof (cases "well_formed raw len")
  case True
  obtain mc step where step: "media_clock_on_packet (pl_clock pl) (frame_counter raw) = (mc, step)"
    by fastforce
  have k: "0 \<le> step_silence_packets step" using on_packet_silence_range(1)[OF step] .
  have raw: "1492 \<le> length raw" using True assms(4) by (simp add: well_formed_def)
  let ?xs = "frame_blocks pl raw"
  obtain pl' where run: "\<forall>emit w. pipeline_on_frame L pl raw len emit w
        = do { w \<leftarrow> deliver_all pl emit ?xs w; Some (0, pl', w) }"
    and pl': "pipeline_ok pl'" "same_output (foldl after_block pl ?xs) pl'" "pl_clock pl' = mc"
      "ps_packets (pl_stats pl') = ps_packets (pl_stats pl) + 1"
      "ps_concealed (pl_stats pl') = ps_concealed (pl_stats pl) + word_of_int (step_silence_packets step)"
      "ps_loss_total (pl_stats pl') = ps_loss_total (pl_stats pl) + word_of_int (step_silence_packets step)"
      "ps_malformed (pl_stats pl') = ps_malformed (pl_stats pl)"
      "ps_last_tier (pl_stats pl') = ps_last_tier (pl_stats pl) \<or>
       ps_last_tier (pl_stats pl') \<in> {PLC_TIER_REPEAT_XFADE, PLC_TIER_BURST_FADE}"
    using on_frame_valid[OF assms(1,2,4) True] step by auto
  have mode: "pl_mode pl' = pl_mode pl" using pl'(2) by (simp add: same_output_def foldl_after_block)
  note slots = frame_blocks_slots[OF assms(2,3) step pl'(3) mode]
  have cnt: "of_nat (nat (step_silence_packets step)) = (word_of_int (step_silence_packets step) :: u64)"
    using k by (metis of_int_of_nat_eq nat_0_le)
  have few: "length ?xs \<le> 32768" using on_packet_silence_range[OF step] by (simp add: frame_blocks_def step)
  have "run_summary A n pl [(raw, len)] ?xs pl'"
    unfolding run_summary_def using True pl' slots(1,2) frame_block_length[OF assms(2) raw] few
    by (simp add: frame_blocks_flags[OF step] cnt frame_pcm_def real_block_def step)
  then show ?thesis using run True by blast
next
  case False
  let ?pl = "pl\<lparr>pl_stats := (pl_stats pl)\<lparr>ps_malformed := ps_malformed (pl_stats pl) + 1\<rparr>\<rparr>"
  have "run_summary A n pl [(raw, len)] [] ?pl"
    using assms(2,3) False
    by (simp add: run_summary_def pipeline_ok_def parts_ok_def at_slot_def same_output_def in_slots_def)
  then show ?thesis using on_frame_malformed[OF assms(1,4) False, of pl] False
    by (intro exI[of _ "-1"] exI[of _ "[]"] exI[of _ ?pl]) simp
qed

lemma run_summary_trans:
  assumes a: "run_summary A n pl frs xs pl1" and b: "run_summary A (n + length xs) pl1 frs' ys pl2"
  shows "run_summary A n pl (frs @ frs') (xs @ ys) pl2"
    and "deliver_all pl emit (xs @ ys) w = deliver_all pl emit xs w \<bind> deliver_all pl1 emit ys"
proof -
  have same: "same_output (foldl after_block pl xs) pl1" using a by (simp add: run_summary_def)
  have mode: "pl_mode pl1 = pl_mode pl" using same by (simp add: same_output_def foldl_after_block)
  have "deliver_all pl1 emit ys = deliver_all (foldl after_block pl xs) emit ys"
    using deliver_all_cong[OF same] by (intro ext)
  then show "deliver_all pl emit (xs @ ys) w = deliver_all pl emit xs w \<bind> deliver_all pl1 emit ys"
    by (simp add: deliver_all_append)
  have "same_output (foldl after_block pl (xs @ ys)) pl2"
    using same b by (simp add: run_summary_def same_output_def foldl_after_block)
  then show "run_summary A n pl (frs @ frs') (xs @ ys) pl2"
    using a b in_slots_append[of A "samples_per_pkt (pl_mode pl)" n xs ys]
    by (auto simp: run_summary_def mode add.assoc clock_run_append)
qed

lemma pipeline_run_summary:
  assumes "documented_geometry L" and "pipeline_ok pl" and "at_slot A n pl"
    and "\<forall>fr \<in> set frs. snd fr \<le> length (fst fr)"
  shows "\<exists>xs pl'. (\<forall>emit w. pipeline_run L emit frs (pl, w)
      = do { w \<leftarrow> deliver_all pl emit xs w; Some (pl', w) }) \<and> run_summary A n pl frs xs pl'"
  using assms(2-)
proof (induction frs arbitrary: pl n)
  case Nil
  have "run_summary A n pl [] [] pl" using Nil by (simp add: run_summary_def same_output_def in_slots_def)
  then show ?case by (intro exI[of _ "[]"] exI[of _ pl]) simp
next
  case (Cons fr frs)
  obtain raw len where fr: "fr = (raw, len)" by fastforce
  obtain rc xs pl1 where one: "\<forall>emit w. pipeline_on_frame L pl raw len emit w
      = do { w \<leftarrow> deliver_all pl emit xs w; Some (rc, pl1, w) }" "run_summary A n pl [(raw, len)] xs pl1"
    using on_frame_summary[OF assms(1) Cons.prems(1,2), of len raw] Cons.prems(3) fr by auto
  then obtain ys pl2 where rest: "\<forall>emit w. pipeline_run L emit frs (pl1, w)
      = do { w \<leftarrow> deliver_all pl1 emit ys w; Some (pl2, w) }" "run_summary A (n + length xs) pl1 frs ys pl2"
    using Cons.IH[of pl1 "n + length xs"] Cons.prems(3) by (auto simp: run_summary_def)
  note tr = run_summary_trans[OF one(2) rest(2)]
  have "pipeline_run L emit (fr # frs) (pl, w)
      = do { w \<leftarrow> deliver_all pl emit (xs @ ys) w; Some (pl2, w) }" for emit w
    using one(1) rest(1) by (simp add: fr tr(2) Option.bind_assoc)
  with tr(1) show ?case by (auto simp: fr)
qed

subsection \<open>The AES67 stream\<close>

text \<open>The callback that records the packets it is given.\<close>

definition record_rtp :: "(byte list \<times> bool) list emit_fn" where
  "record_rtp pkt c log = Some (log @ [(pkt, c)])"

text \<open>The audio region of a wire frame with the three bytes of every sample reversed.\<close>

definition wire_audio_be :: "reac_mode \<Rightarrow> byte list \<Rightarrow> byte list" where
  "wire_audio_be m raw = concat (map (\<lambda>i. rev (chunk raw (50 + i * 3) 3)) [0..<nch_of m * sps_of m])"

lemma concat_reindex:
  "concat (map f [0..<a * b]) = concat (map (\<lambda>i. concat (map (\<lambda>j. f (i * b + j)) [0..<b])) [0..<a])"
proof (induction a)
  case (Suc a)
  have "[0..<Suc a * b] = [0..<a * b] @ [a * b..<a * b + b]"
    using upt_add_eq_append[of 0 "a * b" b] by (simp add: add.commute)
  moreover have "map f [a * b..<a * b + b] = map (\<lambda>j. f (a * b + j)) [0..<b]"
    by (rule nth_equalityI) simp_all
  ultimately show ?case using Suc by simp
qed simp

lemma frame_payload:
  assumes m: "mode_ok m" and raw: "1492 \<le> length (fst fr)"
  shows "rtp_payload (frame_pcm m fr) 0 (nch_of m) (sps_of m) = wire_audio_be m (fst fr)"
proof -
  let ?N = "nch_of m" and ?S = "sps_of m" and ?raw = "fst fr"
  have len: "length (decoded_pcm m ?raw) = ?N * ?S * 3" using m raw by simp
  have "sample_at ?S (frame_pcm m fr) c s = wire_sample m ?raw c s" if "c < ?N" "s < ?S" for c s
  proof -
    have "sample_at ?S (frame_pcm m fr) c s = sample_at ?S (decoded_pcm m ?raw) c s"
      using index_bound3[OF that] len unfolding sample_at_def frame_pcm_def blit_prefix
      by (intro chunk_append1) simp
    also have "\<dots> = wire_sample m ?raw c s"
      unfolding decoded_pcm_def using that m raw by (intro sample_at_planar) auto
    finally show ?thesis .
  qed
  then have "rtp_payload (frame_pcm m fr) 0 ?N ?S = interleaved ?N ?S (\<lambda>c s. rev (wire_sample m ?raw c s))"
    unfolding rtp_payload_def interleaved_def by (intro planar_cong) simp
  also have "\<dots> = wire_audio_be m ?raw"
    unfolding wire_audio_be_def interleaved_def planar_def wire_sample_def
    using concat_reindex[of "\<lambda>i. rev (chunk ?raw (50 + i * 3) 3)" ?S ?N] by (simp add: mult.commute)
  finally show ?thesis .
qed

text \<open>The packets of a sequence of blocks, with their flags, and a callback called with each in turn.\<close>

definition rtp_packets :: "'w pipeline \<Rightarrow> pushed list \<Rightarrow> (byte list \<times> bool) list" where
  "rtp_packets pl xs = map (\<lambda>j.
     (rtp_packet ((pl_rtp pl)\<lparr>rp_seq := rp_seq (pl_rtp pl) + of_nat j, rp_timestamp := fst (snd (xs ! j))\<rparr>)
        (fst (xs ! j)) 0 (nch_of (pl_mode pl)) (sps_of (pl_mode pl)), snd (snd (xs ! j)))) [0..<length xs]"

primrec emit_list :: "'w emit_fn \<Rightarrow> (byte list \<times> bool) list \<Rightarrow> 'w \<Rightarrow> 'w option" where
  "emit_list emit [] w = Some w"
| "emit_list emit (p # ps) w = emit (fst p) (snd p) w \<bind> emit_list emit ps"

lemma emit_list_append: "emit_list emit (ps @ qs) w = emit_list emit ps w \<bind> emit_list emit qs"
  by (induction ps arbitrary: w) (auto split: Option.bind_split)

lemma emit_list_record: "emit_list record_rtp ps log = Some (log @ ps)"
  by (induction ps arbitrary: log) (simp_all add: record_rtp_def)

lemma rtp_packets_append:
  assumes "pl_pcm_sink pl = None" and "same_output (foldl after_block pl xs) pl1"
  shows "rtp_packets pl (xs @ ys) = rtp_packets pl xs @ rtp_packets pl1 ys"
proof -
  have seq: "rp_seq (pl_rtp pl1) = rp_seq (pl_rtp pl) + of_nat (length xs)" and mode: "pl_mode pl1 = pl_mode pl"
    using assms by (simp_all add: same_output_def foldl_after_block)
  have rtp: "(pl_rtp pl1)\<lparr>rp_seq := rp_seq (pl_rtp pl1) + of_nat j, rp_timestamp := t\<rparr>
      = (pl_rtp pl)\<lparr>rp_seq := rp_seq (pl_rtp pl) + of_nat (length xs + j), rp_timestamp := t\<rparr>" for j t
    using assms by (cases "pl_rtp pl1"; cases "pl_rtp pl") (simp add: same_output_def foldl_after_block add.assoc)
  show ?thesis
    by (rule nth_equalityI) (auto simp: rtp_packets_def nth_append mode rtp)
qed

lemma deliver_all_emits:
  assumes "pl_pcm_sink pl = None"
  shows "deliver_all pl emit xs w = emit_list emit (rtp_packets pl xs) w"
proof (induction xs rule: rev_induct)
  case Nil
  show ?case by (simp add: rtp_packets_def)
next
  case (snoc x xs)
  let ?pl = "foldl after_block pl xs"
  let ?p = "(rtp_packet ((pl_rtp pl)\<lparr>rp_seq := rp_seq (pl_rtp pl) + of_nat (length xs), rp_timestamp := fst (snd x)\<rparr>)
      (fst x) 0 (nch_of (pl_mode pl)) (sps_of (pl_mode pl)), snd (snd x))"
  have rtp: "(pl_rtp ?pl)\<lparr>rp_timestamp := t\<rparr>
      = (pl_rtp pl)\<lparr>rp_seq := rp_seq (pl_rtp pl) + of_nat (length xs), rp_timestamp := t\<rparr>" for t
    using assms rtp_stamp_cong[of "pl_rtp ?pl"
        "(pl_rtp pl)\<lparr>rp_seq := rp_seq (pl_rtp pl) + of_nat (length xs)\<rparr>" t]
    by (simp add: foldl_after_block)
  have "deliver ?pl emit x = (\<lambda>w. emit (fst ?p) (snd ?p) w)"
    unfolding deliver_def rtp using assms by (simp add: foldl_after_block)
  moreover have "rtp_packets pl (xs @ [x]) = rtp_packets pl xs @ [?p]"
    unfolding rtp_packets_def by (simp add: nth_append)
  moreover have "deliver_all ?pl emit [x] = (\<lambda>w. deliver ?pl emit x w)" "emit_list emit [p] = (\<lambda>w. emit (fst p) (snd p) w)" for p
  proof -
    have nil: "deliver_all q emit [] = Some" "emit_list emit [] = Some" for q by (simp_all add: fun_eq_iff)
    show "deliver_all ?pl emit [x] = (\<lambda>w. deliver ?pl emit x w)" by (rule ext) (simp add: nil)
    show "emit_list emit [p] = (\<lambda>w. emit (fst p) (snd p) w)" by (rule ext) (simp add: nil)
  qed
  ultimately show ?case using snoc.IH by (simp add: deliver_all_append emit_list_append)
qed

lemma pipeline_start:
  fixes pt :: byte and ssrc A :: u32 and xfade :: int
  assumes "documented_geometry L" and "mode_ok m" and "fade \<le> 65536"
  defines "pl \<equiv> pipeline_anchor (pipeline_init_ex L m pt ssrc xfade fade) A"
  shows "pipeline_ok pl" "at_slot A 0 pl"
proof -
  note plc = plc_init_ok(1,5)[OF assms(2) geometry_simps(6)[OF assms(1)], where fade = fade and xfade = xfade]
  have "plc_S (plc_init L m fade xfade) = samples_per_pkt m"
      "plc_n_channels (plc_init L m fade xfade) = n_channels m"
    by (simp_all add: plc_init_def Let_def)
  then show "pipeline_ok pl" "at_slot A 0 pl"
    using plc assms(2,3)
    by (simp_all add: pl_def pipeline_anchor_def pipeline_init_ex_def pipeline_ok_def parts_ok_def
        at_slot_def media_clock_init_anchored_def)
qed

lemma set_sink_ok:
  "pipeline_ok (pipeline_set_pcm_sink pl sink) = pipeline_ok pl"
  "at_slot A n (pipeline_set_pcm_sink pl sink) = at_slot A n pl"
  by (simp_all add: pipeline_set_pcm_sink_def pipeline_ok_def parts_ok_def at_slot_def)

text \<open>The packets of a run from a fresh pipeline: one gap-free stream with the audio of the frames.\<close>

definition rtp_stream :: "byte \<Rightarrow> u32 \<Rightarrow> u32 \<Rightarrow> reac_mode \<Rightarrow> (byte list \<times> bool) list \<Rightarrow> bool" where
  "rtp_stream pt ssrc A m ps \<longleftrightarrow> (\<forall>j < length ps. \<exists>body. parse_rtp (fst (ps ! j)) = Some (rtp_view_of
       \<lparr>rp_payload_type = pt, rp_seq = of_nat j,
        rp_timestamp = A + of_nat j * word_of_int (samples_per_pkt m), rp_ssrc = ssrc\<rparr>, body) \<and>
       length body = nch_of m * sps_of m * 3)"

lemma blocks_audio:
  assumes "mode_ok m" and "pl_mode pl = m" and "run_summary A n pl frs xs pl'" and "\<forall>fr \<in> set frs. snd fr \<le> length (fst fr)"
  shows "map (\<lambda>x. rtp_payload (fst x) 0 (nch_of m) (sps_of m)) (filter (\<lambda>x. \<not> snd (snd x)) xs)
    = map (\<lambda>fr. wire_audio_be m (fst fr)) (filter is_frame frs)"
proof -
  have "1492 \<le> length (fst fr)" if "fr \<in> set frs" "is_frame fr" for fr
    using that assms(4) by (auto simp: well_formed_def)
  then have "map (\<lambda>p. rtp_payload p 0 (nch_of m) (sps_of m)) (map (frame_pcm m) (filter is_frame frs))
      = map (\<lambda>fr. wire_audio_be m (fst fr)) (filter is_frame frs)"
    using frame_payload[OF assms(1)] by simp
  moreover have "map fst (filter (\<lambda>x. \<not> snd (snd x)) xs) = map (frame_pcm m) (filter is_frame frs)"
    using assms(2,3) by (simp add: run_summary_def)
  ultimately show ?thesis by (metis (mono_tags, lifting) map_map comp_apply map_eq_conv)
qed

lemma packets_of_run:
  assumes "mode_ok m" and "pl_mode pl = m" and "run_summary A 0 pl frs xs pl'" and "\<forall>fr \<in> set frs. snd fr \<le> length (fst fr)"
    and "pl_rtp pl = \<lparr>rp_payload_type = pt, rp_seq = 0, rp_timestamp = ts0, rp_ssrc = ssrc\<rparr>"
  shows "rtp_stream pt ssrc A m (rtp_packets pl xs)"
    and "map (\<lambda>x. drop 12 (fst x)) (filter (\<lambda>x. \<not> snd x) (rtp_packets pl xs))
      = map (\<lambda>fr. wire_audio_be m (fst fr)) (filter is_frame frs)"
    and "length (filter snd (rtp_packets pl xs)) = length (filter (\<lambda>x. snd (snd x)) xs)"
    and "map snd (rtp_packets pl xs) = conceal_flags (snd (frame_clock (pl_clock pl) frs))"
proof -
  let ?N = "nch_of m" and ?S = "sps_of m" and ?log = "rtp_packets pl xs"
  have nth: "?log ! j = (rtp_packet \<lparr>rp_payload_type = pt, rp_seq = of_nat j,
      rp_timestamp = fst (snd (xs ! j)), rp_ssrc = ssrc\<rparr> (fst (xs ! j)) 0 ?N ?S, snd (snd (xs ! j)))" if "j < length xs" for j
    using that assms(2,5) by (simp add: rtp_packets_def)
  have len: "length ?log = length xs" by (simp add: rtp_packets_def)
  show "rtp_stream pt ssrc A m ?log" unfolding rtp_stream_def
  proof (intro allI impI)
    fix j assume "j < length ?log"
    then have j: "j < length xs" using len by simp
    have "fst (snd (xs ! j)) = A + of_nat j * word_of_int (samples_per_pkt m)"
      using assms(2,3) j by (simp add: run_summary_def in_slots_def)
    moreover have "length (fst (xs ! j)) = 2880" using assms(3) j by (simp add: run_summary_def)
    then have "length (rtp_payload (fst (xs ! j)) 0 ?N ?S) = ?N * ?S * 3"
      using mode_ok_nat(5)[OF assms(1)] by (intro length_rtp_payload[where nch = ?N]) auto
    ultimately show "\<exists>body. parse_rtp (fst (?log ! j)) = Some (rtp_view_of \<lparr>rp_payload_type = pt, rp_seq = of_nat j,
        rp_timestamp = A + of_nat j * word_of_int (samples_per_pkt m), rp_ssrc = ssrc\<rparr>, body) \<and> length body = ?N * ?S * 3"
      using nth[OF j] by (simp add: rtp_packet_def parse_rtp_header)
  qed
  have "map (\<lambda>x. (drop 12 (fst x), snd x)) ?log = map (\<lambda>x. (rtp_payload (fst x) 0 ?N ?S, snd (snd x))) xs"
    by (rule nth_equalityI) (simp_all add: len nth rtp_packet_def)
  then have "map fst (filter (\<lambda>y. \<not> snd y) (map (\<lambda>x. (drop 12 (fst x), snd x)) ?log))
      = map fst (filter (\<lambda>y. \<not> snd y) (map (\<lambda>x. (rtp_payload (fst x) 0 ?N ?S, snd (snd x))) xs))" by simp
  then have "map (\<lambda>x. drop 12 (fst x)) (filter (\<lambda>x. \<not> snd x) ?log)
      = map (\<lambda>p. rtp_payload p 0 ?N ?S) (map fst (filter (\<lambda>x. \<not> snd (snd x)) xs))" by (simp add: filter_map o_def)
  also have "\<dots> = map (\<lambda>fr. wire_audio_be m (fst fr)) (filter is_frame frs)"
    using blocks_audio[OF assms(1-4)] by (simp add: o_def)
  finally show "map (\<lambda>x. drop 12 (fst x)) (filter (\<lambda>x. \<not> snd x) ?log)
      = map (\<lambda>fr. wire_audio_be m (fst fr)) (filter is_frame frs)" .
  have flags: "map snd ?log = map (\<lambda>x. snd (snd x)) xs" by (rule nth_equalityI) (simp_all add: len nth)
  then show "map snd ?log = conceal_flags (snd (frame_clock (pl_clock pl) frs))" using assms(3) by (simp add: run_summary_def)
  from flags have "length (filter id (map snd ?log)) = length (filter id (map (\<lambda>x. snd (snd x)) xs))" by simp
  then show "length (filter snd ?log) = length (filter (\<lambda>x. snd (snd x)) xs)" by (simp add: filter_map o_def)
qed

text \<open>
  C1.  For any sequence of captured buffers, well formed or not, in any order and with any
  loss, the AES67 path is defined and its output is one gap-free RTP stream: packet \<open>j\<close> has
  sequence number \<open>j\<close> and time stamp \<open>anchor + j * samples_per_pkt\<close>, both modulo their width.
  The packets not marked as concealed carry, in order, exactly the audio of the
  well-formed frames, and before each of them stand as many concealed packets as the media clock finds lost from the frame's counter; every counter is the number it is named after, and as many packets were
  concealed as were counted as lost.
\<close>

theorem aes67_stream:
  assumes "documented_geometry L" and "mode_ok m" and "fade \<le> 65536"
    and "\<forall>fr \<in> set frs. snd fr \<le> length (fst fr)"
  shows "\<exists>pl' log. pipeline_run L record_rtp frs
      (pipeline_anchor (pipeline_init_ex L m pt ssrc xfade fade) A, []) = Some (pl', log) \<and>
    rtp_stream pt ssrc A m log \<and>
    map (\<lambda>x. drop 12 (fst x)) (filter (\<lambda>x. \<not> snd x) log)
      = map (\<lambda>fr. wire_audio_be m (fst fr)) (filter is_frame frs) \<and>
    map snd log = conceal_flags (snd (frame_clock (media_clock_init_anchored (samples_per_pkt m) A) frs)) \<and>
    ps_packets (pl_stats pl') = of_nat (length (filter is_frame frs)) \<and>
    ps_malformed (pl_stats pl') = of_nat (length (filter (\<lambda>fr. \<not> is_frame fr) frs)) \<and>
    ps_concealed (pl_stats pl') = of_nat (length (filter snd log)) \<and>
    ps_loss_total (pl_stats pl') = ps_concealed (pl_stats pl')"
proof -
  let ?pl = "pipeline_anchor (pipeline_init_ex L m pt ssrc xfade fade) A :: (byte list \<times> bool) list pipeline"
  have sel: "pl_pcm_sink ?pl = None" "pl_mode ?pl = m"
      "pl_rtp ?pl = \<lparr>rp_payload_type = pt, rp_seq = 0, rp_timestamp = 0, rp_ssrc = ssrc\<rparr>"
      "ps_packets (pl_stats ?pl) = 0" "ps_malformed (pl_stats ?pl) = 0" "ps_concealed (pl_stats ?pl) = 0"
      "ps_loss_total (pl_stats ?pl) = 0" "pl_clock ?pl = media_clock_init_anchored (samples_per_pkt m) A"
    by (simp_all add: pipeline_anchor_def pipeline_init_ex_def)
  obtain xs pl' where run: "\<forall>emit w. pipeline_run L emit frs (?pl, w)
      = do { w \<leftarrow> deliver_all ?pl emit xs w; Some (pl', w) }" and sum: "run_summary A 0 ?pl frs xs pl'"
    using pipeline_run_summary[OF assms(1) pipeline_start[OF assms(1-3)] assms(4)] by blast
  have "pipeline_run L record_rtp frs (?pl, []) = Some (pl', rtp_packets ?pl xs)"
    using run deliver_all_emits[OF sel(1)] by (simp add: emit_list_record)
  with packets_of_run[OF assms(2) sel(2) sum assms(4) sel(3)] sum show ?thesis
    by (simp add: run_summary_def sel)
qed

theorem aes67_stream_witness:
  "\<exists>pl' log. pipeline_run libreac_doc record_rtp [(sample_frame, 1492), ([1, 2, 3], 3)]
      (pipeline_anchor (pipeline_init_ex libreac_doc mode_48k 96 7 0 0) 1000, []) = Some (pl', log) \<and>
     ps_packets (pl_stats pl') = 1 \<and> ps_malformed (pl_stats pl') = 1"
  using aes67_stream[of libreac_doc mode_48k 0 "[(sample_frame, 1492), ([1, 2, 3], 3)]" 96 7 0 1000]
  by (auto simp: well_formed_def[of "[1, 2, 3]"])

text \<open>
  The hold-last and silence tiers of the concealment ladder never run behind the
  pipeline: loss is only detected after a first packet, which fills the history, so the
  tier on record is \<open>-1\<close>, repeat or burst fade after any run.
\<close>

theorem lower_tiers_unreachable:
  assumes "documented_geometry L" and "mode_ok m" and "fade \<le> 65536"
    and "\<forall>fr \<in> set frs. snd fr \<le> length (fst fr)"
    and "pipeline_run L emit frs
      (pipeline_set_pcm_sink (pipeline_anchor (pipeline_init_ex L m pt ssrc xfade fade) A) sink, w) = Some (pl', w')"
  shows "ps_last_tier (pipeline_get_stats pl') \<in> {-1, PLC_TIER_REPEAT_XFADE, PLC_TIER_BURST_FADE}"
proof -
  let ?pl = "pipeline_set_pcm_sink (pipeline_anchor (pipeline_init_ex L m pt ssrc xfade fade) A) sink"
  have "pipeline_ok ?pl" "at_slot A 0 ?pl"
    using assms(1-3) by (simp_all add: set_sink_ok pipeline_start)
  from pipeline_run_summary[OF assms(1) this assms(4)] obtain xs pl2 where
    "pipeline_run L emit frs (?pl, w) = do { w \<leftarrow> deliver_all ?pl emit xs w; Some (pl2, w) }"
    "run_summary A 0 ?pl frs xs pl2" by blast
  moreover have "ps_last_tier (pl_stats ?pl) = -1"
    by (simp add: pipeline_set_pcm_sink_def pipeline_anchor_def pipeline_init_ex_def)
  ultimately show ?thesis
    using assms(5) by (auto simp: run_summary_def pipeline_get_stats_def split: Option.bind_splits)
qed

theorem lower_tiers_unreachable_witness:
  "\<exists>pl'. pipeline_run libreac_doc (\<lambda>_ _ w. Some w) []
     (pipeline_set_pcm_sink (pipeline_anchor (pipeline_init_ex libreac_doc mode_48k 96 7 0 0) 5) None, ()) = Some (pl', ()) \<and>
    ps_last_tier (pipeline_get_stats pl') \<in> {-1, PLC_TIER_REPEAT_XFADE, PLC_TIER_BURST_FADE}"
  using lower_tiers_unreachable[of libreac_doc mode_48k 0 "[]" "\<lambda>_ _ w. Some w" 96 7 0 5 None "()"] by simp

subsection \<open>The contract of a PCM sink\<close>

text \<open>
  What the pipeline promises the sink it hands its blocks to: the sink sees the blocks of a run one by one and in order.  A
  client says with \<open>consume\<close> what a sequence of blocks does to its state.
\<close>

locale pcm_sink_contract =
  fixes sink :: "byte list \<Rightarrow> u32 \<Rightarrow> bool \<Rightarrow> 'w \<Rightarrow> 'w option" and consume :: "pushed list \<Rightarrow> 'w \<Rightarrow> 'w option"
  assumes consume_Nil: "consume [] w = Some w"
    and consume_Cons: "consume (x # xs) w = sink (fst x) (fst (snd x)) (snd (snd x)) w \<bind> consume xs"
begin

lemma deliver_all_consumes: "pl_pcm_sink pl = Some sink \<Longrightarrow> deliver_all pl emit xs w = consume xs w"
proof (induction xs arbitrary: pl w)
  case Nil
  then show ?case by (simp add: consume_Nil)
next
  case (Cons x xs)
  have "pl_pcm_sink (after_block pl x) = Some sink" using Cons.prems by (simp add: after_block_def Let_def)
  from Cons.IH[OF this] have "deliver_all (after_block pl x) emit xs = consume xs" by (intro ext)
  then show ?case using Cons.prems by (simp add: consume_Cons deliver_def)
qed

end

text \<open>
  What holds of every output survives the pipeline: a property of the outside world that the callback and the
  sink keep is kept by a frame, whatever the frame is and whether or not its processing is defined.
\<close>

locale output_invariant =
  fixes emit :: "'w emit_fn" and sink :: "(byte list \<Rightarrow> u32 \<Rightarrow> bool \<Rightarrow> 'w \<Rightarrow> 'w option) option" and P :: "'w \<Rightarrow> bool"
  assumes emit_keeps: "P w \<Longrightarrow> emit bs c w = Some w' \<Longrightarrow> P w'"
    and sink_keeps: "sink = Some f \<Longrightarrow> P w \<Longrightarrow> f pcm ts c w = Some w' \<Longrightarrow> P w'"
begin

lemma emit_pcm_keeps:
  assumes "emit_pcm L pl pcm ts c emit w = Some (pl', w')" and "P w" and "pl_pcm_sink pl = sink"
  shows "P w' \<and> pl_pcm_sink pl' = sink"
  using assms
  by (cases sink) (auto simp: emit_pcm_def Let_def bind_eq_Some_conv split: if_splits intro: emit_keeps sink_keeps)

lemma on_frame_keeps:
  assumes "pipeline_on_frame L pl raw len emit w = Some (rc, pl', w')" and "P w" and "pl_pcm_sink pl = sink"
  shows "P w' \<and> pl_pcm_sink pl' = sink"
proof -
  let ?Q = "\<lambda>(pl, w). P w \<and> pl_pcm_sink pl = sink"
  have loop: "P (snd t) \<and> pl_pcm_sink (fst t) = sink" if "forn n (\<lambda>i (pl, ctx). plc_conceal (pl_plc pl) z (int i) \<bind>
         (\<lambda>(cpcm, tier). emit_pcm L (pl\<lparr>pl_stats := (pl_stats pl)\<lparr>ps_last_tier := tier\<rparr>\<rparr>) cpcm (cts i) True emit ctx))
         (pl0, w) = Some t" "pl_pcm_sink pl0 = sink" for n z cts pl0 t
  proof -
    have "?Q t"
      by (rule forn_keeps[where P = ?Q, OF _ that(1)])
        (use that(2) assms(2) in \<open>auto simp: bind_eq_Some_conv dest!: emit_pcm_keeps\<close>)
    then show ?thesis by (simp add: split_beta)
  qed
  show ?thesis
    using assms unfolding pipeline_on_frame_def Let_def
    by (auto simp: bind_eq_Some_conv split_beta[of _ "media_clock_on_packet _ _"] split: if_splits
        dest!: loop emit_pcm_keeps)
qed

end

end
