(* ===== verification/Ubus_Stats.thy ===== *)
theory Ubus_Stats
  imports Pipeline C_String
begin

text \<open>
  The statistics object of \<open>src/ubus_stats.c\<close>, in both builds.  libubus and uloop are not part of the repository: whether the
  object can be had is a record of flags, and what the event loop dispatches until it ends is a list of
  events, each of which calls the callback the daemon registered for it.  A reply is the list of its fields.
\<close>

record ubus_env =
  ub_have :: bool
  ub_calloc :: bool
  ub_connect :: bool
  ub_add_object :: bool

record ubus_stats =
  us_objname :: string
  us_name :: string
  us_iface :: string
  us_mcast :: string
  us_ssrc :: string
  us_rate :: int
  us_channels :: int
  us_stats :: pipeline_stats
  us_pps :: int
  us_uptime :: u32

datatype blob = BlobString string | BlobU8 byte | BlobU32 u32 | BlobU64 u64

datatype uloop_event = CaptureReadable | PublishTimer | StatusCall

definition tier_name :: "int \<Rightarrow> string" where
  "tier_name t = (if t = PLC_TIER_REPEAT_XFADE then ''crossfade''
     else if t = PLC_TIER_BURST_FADE then ''burst_fade''
     else if t = PLC_TIER_HOLD_LAST then ''hold_last''
     else if t = PLC_TIER_SILENCE then ''silence''
     else ''clean'')"

definition status_cb :: "ubus_stats \<Rightarrow> (string \<times> blob) list" where
  "status_cb h = [
     (''name'', BlobString (us_name h)),
     (''iface'', BlobString (us_iface h)),
     (''rate'', BlobU32 (word_of_int (us_rate h))),
     (''channels'', BlobU32 (word_of_int (us_channels h))),
     (''mcast'', BlobString (us_mcast h)),
     (''ssrc'', BlobString (us_ssrc h)),
     (''running'', BlobU8 1),
     (''uptime_s'', BlobU32 (us_uptime h)),
     (''packets_per_sec'', BlobU32 (word_of_int (us_pps h))),
     (''rtp_seq'', BlobU32 (ucast (ps_last_seq (us_stats h)))),
     (''loss_total'', BlobU64 (ps_loss_total (us_stats h))),
     (''packets'', BlobU64 (ps_packets (us_stats h))),
     (''concealed'', BlobU64 (ps_concealed (us_stats h))),
     (''plc_tier'', BlobString (tier_name (ps_last_tier (us_stats h))))]"

text \<open>The statistics of a zeroed handle.\<close>

definition zero_stats :: pipeline_stats where
  "zero_stats = \<lparr>ps_packets = 0, ps_concealed = 0, ps_loss_total = 0, ps_malformed = 0, ps_last_seq = 0, ps_last_tier = 0\<rparr>"

definition ubus_stats_start ::
  "ubus_env \<Rightarrow> string option \<Rightarrow> string option \<Rightarrow> int \<Rightarrow> int \<Rightarrow> string option \<Rightarrow> string option \<Rightarrow> ubus_stats option" where
  "ubus_stats_start U name iface rate channels mcast ssrc =
     (if \<not> ub_have U then None
      else if \<not> ub_calloc U then None
      else if \<not> ub_connect U then None
      else
        let nm = take (32 - 1) (case name of None \<Rightarrow> ''reac'' | Some s \<Rightarrow> s);
            h = \<lparr>us_objname = truncated 64 (''reac-aes67.'' @ nm), us_name = nm,
                 us_iface = take (16 - 1) (case iface of None \<Rightarrow> [] | Some s \<Rightarrow> s),
                 us_mcast = take (32 - 1) (case mcast of None \<Rightarrow> [] | Some s \<Rightarrow> s),
                 us_ssrc = take (16 - 1) (case ssrc of None \<Rightarrow> [] | Some s \<Rightarrow> s),
                 us_rate = rate, us_channels = channels, us_stats = zero_stats, us_pps = 0, us_uptime = 0\<rparr>
        in if \<not> ub_add_object U then None else Some h)"

definition ubus_stats_update :: "ubus_stats option \<Rightarrow> pipeline_stats \<Rightarrow> int \<Rightarrow> u32 \<Rightarrow> ubus_stats option" where
  "ubus_stats_update h s packets_per_sec uptime_s =
     map_option (\<lambda>h. h\<lparr>us_stats := s, us_pps := packets_per_sec, us_uptime := uptime_s\<rparr>) h"

text \<open>
  Draining the pending requests by hand, of which there are \<open>pending\<close>: each is answered at once.  The end of the object; its handle is gone.
\<close>

definition ubus_stats_poll :: "nat \<Rightarrow> ubus_stats option \<Rightarrow> (string \<times> blob) list list" where
  "ubus_stats_poll pending h = (case h of None \<Rightarrow> [] | Some h \<Rightarrow> replicate pending (status_cb h))"

definition ubus_stats_stop :: "ubus_stats option \<Rightarrow> ubus_stats option" where
  "ubus_stats_stop h = None"

text \<open>
  The event loop on the state \<open>'s\<close> of the daemon.  The first two handlers call the daemon's callback, and the second arms the
  timer again; a call of the status method is answered by \<open>answer\<close>.  The interval, in the code a field of the handle that the loop sets once, is an
  argument; the milliseconds given to \<open>uloop_timeout_set\<close> are an \<open>int\<close>, whose overflow is \<open>None\<close>.
\<close>

definition on_cap_uloop :: "('s \<Rightarrow> 's option) \<Rightarrow> 's \<Rightarrow> 's option" where
  "on_cap_uloop on_capture_readable s = on_capture_readable s"

definition timer_ms :: "u32 \<Rightarrow> int option" where
  "timer_ms pub_interval_s = c_int (sint pub_interval_s * 1000)"

definition on_pub_uloop :: "('s \<Rightarrow> 's option) \<Rightarrow> u32 \<Rightarrow> 's \<Rightarrow> 's option" where
  "on_pub_uloop on_publish pub_interval_s s = do {
     s \<leftarrow> on_publish s;
     _ \<leftarrow> timer_ms pub_interval_s;
     Some s
   }"

definition uloop_dispatch :: "('s \<Rightarrow> 's option) \<Rightarrow> ('s \<Rightarrow> 's option) \<Rightarrow> ('s \<Rightarrow> 's) \<Rightarrow> u32 \<Rightarrow> uloop_event \<Rightarrow> 's \<Rightarrow> 's option" where
  "uloop_dispatch readable publish answer iv e s = (case e of
     CaptureReadable \<Rightarrow> on_cap_uloop readable s | PublishTimer \<Rightarrow> on_pub_uloop publish iv s | StatusCall \<Rightarrow> Some (answer s))"

primrec uloop_run ::
  "('s \<Rightarrow> 's option) \<Rightarrow> ('s \<Rightarrow> 's option) \<Rightarrow> ('s \<Rightarrow> 's) \<Rightarrow> u32 \<Rightarrow> uloop_event list \<Rightarrow> 's \<Rightarrow> 's option" where
  "uloop_run readable publish answer iv [] s = Some s"
| "uloop_run readable publish answer iv (e # es) s =
     uloop_dispatch readable publish answer iv e s \<bind> uloop_run readable publish answer iv es"

definition ubus_stats_run ::
  "ubus_env \<Rightarrow> bool \<Rightarrow> ('s \<Rightarrow> 's option) \<Rightarrow> ('s \<Rightarrow> 's option) \<Rightarrow> ('s \<Rightarrow> 's) \<Rightarrow> u32 \<Rightarrow> uloop_event list \<Rightarrow> 's \<Rightarrow> (int \<times> 's) option" where
  "ubus_stats_run U have_handle readable publish answer publish_interval_s events s =
     (if \<not> ub_have U then Some (- 1, s)
      else if \<not> have_handle then Some (- 1, s)
      else do {
        let iv = (if publish_interval_s \<noteq> 0 then publish_interval_s else 1);
        _ \<leftarrow> timer_ms iv;
        s \<leftarrow> uloop_run readable publish answer iv events s;
        Some (0, s)
      })"

lemma timer_ms_1 [simp]: "timer_ms 1 = Some 1000"
  by (simp add: timer_ms_def c_int_def)

subsection \<open>What a status call reports\<close>

lemma uloop_run_append:
  "uloop_run readable publish answer iv (es @ fs) s = uloop_run readable publish answer iv es s \<bind> uloop_run readable publish answer iv fs"
proof (induction es arbitrary: s)
  case (Cons e es)
  then show ?case by (cases "uloop_dispatch readable publish answer iv e s") simp_all
qed simp

lemma uloop_run_inv:
  assumes "\<And>s s'. P s \<Longrightarrow> readable s = Some s' \<Longrightarrow> P s'" and "\<And>s s'. P s \<Longrightarrow> publish s = Some s' \<Longrightarrow> P s'" and "\<And>s. P s \<Longrightarrow> P (answer s)"
    and "uloop_run readable publish answer iv es s = Some s'" and "P s"
  shows "P s'"
  using assms(4,5)
proof (induction es arbitrary: s)
  case (Cons e es)
  then show ?case
    by (cases e)
      (auto simp: uloop_dispatch_def on_cap_uloop_def on_pub_uloop_def bind_eq_Some_conv intro: Cons.IH assms(1-3))
qed simp

text \<open>
  A status call reports the last published snapshot: after any update the reply holds exactly the counters, the sequence
  number and the tier of the pipeline at that moment, under the keys of their meaning, and the meta data the
  object was registered with.  Before the first update the handle is all zeros, so that the reply names the tier
  \<open>crossfade\<close> although nothing was lost.
\<close>

lemma status_reports_snapshot:
  assumes "ubus_stats_start U name iface rate channels mcast ssrc = Some h"
    and "ubus_stats_update (Some h) (pipeline_get_stats pl) pps uptime = Some h'"
  shows "map_of (status_cb h') ''packets'' = Some (BlobU64 (ps_packets (pl_stats pl))) \<and>
    map_of (status_cb h') ''concealed'' = Some (BlobU64 (ps_concealed (pl_stats pl))) \<and>
    map_of (status_cb h') ''loss_total'' = Some (BlobU64 (ps_loss_total (pl_stats pl))) \<and>
    map_of (status_cb h') ''rtp_seq'' = Some (BlobU32 (ucast (ps_last_seq (pl_stats pl)))) \<and>
    map_of (status_cb h') ''plc_tier'' = Some (BlobString (tier_name (ps_last_tier (pl_stats pl)))) \<and>
    map_of (status_cb h') ''rate'' = Some (BlobU32 (word_of_int rate)) \<and>
    map_of (status_cb h) ''plc_tier'' = Some (BlobString ''crossfade'') \<and>
    distinct (map fst (status_cb h')) \<and> length (us_objname h') < 64 \<and> length (us_name h') < 32"
proof -
  have "h' = h\<lparr>us_stats := pl_stats pl, us_pps := pps, us_uptime := uptime\<rparr>"
    using assms(2) by (simp add: ubus_stats_update_def pipeline_get_stats_def)
  then show ?thesis
    using assms(1) by (auto simp: ubus_stats_start_def Let_def status_cb_def truncated_def zero_stats_def
        tier_name_def PLC_TIER_REPEAT_XFADE_def split: if_splits)
qed

end
