(* ===== verification/Ptp_Clock.thy ===== *)
theory Ptp_Clock
  imports Reac_Prelude
begin

text \<open>
  The PTP anchor of \<open>src/ptp_clock.c\<close>: International Atomic Time as an RTP timestamp.  The
  system call \<open>clock_gettime\<close> is a parameter, its return code and the time it reports; whether the platform
  defines \<open>CLOCK_TAI\<close> is another.  An output pointer is \<open>None\<close> when it is NULL.
\<close>

definition tai_to_rtp_ts :: "u64 \<Rightarrow> u32 \<Rightarrow> int \<Rightarrow> u32" where
  "tai_to_rtp_ts tai_sec tai_nsec rate =
     (let sub = ((ucast tai_nsec :: u64) * word_of_int rate + 500000000) div 1000000000;
          total = tai_sec * word_of_int rate + sub
      in ucast (total AND 0xffffffff))"

record timespec =
  tv_sec :: int
  tv_nsec :: int

definition ptp_now_tai ::
  "bool \<Rightarrow> int \<times> timespec \<Rightarrow> u64 option \<Rightarrow> u32 option \<Rightarrow> int \<times> u64 option \<times> u32 option" where
  "ptp_now_tai has_clock_tai clock_gettime_tai sec nsec =
     (if has_clock_tai then
        (let (rc, ts) = clock_gettime_tai in
         if rc \<noteq> 0 then (-1, sec, nsec)
         else (0, map_option (\<lambda>_. word_of_int (tv_sec ts)) sec,
                  map_option (\<lambda>_. word_of_int (tv_nsec ts)) nsec))
      else (-1, sec, nsec))"

lemma unat_u64_of_int: "0 \<le> r \<Longrightarrow> r < 2 ^ 64 \<Longrightarrow> unat (word_of_int r :: u64) = nat r"
  by (simp add: unsigned_of_int take_bit_int_eq_self)

lemma unat_ucast_u32: "unat (ucast (x :: u32) :: u64) = unat x"
  using unat_bound(3)[of x] by (simp add: unsigned_ucast_eq take_bit_nat_eq_self)

lemma low32: "unat (ucast (x AND 0xffffffff) :: u32) = unat (x :: u64) mod 2 ^ 32"
proof -
  have "x AND 0xffffffff = take_bit 32 x" by (simp add: take_bit_eq_mask mask_eq_exp_minus_1)
  then show ?thesis by (simp only: unsigned_ucast_eq unsigned_take_bit_eq) (simp add: take_bit_eq_mod)
qed

text \<open>
  C34.  For every sample rate up to 192 kHz and every valid nanosecond field the anchor is the
  exact sample count of the TAI instant, rounded to the nearest sample, modulo \<open>2 ^ 32\<close>, although the
  64-bit product of seconds and rate may wrap.  The rounding error is at most half a
  sample.
\<close>

theorem anchor_is_sample_count:
  assumes "0 \<le> rate" and "rate \<le> 192000" and "unat nsec < 1000000000"
  shows "let sub = (unat nsec * nat rate + 500000000) div 1000000000 in
    unat (tai_to_rtp_ts sec nsec rate) = (unat sec * nat rate + sub) mod 2 ^ 32 \<and>
    \<bar>2 * 1000000000 * int sub - 2 * int (unat nsec) * rate\<bar> \<le> 1000000000"
proof -
  let ?r = "word_of_int rate :: u64" and ?n = "ucast nsec :: u64"
  let ?p = "unat nsec * nat rate"
  have r: "unat ?r = nat rate" using assms by (intro unat_u64_of_int) auto
  have p: "?p \<le> 1000000000 * 192000" using assms by (intro mult_le_mono) auto
  have "unat (?n * ?r) = ?p" using p by (simp add: unat_word_ariths r unat_ucast_u32)
  then have "unat (?n * ?r + 500000000) = ?p + 500000000" using p by (simp add: unat_word_ariths)
  then have sub: "unat ((?n * ?r + 500000000) div 1000000000) = (?p + 500000000) div 1000000000"
    by (simp add: unat_div_distrib)
  let ?s = "(?p + 500000000) div 1000000000"
  have "unat (sec * ?r + (?n * ?r + 500000000) div 1000000000) = (unat sec * nat rate + ?s) mod 2 ^ 64"
    unfolding unat_word_ariths(1,2) sub r by (simp add: mod_add_left_eq)
  moreover have "(unat sec * nat rate + ?s) mod 2 ^ 64 mod 2 ^ 32 = (unat sec * nat rate + ?s) mod 2 ^ 32"
    by (rule mod_mod_cancel) simp
  ultimately have "unat (tai_to_rtp_ts sec nsec rate) = (unat sec * nat rate + ?s) mod 2 ^ 32"
    by (simp only: tai_to_rtp_ts_def Let_def low32)
  moreover have "?s * 1000000000 \<le> ?p + 500000000" "?p + 500000000 < ?s * 1000000000 + 1000000000"
    using div_mult_mod_eq[of "?p + 500000000" 1000000000] mod_less_divisor[of 1000000000 "?p + 500000000"]
    by linarith+
  then have "\<bar>2 * 1000000000 * int ?s - 2 * int ?p\<bar> \<le> 1000000000" by linarith
  ultimately show ?thesis using assms(1) by (simp add: Let_def mult.assoc)
qed

theorem anchor_is_sample_count_witness:
  "unat (tai_to_rtp_ts 1700000000 999999999 48000) = (1700000000 * 48000 + 48000) mod 2 ^ 32"
  using anchor_is_sample_count[of 48000 999999999 1700000000] by (simp add: Let_def)

end
