(* ===== verification/Daemon.thy ===== *)
theory Daemon
  imports Pcap_Source Reac_Capture Sdp_Sap Cli_Text Ubus_Stats Ptp_Clock
begin

text \<open>
  The replay and live modes of the daemon, \<open>src/main.c\<close>: a frame source, the pipeline, and a sink.
  Everything outside the repository is gathered in one record of parameters; \<open>g_stop\<close>, which a signal
  handler sets, is a function of the outside world.  Diagnostics on stderr are left out.  A loop that may run forever is a partial
  function, whose value is \<open>None\<close> when it does not return.
\<close>

record 'w env =
  en_lib :: libreac
  en_os :: "'w os"
  en_long_bits :: nat
  en_calloc :: "'w \<Rightarrow> bool"
  en_fopen :: "string \<Rightarrow> cfile option"
  en_stop :: "'w \<Rightarrow> bool"
  en_ubus :: ubus_env
  en_events :: "uloop_event list"
  en_has_tai :: bool
  en_tai :: "int \<times> timespec"
  en_detect :: "int \<Rightarrow> int \<Rightarrow> 'w \<Rightarrow> int \<times> 'w"
  en_mono :: "'w \<Rightarrow> timespec"
  en_sleep :: "timespec \<Rightarrow> 'w \<Rightarrow> 'w"

definition emit_udp :: "'w os \<Rightarrow> aes67_sender \<Rightarrow> 'w emit_fn" where
  "emit_udp K s buf concealed w = Some (snd (aes67_send_packet K s buf w))"

record counters =
  ct_total :: int
  ct_concealed :: int

definition emit_count :: "counters emit_fn" where
  "emit_count buf concealed c = do {
     total \<leftarrow> c_int (ct_total c + 1);
     let c = c\<lparr>ct_total := total\<rparr>;
     if concealed then do { k \<leftarrow> c_int (ct_concealed c + 1); Some (c\<lparr>ct_concealed := k\<rparr>) } else Some c
   }"

text \<open>The structure on the stack is not initialised before it is opened.\<close>

definition run_pcap ::
  "'w env \<Rightarrow> pcap_source \<Rightarrow> string \<Rightarrow> reac_mode \<Rightarrow> 'c emit_fn \<Rightarrow> byte \<Rightarrow> u32 \<Rightarrow> 'c \<Rightarrow> (int \<times> 'c) option" where
  "run_pcap E ps path mode emit pt ssrc ctx = do {
     let pl = pipeline_init (en_lib E) mode pt ssrc;
     (rc, ps) \<leftarrow> pcap_source_open (en_fopen E path) ps;
     if rc \<noteq> 0 then Some (1, ctx)
     else do {
       (n, ps, pl, ctx) \<leftarrow> pcap_loop (en_long_bits E) (\<lambda>(pl, ctx) buf n. do {
           (rc, pl, ctx) \<leftarrow> pipeline_on_frame (en_lib E) pl buf n emit ctx;
           Some (pl, ctx)
         }) ps (replicate 2048 0) 2048 (pl, ctx);
       let ps = pcap_source_close ps;
       Some (0, ctx)
     }
   }"

definition frame_wanted :: "bool \<Rightarrow> byte list \<Rightarrow> int \<Rightarrow> bool option" where
  "frame_wanted bcast_only b n =
     (if \<not> bcast_only then Some True
      else if n < 6 then Some False
      else do {
        b0 \<leftarrow> rd b 0; b1 \<leftarrow> rd b 1; b2 \<leftarrow> rd b 2; b3 \<leftarrow> rd b 3; b4 \<leftarrow> rd b 4; b5 \<leftarrow> rd b 5;
        Some ((b0 AND b1 AND b2 AND b3 AND b4 AND b5) = 0xff)
      })"

text \<open>
  The state the callbacks share: the pipeline, the statistics object, the announcer and the packet
  counter, an \<open>unsigned long\<close>; and the replies sent to status calls.
\<close>

record 'w listen_ctx =
  lc_pl :: "'w pipeline"
  lc_us :: "ubus_stats option"
  lc_sap :: sap_announcer
  lc_pkts :: nat
  lc_replies :: "(string \<times> blob) list list"
  lc_w :: 'w

partial_function (option) listen_drain ::
  "'w env \<Rightarrow> bool \<Rightarrow> aes67_sender \<Rightarrow> reac_capture \<Rightarrow> byte list \<Rightarrow> 'w listen_ctx \<Rightarrow> 'w listen_ctx option" where
  "listen_drain E bcast_only s cap buf lc = do {
     (n, buf, w) \<leftarrow> reac_capture_next (en_os E) cap buf 2048 (lc_w lc);
     let lc = lc\<lparr>lc_w := w\<rparr>;
     if n > 0 then do {
       wanted \<leftarrow> frame_wanted bcast_only buf n;
       if \<not> wanted then listen_drain E bcast_only s cap buf lc
       else do {
         (rc, pl, w) \<leftarrow> pipeline_on_frame (en_lib E) (lc_pl lc) buf (nat n) (emit_udp (en_os E) s) (lc_w lc);
         listen_drain E bcast_only s cap buf
           (lc\<lparr>lc_pl := pl, lc_w := w, lc_pkts := (lc_pkts lc + 1) mod 2 ^ en_long_bits E\<rparr>)
       }
     } else Some lc
   }"

definition listen_on_readable ::
  "'w env \<Rightarrow> bool \<Rightarrow> aes67_sender \<Rightarrow> reac_capture \<Rightarrow> 'w listen_ctx \<Rightarrow> 'w listen_ctx option" where
  "listen_on_readable E bcast_only s cap lc = listen_drain E bcast_only s cap (replicate 2048 0) lc"

definition listen_on_publish :: "'w env \<Rightarrow> reac_mode \<Rightarrow> 'w listen_ctx \<Rightarrow> 'w listen_ctx option" where
  "listen_on_publish E mode lc = do {
     pps \<leftarrow> c_div (sample_rate mode) (samples_per_pkt mode);
     let st = pipeline_get_stats (lc_pl lc);
     let uptime = of_nat (lc_pkts lc div nat ((if pps \<noteq> 0 then pps else 1) mod 2 ^ en_long_bits E));
     Some (lc\<lparr>lc_us := ubus_stats_update (lc_us lc) st pps uptime,
              lc_w := sap_announce (en_os E) (Some (lc_sap lc)) (lc_w lc)\<rparr>)
   }"

definition listen_answer :: "'w listen_ctx \<Rightarrow> 'w listen_ctx" where
  "listen_answer lc = lc\<lparr>lc_replies := lc_replies lc @ (case lc_us lc of None \<Rightarrow> [] | Some h \<Rightarrow> [status_cb h])\<rparr>"

text \<open>The blocking loop without an event loop; \<open>fc\<close> counts the frames, in an \<open>unsigned long\<close>.\<close>

partial_function (option) listen_loop ::
  "'w env \<Rightarrow> bool \<Rightarrow> aes67_sender \<Rightarrow> reac_capture \<Rightarrow> sap_announcer \<Rightarrow> int \<Rightarrow> byte list \<Rightarrow> nat \<Rightarrow> 'w pipeline \<Rightarrow> 'w \<Rightarrow>
   ('w pipeline \<times> 'w) option" where
  "listen_loop E bcast_only s cap sap pps buf fc pl w =
     (if en_stop E w then Some (pl, w)
      else do {
        (n, buf, w) \<leftarrow> reac_capture_next (en_os E) cap buf 2048 w;
        if n < 0 then Some (pl, w)
        else if n = 0 then listen_loop E bcast_only s cap sap pps buf fc pl (sap_announce (en_os E) (Some sap) w)
        else do {
          wanted \<leftarrow> frame_wanted bcast_only buf n;
          if \<not> wanted then listen_loop E bcast_only s cap sap pps buf fc pl w
          else do {
            (rc, pl, w) \<leftarrow> pipeline_on_frame (en_lib E) pl buf (nat n) (emit_udp (en_os E) s) w;
            if pps > 0 then
              (let fc = (fc + 1) mod 2 ^ en_long_bits E;
                   w = (if fc mod nat pps = 0 then sap_announce (en_os E) (Some sap) w else w)
               in listen_loop E bcast_only s cap sap pps buf fc pl w)
            else listen_loop E bcast_only s cap sap pps buf fc pl w
          }
        }
      })"

text \<open>The parts of \<open>run_listen\<close>: the announcer it starts, and the loop it runs until it is stopped.\<close>

definition listen_announcer ::
  "'w env \<Rightarrow> reac_mode \<Rightarrow> byte \<Rightarrow> string option \<Rightarrow> string option \<Rightarrow> int \<Rightarrow> bool \<Rightarrow> string option \<Rightarrow> string option \<Rightarrow> 'w \<Rightarrow>
   (sap_announcer \<times> 'w) option" where
  "listen_announcer E mode pt name udp ttl do_sap origin iface_egress w =
     (let K = en_os E;
          sap = \<lparr>sa_snd = \<lparr>snd_fd = 0, snd_dest = None\<rparr>, sa_pkt = replicate 1024 0, sa_len = 0, sa_active = False\<rparr>
      in case udp of
        None \<Rightarrow> Some (sap, w)
      | Some u \<Rightarrow>
          if \<not> do_sap then Some (sap, w)
          else do {
            (prc, ip, port) \<leftarrow> parse_ipport u (replicate 64 0) 64 0;
            if prc = 0 then do {
              host \<leftarrow> c_string ip;
              (src, sap, w) \<leftarrow> sap_announcer_start K (en_calloc E w) sap name host port (uint pt) (sample_rate mode)
                                (n_channels mode) ttl origin iface_egress w;
              Some (sap, if src = 0 then sap_announce K (Some sap) w else w)
            } else Some (sap, w)
          })"

definition listen_session ::
  "'w env \<Rightarrow> bool \<Rightarrow> reac_mode \<Rightarrow> aes67_sender \<Rightarrow> reac_capture \<Rightarrow> 'w pipeline \<Rightarrow> ubus_stats option \<Rightarrow> sap_announcer \<Rightarrow> 'w \<Rightarrow>
   'w option" where
  "listen_session E bcast_only mode s cap pl us sap w = do {
     let (_, w) = reac_capture_set_nonblock (en_os E) cap True w;
     let lc = \<lparr>lc_pl = pl, lc_us = us, lc_sap = sap, lc_pkts = 0, lc_replies = [], lc_w = w\<rparr>;
     (urc, lc) \<leftarrow> ubus_stats_run (en_ubus E) (us \<noteq> None) (listen_on_readable E bcast_only s cap)
                   (listen_on_publish E mode) listen_answer 1 (en_events E) lc;
     if urc \<noteq> 0 then do {
       let (_, w) = reac_capture_set_nonblock (en_os E) cap False (lc_w lc);
       pps \<leftarrow> (if samples_per_pkt mode \<noteq> 0 then c_div (sample_rate mode) (samples_per_pkt mode) else Some 0);
       (_, w) \<leftarrow> listen_loop E bcast_only s cap sap pps (replicate 2048 0) 0 (lc_pl lc) w;
       Some w
     } else Some (lc_w lc)
   }"

definition run_listen ::
  "'w env \<Rightarrow> bool \<Rightarrow> string \<Rightarrow> reac_mode \<Rightarrow> aes67_sender \<Rightarrow> byte \<Rightarrow> u32 \<Rightarrow> string option \<Rightarrow> string option \<Rightarrow>
   string option \<Rightarrow> int \<Rightarrow> int \<Rightarrow> int \<Rightarrow> bool \<Rightarrow> string option \<Rightarrow> string option \<Rightarrow> 'w \<Rightarrow> (int \<times> 'w) option" where
  "run_listen E bcast_only ifname mode s pt ssrc name udp ssrc_hex plc_xfade plc_fade ttl do_sap origin iface_egress w =
     (let K = en_os E; (rc, cap, w) = reac_capture_open K ifname w in
      if rc \<noteq> 0 then Some (1, w)
      else do {
        let pl = pipeline_init_ex (en_lib E) mode pt ssrc plc_xfade plc_fade;
        let us = ubus_stats_start (en_ubus E) (Some (case name of None \<Rightarrow> ifname | Some nm \<Rightarrow> nm)) (Some ifname)
                   (sample_rate mode) (n_channels mode) (Some (case udp of None \<Rightarrow> [] | Some u \<Rightarrow> u))
                   (Some (case ssrc_hex of None \<Rightarrow> [] | Some x \<Rightarrow> x));
        (sap, w) \<leftarrow> listen_announcer E mode pt name udp ttl do_sap origin iface_egress w;
        w \<leftarrow> listen_session E bcast_only mode s cap pl us sap w;
        let (_, w) = sap_announcer_stop K sap w;
        let us = ubus_stats_stop us;
        let (_, w) = reac_capture_close K cap w;
        Some (0, w)
      })"

subsection \<open>Replay\<close>

text \<open>A property of the outside world that sending keeps is kept by the pipeline behind \<open>emit_udp\<close>.\<close>

interpretation udp: output_invariant "emit_udp K s" None "\<lambda>w. documented_fds K fds \<and> fds w = F" for K s fds F
  by unfold_locales (auto simp: emit_udp_def send_packet_fds)

definition udp_log :: "aes67_sender \<Rightarrow> byte list list \<Rightarrow> (int \<times> byte list \<times> sockaddr) list" where
  "udp_log s ps = (case snd_dest s of Some d \<Rightarrow> if 0 \<le> snd_fd s then map (\<lambda>p. (snd_fd s, p, SockaddrIn d)) ps else [] | None \<Rightarrow> [])"

lemma udp_log_append: "udp_log s (ps @ qs) = udp_log s ps @ udp_log s qs"
  by (simp add: udp_log_def split: option.split)

lemma send_packet_trace:
  "documented_trace K sent \<Longrightarrow> sent (snd (aes67_send_packet K s p w)) = sent w @ udp_log s [p]"
  by (simp add: aes67_send_packet_def udp_log_def documented_traceD split: option.split)

lemma emit_list_udp:
  assumes "documented_trace K sent"
  shows "\<exists>w'. emit_list (emit_udp K s) ps w = Some w' \<and> sent w' = sent w @ udp_log s (map fst ps)"
proof (induction ps arbitrary: w)
  case Nil
  then show ?case by (simp add: udp_log_def split: option.split)
next
  case (Cons p ps)
  from Cons[of "snd (aes67_send_packet K s (fst p) w)"] show ?case
    using send_packet_trace[OF assms] udp_log_append[of s "[fst p]" "map fst ps"] by (auto simp: emit_udp_def)
qed

text \<open>The loop body of a replay, over the records a capture file holds, is the pipeline's run over their buffers.\<close>

lemma feed_pipeline:
  "feed (\<lambda>(pl, ctx) buf n. do { (rc, pl, ctx) \<leftarrow> pipeline_on_frame L pl buf n emit ctx; Some (pl, ctx) }) frs s
     = pipeline_run L emit frs s"
proof (induction frs arbitrary: s)
  case (Cons fr frs)
  show ?case by (cases s) (simp add: Cons.IH[symmetric] Option.bind_assoc case_prod_unfold)
qed simp

text \<open>A record of a capture that is a REAC frame, and its audio.\<close>

definition reac_records :: "byte list list \<Rightarrow> byte list list" where
  "reac_records bs = filter (\<lambda>b. well_formed b (length b)) bs"

lemma well_formed_take: "n \<le> length b \<Longrightarrow> well_formed b n = well_formed (take n b) n"
  by (auto simp: well_formed_def)

lemma wire_audio_take:
  assumes "mode_ok m" and "1492 \<le> n"
  shows "wire_audio_be m (take n b) = wire_audio_be m b"
proof -
  have "chunk (take n b) (50 + i * 3) 3 = chunk b (50 + i * 3) 3" if "i < nch_of m * sps_of m" for i
    using that mode_ok_nat(5)[OF assms(1)] assms(2) by (simp add: chunk_def drop_take min_def)
  then show ?thesis unfolding wire_audio_be_def by (intro arg_cong[where f = concat] map_cong) auto
qed

lemma frames_of_records:
  assumes "mode_ok m" and "\<forall>fr \<in> set frs. snd fr \<le> length (fst fr)" and "map (\<lambda>fr. take (snd fr) (fst fr)) frs = bs"
  shows "map (\<lambda>fr. wire_audio_be m (fst fr)) (filter is_frame frs) = map (wire_audio_be m) (reac_records bs)"
    and "map (\<lambda>fr. frame_counter (fst fr)) (filter is_frame frs) = map frame_counter (reac_records bs)"
proof -
  have "well_formed (take (snd fr) (fst fr)) (length (take (snd fr) (fst fr))) = is_frame fr" if "fr \<in> set frs" for fr
  proof -
    have fit: "snd fr \<le> length (fst fr)" using that assms(2) by blast
    then have "length (take (snd fr) (fst fr)) = snd fr" by simp
    then show ?thesis by (simp only: well_formed_take[OF fit, symmetric])
  qed
  then have recs: "reac_records bs = map (\<lambda>fr. take (snd fr) (fst fr)) (filter is_frame frs)"
    unfolding reac_records_def assms(3)[symmetric] filter_map by (auto cong: filter_cong)
  have "wire_audio_be m (take (snd fr) (fst fr)) = wire_audio_be m (fst fr)" if "is_frame fr" for fr
    using that by (intro wire_audio_take[OF assms(1)]) (simp add: well_formed_def)
  then show "map (\<lambda>fr. wire_audio_be m (fst fr)) (filter is_frame frs) = map (wire_audio_be m) (reac_records bs)" by (simp add: recs)
  have "frame_counter (take (snd fr) (fst fr)) = frame_counter (fst fr)" if "is_frame fr" for fr
    using that by (simp add: well_formed_def frame_counter_def)
  then show "map (\<lambda>fr. frame_counter (fst fr)) (filter is_frame frs) = map frame_counter (reac_records bs)" by (simp add: recs)
qed

text \<open>A well-formed capture file with the records \<open>rs\<close>.\<close>

definition capture_file :: "nat \<Rightarrow> pcap_rec list \<Rightarrow> cfile \<Rightarrow> bool" where
  "capture_file lb rs f \<longleftrightarrow> good_recs lb rs \<and> fl_pos f = 0 \<and>
     (\<exists>sw hdr. length hdr = 20 \<and> fl_data f = enc32 sw PCAP_MAGIC @ hdr @ pcap_bytes sw rs)"

lemma replay_capture:
  assumes "capture_file lb rs f" and "cap \<le> length buf"
  shows "\<exists>ps ps' frs. pcap_source_open (Some f) ps0 = Some (0, ps) \<and>
    (\<forall>body s. pcap_loop lb body ps buf cap s = do { s \<leftarrow> feed body frs s; Some (0, ps', s) }) \<and>
    map (\<lambda>fr. take (snd fr) (fst fr)) frs = filter (\<lambda>b. length b \<le> cap) (map pr_body rs) \<and>
    (\<forall>fr \<in> set frs. length (fst fr) = length buf \<and> snd fr \<le> cap)"
proof -
  obtain sw hdr where f: "f = \<lparr>fl_data = enc32 sw PCAP_MAGIC @ hdr @ pcap_bytes sw rs, fl_pos = 0\<rparr>" "length hdr = 20"
    using assms(1) by (cases f) (auto simp: capture_file_def)
  show ?thesis
    unfolding f(1) by (rule capture_replays[OF refl f(2) _ assms(2)]) (use assms(1) in \<open>simp add: capture_file_def\<close>)
qed

text \<open>What a replay hands to its output, whatever the output is: the packets of one stream.\<close>

lemma run_pcap_packets:
  fixes E :: "'w env" and w :: 'c
  assumes "documented_geometry (en_lib E)" and "mode_ok m" and "en_fopen E path = Some f" and "capture_file (en_long_bits E) rs f"
    and recs: "bs = reac_records (filter (\<lambda>b. length b \<le> 2048) (map pr_body rs))"
  shows "\<exists>log. (\<forall>emit (w :: 'c). run_pcap E ps path m emit pt ssrc w = do { w \<leftarrow> emit_list emit log w; Some (0, w) }) \<and>
    rtp_stream pt ssrc 0 m log \<and> map (\<lambda>x. drop 12 (fst x)) (filter (\<lambda>x. \<not> snd x) log) = map (wire_audio_be m) bs \<and>
    map snd log = conceal_flags (snd (clock_run (media_clock_init (samples_per_pkt m)) (map frame_counter bs))) \<and>
    length log \<le> 32768 * length bs"
proof -
  let ?L = "en_lib E" and ?buf = "replicate 2048 (0 :: byte)"
  let ?pl = "pipeline_init ?L m pt ssrc :: 'c pipeline"
  have buf: "2048 \<le> length ?buf" by simp
  obtain ps1 ps2 frs where opened: "pcap_source_open (Some f) ps = Some (0, ps1)"
    and loop: "\<forall>body s. pcap_loop (en_long_bits E) body ps1 ?buf 2048 (s :: 'c pipeline \<times> 'c) = do { s \<leftarrow> feed body frs s; Some (0, ps2, s) }"
    and rec: "map (\<lambda>fr. take (snd fr) (fst fr)) frs = filter (\<lambda>b. length b \<le> 2048) (map pr_body rs)"
    and fits: "\<forall>fr \<in> set frs. length (fst fr) = 2048 \<and> snd fr \<le> 2048"
    using replay_capture[OF assms(4) buf, of ps] unfolding length_replicate by (elim exE conjE)
  have fr: "\<forall>fr \<in> set frs. snd fr \<le> length (fst fr)" using fits by auto
  have pl: "pipeline_init ?L m pt ssrc = (pipeline_anchor (pipeline_init_ex ?L m pt ssrc 0 0) 0 :: 'c pipeline)"
    by (simp add: pipeline_init_def pipeline_anchor_def pipeline_init_ex_def media_clock_init_def)
  have ok: "pipeline_ok ?pl" "at_slot 0 0 ?pl" unfolding pl by (rule pipeline_start[OF assms(1,2)], simp)+
  obtain xs pl' where run: "\<forall>emit w. pipeline_run ?L emit frs (?pl, w) = do { w \<leftarrow> deliver_all ?pl emit xs w; Some (pl', w) }"
      and sum: "run_summary 0 0 ?pl frs xs pl'"
    using pipeline_run_summary[OF assms(1) ok fr] by blast
  have sel: "pl_pcm_sink ?pl = None" "pl_mode ?pl = m"
      "pl_rtp ?pl = \<lparr>rp_payload_type = pt, rp_seq = 0, rp_timestamp = 0, rp_ssrc = ssrc\<rparr>"
      "pl_clock ?pl = media_clock_init (samples_per_pkt m)"
    by (simp_all add: pipeline_init_def pipeline_init_ex_def)
  have "run_pcap E ps path m emit pt ssrc w = do { w \<leftarrow> emit_list emit (rtp_packets ?pl xs) w; Some (0, w) }" for emit and w :: 'c
    using opened loop assms(3) run deliver_all_emits[OF sel(1)]
    by (cases "emit_list emit (rtp_packets ?pl xs) w") (simp_all add: run_pcap_def feed_pipeline[simplified])
  moreover note audio = frames_of_records[OF assms(2) fr rec, folded recs]
  moreover have "length (rtp_packets ?pl xs) \<le> 32768 * length bs"
    using sum map_eq_imp_length_eq[OF audio(1)] by (simp add: run_summary_def rtp_packets_def)
  ultimately show ?thesis using packets_of_run(1,2,4)[OF assms(2) sel(2) sum fr sel(3)] sel(4) by auto
qed

text \<open>
  Replaying a capture sends its audio as one AES67 stream.  For a well-formed capture file, of either byte order, the daemon
  sends to the destination of its sender, and nowhere else, packets with the sequence numbers 0, 1, 2, \<dots> and
  time stamps one packet's samples apart; the payloads of the packets that are not concealment are, in
  order, the audio of exactly the records that are REAC frames; and it ends with status 0.
\<close>

theorem pcap_to_udp:
  fixes K :: "'c os" and E :: "'w env"
  assumes "documented_geometry (en_lib E)" and "mode_ok m" and "documented_trace K sent"
    and "en_fopen E path = Some f" and "capture_file (en_long_bits E) rs f"
  shows "\<exists>w' log. run_pcap E ps path m (emit_udp K s) pt ssrc w = Some (0, w') \<and>
    sent w' = sent w @ udp_log s (map fst log) \<and> rtp_stream pt ssrc 0 m log \<and>
    map (\<lambda>x. drop 12 (fst x)) (filter (\<lambda>x. \<not> snd x) log)
      = map (wire_audio_be m) (reac_records (filter (\<lambda>b. length b \<le> 2048) (map pr_body rs))) \<and>
    map snd log = conceal_flags (snd (clock_run (media_clock_init (samples_per_pkt m))
      (map frame_counter (reac_records (filter (\<lambda>b. length b \<le> 2048) (map pr_body rs))))))"
proof -
  obtain log where run: "\<forall>emit (w :: 'c). run_pcap E ps path m emit pt ssrc w = do { w \<leftarrow> emit_list emit log w; Some (0, w) }"
      and log: "rtp_stream pt ssrc 0 m log" "map (\<lambda>x. drop 12 (fst x)) (filter (\<lambda>x. \<not> snd x) log)
        = map (wire_audio_be m) (reac_records (filter (\<lambda>b. length b \<le> 2048) (map pr_body rs)))"
      "map snd log = conceal_flags (snd (clock_run (media_clock_init (samples_per_pkt m))
        (map frame_counter (reac_records (filter (\<lambda>b. length b \<le> 2048) (map pr_body rs))))))"
    using run_pcap_packets[OF assms(1,2,4,5) refl] by blast
  obtain w' where "emit_list (emit_udp K s) log w = Some w'" "sent w' = sent w @ udp_log s (map fst log)"
    using emit_list_udp[OF assms(3)] by blast
  then show ?thesis using run log by auto
qed

definition sample_file :: cfile where
  "sample_file = \<lparr>fl_data = enc32 False PCAP_MAGIC @ replicate 20 0 @ pcap_bytes False
     [sample_rec, sample_rec\<lparr>pr_body := sample_frame\<rparr>], fl_pos = 0\<rparr>"

definition sample_env :: "log_world env" where
  "sample_env = \<lparr>en_lib = libreac_doc, en_os = log_os, en_long_bits = 64, en_calloc = (\<lambda>_. True),
     en_fopen = (\<lambda>p. if p = ''stage.pcap'' then Some sample_file else None), en_stop = (\<lambda>w. lw_inbox w = []),
     en_ubus = \<lparr>ub_have = False, ub_calloc = False, ub_connect = False, ub_add_object = False\<rparr>, en_events = [],
     en_has_tai = True, en_tai = (0, \<lparr>tv_sec = 1, tv_nsec = 0\<rparr>), en_detect = (\<lambda>fd ms w. (48000, w)),
     en_mono = (\<lambda>_. \<lparr>tv_sec = 7, tv_nsec = 0\<rparr>),
     en_sleep = (\<lambda>t w. w\<lparr>lw_slept := lw_slept w @ [tv_sec t * 1000000000 + tv_nsec t]\<rparr>)\<rparr>"

definition sample_sender :: aes67_sender where
  "sample_sender = \<lparr>snd_fd = 3, snd_dest = Some \<lparr>sin_port = 5004, sin_addr = [239, 69, 10, 0]\<rparr>\<rparr>"

lemma sample_file_ok: "capture_file 64 [sample_rec, sample_rec\<lparr>pr_body := sample_frame\<rparr>] sample_file"
proof -
  have "sample_frame \<noteq> []" by (metis sample_frame_well_formed(1) list.size(3) zero_neq_numeral)
  then show ?thesis
    unfolding capture_file_def sample_file_def
    by (auto simp: good_recs_def rec_ok_def sample_rec_def intro!: exI[of _ False] exI[of _ "replicate 20 0"])
qed

lemma sample_records:
  "reac_records (filter (\<lambda>b. length b \<le> 2048) (map pr_body [sample_rec, sample_rec\<lparr>pr_body := sample_frame\<rparr>])) = [sample_frame]"
proof -
  have "well_formed sample_frame (length sample_frame)" "\<not> well_formed [10, 20, 30] (length [10 :: byte, 20, 30])"
      "length sample_frame \<le> 2048"
    by (simp_all add: well_formed_def[of "[10, 20, 30]"])
  then show ?thesis by (simp add: reac_records_def sample_rec_def)
qed

theorem pcap_to_udp_witness:
  "\<exists>w' log. run_pcap sample_env undefined ''stage.pcap'' mode_48k (emit_udp log_os sample_sender) 97 7 log_start = Some (0, w') \<and>
     lw_sent w' = udp_log sample_sender (map fst log) \<and>
     map (\<lambda>x. drop 12 (fst x)) (filter (\<lambda>x. \<not> snd x) log) = [wire_audio_be mode_48k sample_frame]"
proof -
  let ?rs = "[sample_rec, sample_rec\<lparr>pr_body := sample_frame\<rparr>]"
  have "documented_geometry (en_lib sample_env)" "en_fopen sample_env ''stage.pcap'' = Some sample_file"
      "capture_file (en_long_bits sample_env) ?rs sample_file"
    using sample_file_ok by (simp_all add: sample_env_def)
  from pcap_to_udp[OF this(1) mode_48k_ok log_os_documented(3) this(2,3), of undefined sample_sender 97 7 log_start, unfolded sample_records]
  show ?thesis by (elim exE conjE) (intro exI conjI, assumption, simp_all add: log_start_def)
qed

subsection \<open>Live\<close>

text \<open>The calls of the live loop keep the open descriptors.\<close>

lemma sap_announce_fds: "documented_fds K fds \<Longrightarrow> fds (sap_announce K sa w) = fds w"
  by (simp add: sap_announce_def send_packet_fds split: option.split)

lemma wanted_cases:
  assumes "do { x \<leftarrow> W; if \<not> x then A else do { (rc, pl, w) \<leftarrow> F; B pl w } } = Some r"
  obtains "A = Some r" | rc pl w where "F = Some (rc, pl, w)" "B pl w = Some r"
  using assms by (cases W; cases F) (auto split: if_splits)

lemma drain_fds:
  assumes "listen_drain E bo s cap buf lc = Some lc'" and "documented_fds (en_os E) fds" and "pl_pcm_sink (lc_pl lc) = None"
  shows "fds (lc_w lc') = fds (lc_w lc) \<and> pl_pcm_sink (lc_pl lc') = None \<and> lc_sap lc' = lc_sap lc"
proof -
  let ?P = "\<lambda>E (bo :: bool) (s :: aes67_sender) (cap :: reac_capture) (buf :: byte list) lc lc'.
    documented_fds (en_os E) fds \<longrightarrow> pl_pcm_sink (lc_pl lc) = None \<longrightarrow>
      fds (lc_w lc') = fds (lc_w lc) \<and> pl_pcm_sink (lc_pl lc') = None \<and> lc_sap lc' = lc_sap lc"
  have "?P E bo s cap buf lc lc'"
    using assms(1)
  proof (rule listen_drain.raw_induct[where P = ?P, rotated], intro impI)
    fix f :: "'a env \<Rightarrow> bool \<Rightarrow> aes67_sender \<Rightarrow> reac_capture \<Rightarrow> byte list \<Rightarrow> 'a listen_ctx \<Rightarrow> 'a listen_ctx option"
      and E bo s cap buf lc lc'
    assume IH: "\<And>E bo s cap buf lc lc'. f E bo s cap buf lc = Some lc' \<Longrightarrow> ?P E bo s cap buf lc lc'"
      and K: "documented_fds (en_os E) fds" and sink: "pl_pcm_sink (lc_pl lc) = None"
      and step: "do {
       (n, buf, w) \<leftarrow> reac_capture_next (en_os E) cap buf 2048 (lc_w lc);
       let lc = lc\<lparr>lc_w := w\<rparr>;
       if n > 0 then do {
         wanted \<leftarrow> frame_wanted bo buf n;
         if \<not> wanted then f E bo s cap buf lc
         else do {
           (rc, pl, w) \<leftarrow> pipeline_on_frame (en_lib E) (lc_pl lc) buf (nat n) (emit_udp (en_os E) s) (lc_w lc);
           f E bo s cap buf (lc\<lparr>lc_pl := pl, lc_w := w, lc_pkts := (lc_pkts lc + 1) mod 2 ^ en_long_bits E\<rparr>)
         }
       } else Some lc
     } = Some lc'"
    obtain n buf1 w1 where r: "reac_capture_next (en_os E) cap buf 2048 (lc_w lc) = Some (n, buf1, w1)"
      using step by (rule bind_some3)
    have w1: "fds w1 = fds (lc_w lc)" using capture_next_fds[OF r K] by simp
    have frame: "fds w2 = fds w1 \<and> pl_pcm_sink pl2 = None"
      if "pipeline_on_frame (en_lib E) (lc_pl lc) buf1 (nat n) (emit_udp (en_os E) s) w1 = Some (rc, pl2, w2)" for rc pl2 w2
      using udp.on_frame_keeps[OF that _ sink, of fds "fds w1"] K by simp
    define lc1 where "lc1 = lc\<lparr>lc_w := w1\<rparr>"
    define nxt where "nxt pl w = lc1\<lparr>lc_pl := pl, lc_w := w, lc_pkts := (lc_pkts lc1 + 1) mod 2 ^ en_long_bits E\<rparr>" for pl w
    have lc1: "lc_w lc1 = w1" "lc_pl lc1 = lc_pl lc" "lc_sap lc1 = lc_sap lc" "lc_w (nxt pl w) = w" "lc_pl (nxt pl w) = pl"
        "lc_sap (nxt pl w) = lc_sap lc" for pl w
      by (simp_all add: lc1_def nxt_def)
    have outcome: "(if n > 0 then do {
         wanted \<leftarrow> frame_wanted bo buf1 n;
         if \<not> wanted then f E bo s cap buf1 lc1
         else do {
           (rc, pl, w) \<leftarrow> pipeline_on_frame (en_lib E) (lc_pl lc) buf1 (nat n) (emit_udp (en_os E) s) w1;
           f E bo s cap buf1 (nxt pl w)
         }
       } else Some lc1) = Some lc'"
      using step r by (simp add: Let_def nxt_def lc1_def cong: if_cong)
    show "fds (lc_w lc') = fds (lc_w lc) \<and> pl_pcm_sink (lc_pl lc') = None \<and> lc_sap lc' = lc_sap lc"
    proof (cases "n > 0")
      case False
      then have "lc' = lc1" using outcome by simp
      then show ?thesis using w1 sink lc1 by simp
    next
      case True
      from outcome[unfolded if_P[OF True]] show ?thesis
      proof (cases rule: wanted_cases)
        case 1
        from IH[OF this] K sink w1 show ?thesis by (simp add: lc1)
      next
        case (2 rc pl2 w2)
        from IH[OF 2(2)] frame[OF 2(1)] K w1 show ?thesis by (simp add: lc1)
      qed
    qed
  qed
  then show ?thesis using assms by blast
qed

lemma loop_fds:
  assumes "listen_loop E bo s cap sap pps buf fc pl w = Some r" and "documented_fds (en_os E) fds" and "pl_pcm_sink pl = None"
  shows "fds (snd r) = fds w"
proof -
  let ?P = "\<lambda>E (bo :: bool) (s :: aes67_sender) (cap :: reac_capture) (sap :: sap_announcer) (pps :: int) (buf :: byte list)
      (fc :: nat) pl w r. documented_fds (en_os E) fds \<longrightarrow> pl_pcm_sink pl = None \<longrightarrow> fds (snd r) = fds w"
  have "?P E bo s cap sap pps buf fc pl w r"
    using assms(1)
  proof (rule listen_loop.raw_induct[where P = ?P, rotated], intro impI)
    fix f :: "'a env \<Rightarrow> bool \<Rightarrow> aes67_sender \<Rightarrow> reac_capture \<Rightarrow> sap_announcer \<Rightarrow> int \<Rightarrow> byte list \<Rightarrow> nat \<Rightarrow> 'a pipeline \<Rightarrow> 'a \<Rightarrow>
        ('a pipeline \<times> 'a) option" and E bo s cap sap pps buf fc pl w r
    assume IH: "\<And>E bo s cap sap pps buf fc pl w r. f E bo s cap sap pps buf fc pl w = Some r \<Longrightarrow> ?P E bo s cap sap pps buf fc pl w r"
      and K: "documented_fds (en_os E) fds" and sink: "pl_pcm_sink pl = None"
      and step: "(if en_stop E w then Some (pl, w)
      else do {
        (n, buf, w) \<leftarrow> reac_capture_next (en_os E) cap buf 2048 w;
        if n < 0 then Some (pl, w)
        else if n = 0 then f E bo s cap sap pps buf fc pl (sap_announce (en_os E) (Some sap) w)
        else do {
          wanted \<leftarrow> frame_wanted bo buf n;
          if \<not> wanted then f E bo s cap sap pps buf fc pl w
          else do {
            (rc, pl, w) \<leftarrow> pipeline_on_frame (en_lib E) pl buf (nat n) (emit_udp (en_os E) s) w;
            if pps > 0 then
              (let fc = (fc + 1) mod 2 ^ en_long_bits E;
                   w = (if fc mod nat pps = 0 then sap_announce (en_os E) (Some sap) w else w)
               in f E bo s cap sap pps buf fc pl w)
            else f E bo s cap sap pps buf fc pl w
          }
        }
      }) = Some r"
    show "fds (snd r) = fds w"
    proof (cases "en_stop E w")
      case True
      then show ?thesis using step by auto
    next
      case False
      note step' = step[unfolded if_not_P[OF False]]
      obtain n buf1 w1 where c: "reac_capture_next (en_os E) cap buf 2048 w = Some (n, buf1, w1)"
        using step' by (rule bind_some3)
      have w1: "fds w1 = fds w" using capture_next_fds[OF c K] by simp
      note step2 = step'[unfolded c bind.bind_lunit prod.case]
      consider "n < 0" | "n = 0" | "n > 0" by linarith
      then show ?thesis
      proof cases
        case 1
        from step2[unfolded if_P[OF 1]] have "r = (pl, w1)" by simp
        then show ?thesis using w1 by simp
      next
        case 2
        then have "\<not> n < 0" by simp
        from IH[OF step2[unfolded if_not_P[OF this] if_P[OF 2]]] K sink w1 show ?thesis by (simp add: sap_announce_fds[OF K])
      next
        case 3
        then have "\<not> n < 0" "n \<noteq> 0" by simp_all
        from step2[unfolded if_not_P[OF this(1)] if_not_P[OF this(2)]] show ?thesis
        proof (cases rule: wanted_cases)
          case 1
          from IH[OF this] K sink w1 show ?thesis by simp
        next
          case (2 rc pl2 w2)
          have k2: "fds w2 = fds w1 \<and> pl_pcm_sink pl2 = None"
            using udp.on_frame_keeps[OF 2(1) _ sink, of fds "fds w1"] K by simp
          obtain fc3 w3 where "f E bo s cap sap pps buf1 fc3 pl2 w3 = Some r" "fds w3 = fds w2"
            using 2(2) sap_announce_fds[OF K] by (cases "pps > 0") (auto simp: Let_def)
          with IH[OF this(1)] K k2 w1 show ?thesis by simp
        qed
      qed
    qed
  qed
  then show ?thesis using assms by blast
qed

lemma announcer_fds:
  assumes "documented_fds (en_os E) fds" and "listen_announcer E m pt name udp ttl do_sap origin iface w = Some (sap, w')"
  shows "0 \<le> snd_fd (sa_snd sap) \<or> \<not> sa_active sap"
    and "if sa_active sap then snd_fd (sa_snd sap) \<notin> fds w \<and> fds w' = insert (snd_fd (sa_snd sap)) (fds w) else fds w' = fds w"
proof -
  from assms(2) consider "\<not> sa_active sap" "w' = w"
    | rc sa0 port host w1 where "sap_announcer_start (en_os E) (en_calloc E w) sa0 name host port (uint pt) (sample_rate m)
          (n_channels m) ttl origin iface w = Some (rc, sap, w1)" "w' = (if rc = 0 then sap_announce (en_os E) (Some sap) w1 else w1)"
    by (auto simp: listen_announcer_def Let_def bind_eq_Some_conv split: option.splits if_splits)
  then have "(0 \<le> snd_fd (sa_snd sap) \<or> \<not> sa_active sap) \<and>
    (if sa_active sap then snd_fd (sa_snd sap) \<notin> fds w \<and> fds w' = insert (snd_fd (sa_snd sap)) (fds w) else fds w' = fds w)"
  proof cases
    case (2 rc sa0 port host w1)
    with announcer_start_fds[OF assms(1) 2(1)] sap_announce_fds[OF assms(1)] show ?thesis by (simp split: if_splits)
  qed simp
  then show "0 \<le> snd_fd (sa_snd sap) \<or> \<not> sa_active sap"
    "if sa_active sap then snd_fd (sa_snd sap) \<notin> fds w \<and> fds w' = insert (snd_fd (sa_snd sap)) (fds w) else fds w' = fds w"
    by blast+
qed

lemma session_fds:
  assumes "documented_fds (en_os E) fds" and "listen_session E bo m s cap pl us sap w = Some w'" and "pl_pcm_sink pl = None"
  shows "fds w' = fds w"
proof -
  define w1 where "w1 = snd (reac_capture_set_nonblock (en_os E) cap True w)"
  have w1: "fds w1 = fds w" unfolding w1_def by (rule set_nonblock_fds[OF assms(1)])
  let ?lc = "\<lparr>lc_pl = pl, lc_us = us, lc_sap = sap, lc_pkts = 0, lc_replies = [], lc_w = w1\<rparr>"
  let ?I = "\<lambda>lc. fds (lc_w lc) = fds w \<and> pl_pcm_sink (lc_pl lc) = None"
  have r: "?I lc'" if "?I lc" "listen_on_readable E bo s cap lc = Some lc'" for lc lc'
    using drain_fds[OF that(2)[unfolded listen_on_readable_def] assms(1)] that(1) by simp
  have p: "?I lc'" if I: "?I lc" and run: "listen_on_publish E m lc = Some lc'" for lc lc'
  proof -
    have "lc_w lc' = sap_announce (en_os E) (Some (lc_sap lc)) (lc_w lc) \<and> lc_pl lc' = lc_pl lc"
      using run unfolding listen_on_publish_def by (cases "c_div (sample_rate m) (samples_per_pkt m)") (auto simp: Let_def)
    then show ?thesis using I sap_announce_fds[OF assms(1)] by simp
  qed
  obtain urc lc where run: "ubus_stats_run (en_ubus E) (us \<noteq> None) (listen_on_readable E bo s cap)
      (listen_on_publish E m) listen_answer 1 (en_events E) ?lc = Some (urc, lc)"
    and fin: "if urc \<noteq> 0 then \<exists>pps r. listen_loop E bo s cap sap pps (replicate 2048 0) 0 (lc_pl lc)
        (snd (reac_capture_set_nonblock (en_os E) cap False (lc_w lc))) = Some (r, w') else w' = lc_w lc"
    using assms(2) unfolding listen_session_def Let_def w1_def case_prod_unfold
    by (auto simp: bind_eq_Some_conv split: if_splits) blast+
  have lc: "?I lc"
  proof -
    from run consider "lc = ?lc" | "uloop_run (listen_on_readable E bo s cap) (listen_on_publish E m) listen_answer 1 (en_events E) ?lc = Some lc"
      by (auto simp: ubus_stats_run_def bind_eq_Some_conv split: if_splits)
    then show ?thesis
    proof cases
      case 1
      then show ?thesis using w1 assms(3) by simp
    next
      case 2
      show ?thesis by (rule uloop_run_inv[where P = ?I, OF r p _ 2]) (use w1 assms(3) in \<open>simp_all add: listen_answer_def\<close>)
    qed
  qed
  show ?thesis
  proof (cases "urc = 0")
    case False
    then obtain pps r where "listen_loop E bo s cap sap pps (replicate 2048 0) 0 (lc_pl lc)
        (snd (reac_capture_set_nonblock (en_os E) cap False (lc_w lc))) = Some (r, w')" using fin by auto
    from loop_fds[OF this assms(1)] lc set_nonblock_fds[OF assms(1)] show ?thesis by simp
  qed (use fin lc in simp)
qed

text \<open>
  Live mode leaks no descriptor.  However the run ends, by a signal, a capture error or the end of the event loop, with or without the
  announcer and in both builds of the statistics, the descriptors open after \<open>run_listen\<close> returns are those open before.
\<close>

theorem run_listen_fds:
  assumes "documented_fds (en_os E) fds"
    and "run_listen E bo ifname m s pt ssrc name udp hex xfade fade ttl do_sap origin iface w = Some (rc, w')"
  shows "fds w' = fds w"
proof -
  let ?K = "en_os E" and ?pl = "pipeline_init_ex (en_lib E) m pt ssrc xfade fade"
  obtain orc cap w1 where o: "reac_capture_open ?K ifname w = (orc, cap, w1)" by (metis prod.collapse)
  obtain c' w1' where cl: "reac_capture_close ?K cap w1 = (c', w1')" by fastforce
  note cap = capture_fds[OF assms(1) o cl]
  show ?thesis
  proof (cases "orc = 0")
    case False
    then show ?thesis using assms(2) o cap by (auto simp: run_listen_def)
  next
    case True
    then have cap': "0 \<le> cap_fd cap" "cap_fd cap \<notin> fds w" "fds w1 = insert (cap_fd cap) (fds w)" using cap by simp_all
    obtain us sap w2 w3 where a: "listen_announcer E m pt name udp ttl do_sap origin iface w1 = Some (sap, w2)"
      and b: "listen_session E bo m s cap ?pl us sap w2 = Some w3"
      and w': "w' = snd (reac_capture_close ?K cap (snd (sap_announcer_stop ?K sap w3)))"
      using assms(2) True o unfolding run_listen_def Let_def
      by (auto simp: bind_eq_Some_conv case_prod_unfold split: if_splits)
    have "fds w3 = fds w2" by (rule session_fds[OF assms(1) b]) (simp add: pipeline_init_ex_def)
    then have "fds (snd (sap_announcer_stop ?K sap w3)) = fds w1"
      using announcer_fds[OF assms(1) a] announcer_stop_fds[OF assms(1), of sap w3]
      by (cases "sa_active sap") (simp_all add: sap_announcer_stop_def)
    then show ?thesis
      using cap' documented_fdsD(3)[OF assms(1)] unfolding w' by (simp add: reac_capture_close_def)
  qed
qed

lemma sample_session:
  "listen_session sample_env bo mode_48k s cap pl us sap (w\<lparr>lw_inbox := []\<rparr>) = Some (w\<lparr>lw_inbox := []\<rparr>)"
proof -
  have n: "reac_capture_set_nonblock log_os c nb v = (if cap_fd c < 0 then - 1 else 0, v)" for c nb v
    by (simp add: reac_capture_set_nonblock_def)
  have l: "listen_loop sample_env bo s cap sap pps buf fc pl (w\<lparr>lw_inbox := []\<rparr>) = Some (pl, w\<lparr>lw_inbox := []\<rparr>)" for pps buf fc
    by (subst listen_loop.simps) (simp add: sample_env_def)
  have e: "en_os sample_env = log_os" "\<not> ub_have (en_ubus sample_env)" by (simp_all add: sample_env_def)
  show ?thesis by (simp add: listen_session_def ubus_stats_run_def e n l c_div_pos)
qed

theorem run_listen_fds_witness:
  "\<exists>w'. run_listen sample_env False ''reac0'' mode_48k sample_sender 97 7 None None None 0 0 1 True None None log_start = Some (0, w') \<and>
     lw_fds w' = {}"
proof -
  have o: "reac_capture_open log_os ''reac0'' log_start = (0, \<lparr>cap_fd = 3\<rparr>, log_start\<lparr>lw_fds := {3}, lw_next := 4\<rparr>)"
    by (simp add: reac_capture_open_def log_start_def ifr_name_def IFNAMSIZ_def)
  have e: "en_os sample_env = log_os" by (simp add: sample_env_def)
  have w: "(log_start\<lparr>lw_fds := {3}, lw_next := 4\<rparr>)\<lparr>lw_inbox := []\<rparr> = log_start\<lparr>lw_fds := {3}, lw_next := 4\<rparr>"
    by (simp add: log_start_def)
  obtain w' where r: "run_listen sample_env False ''reac0'' mode_48k sample_sender 97 7 None None None 0 0 1 True None None log_start = Some (0, w')"
    using sample_session[where w = "log_start\<lparr>lw_fds := {3}, lw_next := 4\<rparr>", unfolded w]
    by (simp add: run_listen_def e o listen_announcer_def case_prod_unfold Let_def)
  then show ?thesis
    using run_listen_fds[of sample_env lw_fds, OF _ r] by (simp add: e log_start_def)
qed

end
