(* ===== verification/Daemon_Live.thy ===== *)
theory Daemon_Live
  imports Daemon
begin

text \<open>
  What the live mode of the daemon puts on the network.  The traffic is finite: the process is told to stop when the last frame
  has arrived.
\<close>

subsection \<open>The live stream\<close>

text \<open>The frames a live run feeds to the pipeline.\<close>

definition broadcast :: "byte list \<Rightarrow> bool" where
  "broadcast f \<longleftrightarrow> 6 \<le> length f \<and> take 6 f = replicate 6 0xff"

definition taken :: "bool \<Rightarrow> byte list list \<Rightarrow> byte list list" where
  "taken bo fs = filter (\<lambda>f. bo \<longrightarrow> broadcast f) (arriving 2048 fs)"

lemma and_all_ones: "((a :: byte) AND b) = 0xff \<longleftrightarrow> a = 0xff \<and> b = 0xff"
proof -
  have ff: "(0xff :: byte) = - 1" by simp
  show ?thesis unfolding ff by (rule and_eq_minus_1_iff)
qed

lemma frame_wanted_eq:
  assumes "nat n \<le> length buf" and "0 < n"
  shows "frame_wanted bo buf n = Some (bo \<longrightarrow> broadcast (take (nat n) buf))"
proof (cases "bo \<and> 6 \<le> n")
  case True
  then have len: "6 \<le> length buf" using assms by linarith
  have "take 6 (take (nat n) buf) = take 6 buf" using True by (simp add: min_def) linarith
  also have "\<dots> = [buf ! 0, buf ! 1, buf ! 2, buf ! 3, buf ! 4, buf ! 5]"
    using len by (intro nth_equalityI) (auto simp: less_Suc_eq numeral_eq_Suc)
  finally have t: "take 6 (take (nat n) buf) = [buf ! 0, buf ! 1, buf ! 2, buf ! 3, buf ! 4, buf ! 5]" .
  have "6 \<le> length (take (nat n) buf)" using True len by simp linarith
  moreover have "replicate 6 (0xff :: byte) = [0xff, 0xff, 0xff, 0xff, 0xff, 0xff]" by (simp add: numeral_eq_Suc)
  ultimately have b: "broadcast (take (nat n) buf) \<longleftrightarrow> buf ! 0 = 0xff \<and> buf ! 1 = 0xff \<and> buf ! 2 = 0xff \<and> buf ! 3 = 0xff \<and>
      buf ! 4 = 0xff \<and> buf ! 5 = 0xff"
    unfolding broadcast_def t by auto
  show ?thesis using True len by (auto simp: frame_wanted_def and_all_ones b rd_def)
next
  case False
  then show ?thesis using assms by (auto simp: frame_wanted_def broadcast_def)
qed

text \<open>Where the concealed packets stand in the stream of the frames \<open>fs\<close>: before each packet of a frame as many as were lost.\<close>

definition concealed_at :: "reac_mode \<Rightarrow> byte list list \<Rightarrow> bool list" where
  "concealed_at m fs = conceal_flags (snd (clock_run (media_clock_init (samples_per_pkt m)) (map frame_counter fs)))"

definition media :: "aes67_sender \<Rightarrow> (int \<times> byte list \<times> sockaddr) list \<Rightarrow> (int \<times> byte list \<times> sockaddr) list" where
  "media s xs = filter (\<lambda>x. fst x = snd_fd s) xs"

lemma media_append: "media s (xs @ ys) = media s xs @ media s ys" by (simp add: media_def)
lemma media_log: "media s (udp_log s ps) = udp_log s ps"
  by (auto simp: media_def udp_log_def filter_map o_def split: option.splits)

lemma emit_list_pending:
  assumes "documented_inbox K pending" and "emit_list (emit_udp K s) ps w = Some w'"
  shows "pending w' = pending w"
  using assms(2)
proof (induction ps arbitrary: w)
  case (Cons p ps)
  have "pending (snd (aes67_send_packet K s (fst p) w)) = pending w"
    by (simp add: aes67_send_packet_def documented_inboxD(3)[OF assms(1)] split: option.split)
  with Cons show ?case by (simp add: emit_udp_def)
qed simp

lemma announce_quiet:
  assumes "documented_inbox K pending" and "documented_trace K sent" and "\<not> sa_active sap \<or> snd_fd (sa_snd sap) \<noteq> snd_fd s"
  shows "pending (sap_announce K (Some sap) w) = pending w"
    and "media s (sent (sap_announce K (Some sap) w)) = media s (sent w)"
proof -
  show "pending (sap_announce K (Some sap) w) = pending w"
    by (simp add: sap_announce_def aes67_send_packet_def documented_inboxD(3)[OF assms(1)] split: option.split)
  show "media s (sent (sap_announce K (Some sap) w)) = media s (sent w)"
    using assms(3) by (auto simp: sap_announce_def send_packet_trace[OF assms(2)] media_append udp_log_def media_def split: option.split)
qed

text \<open>
  What the daemon has done between two moments: it has taken the frames \<open>frs\<close> from the link, and the pipeline has put the blocks \<open>xs\<close> on the
  media socket.
\<close>

definition streamed ::
  "bool \<Rightarrow> aes67_sender \<Rightarrow> ('w \<Rightarrow> byte list list) \<Rightarrow> ('w \<Rightarrow> (int \<times> byte list \<times> sockaddr) list) \<Rightarrow> u32 \<Rightarrow> nat \<Rightarrow> 'w pipeline \<times> 'w \<Rightarrow>
   (byte list \<times> nat) list \<Rightarrow> pushed list \<Rightarrow> 'w pipeline \<times> 'w \<Rightarrow> bool" where
  "streamed bo s pending sent A n = (\<lambda>(pl, w) frs xs (pl', w'). run_summary A n pl frs xs pl' \<and> (\<forall>fr \<in> set frs. snd fr \<le> length (fst fr)) \<and>
     taken bo (pending w) = map (\<lambda>fr. take (snd fr) (fst fr)) frs @ taken bo (pending w') \<and> pl_pcm_sink pl' = None \<and>
     media s (sent w') = media s (sent w) @ udp_log s (map fst (rtp_packets pl xs)))"

lemma streamed_quiet:
  assumes "pipeline_ok pl" and "at_slot A n pl" and "pl_pcm_sink pl = None"
    and "taken bo (pending w') = taken bo (pending w)" and "media s (sent w') = media s (sent w)"
  shows "streamed bo s pending sent A n (pl, w) [] [] (pl, w')"
  using assms by (simp add: streamed_def run_summary_def same_output_def in_slots_def rtp_packets_def udp_log_def split: option.split)

lemma streamed_trans:
  assumes a: "streamed bo s pending sent A n (pl, w) frs xs (pl1, w1)" and b: "streamed bo s pending sent A (n + length xs) (pl1, w1) grs ys (pl2, w2)"
    and sink: "pl_pcm_sink pl = None"
  shows "streamed bo s pending sent A n (pl, w) (frs @ grs) (xs @ ys) (pl2, w2)"
proof -
  have sum: "run_summary A n pl frs xs pl1" "run_summary A (n + length xs) pl1 grs ys pl2" using a b by (simp_all add: streamed_def)
  have "rtp_packets pl (xs @ ys) = rtp_packets pl xs @ rtp_packets pl1 ys"
    by (rule rtp_packets_append[OF sink]) (use sum(1) in \<open>simp add: run_summary_def\<close>)
  then show ?thesis using a b run_summary_trans(1)[OF sum] by (auto simp: streamed_def udp_log_append)
qed

text \<open>A frame that is wanted goes through the pipeline.\<close>

lemma streamed_frame:
  assumes env: "documented_geometry L" "documented_inbox K pending" "documented_trace K sent"
    and pl: "pipeline_ok pl" "at_slot A n pl" "pl_pcm_sink pl = None" and fit: "k \<le> length buf"
    and arr: "taken bo (pending w) = take k buf # taken bo (pending w1)" and same: "sent w1 = sent w"
  shows "\<exists>rc pl1 w2 xs. pipeline_on_frame L pl buf k (emit_udp K s) w1 = Some (rc, pl1, w2) \<and> pending w2 = pending w1 \<and>
    streamed bo s pending sent A n (pl, w) [(buf, k)] xs (pl1, w2)"
proof -
  obtain rc xs pl1 where f: "\<forall>emit w. pipeline_on_frame L pl buf k emit w = do { w \<leftarrow> deliver_all pl emit xs w; Some (rc, pl1, w) }"
      and sum: "run_summary A n pl [(buf, k)] xs pl1"
    using on_frame_summary[OF env(1) pl(1,2) fit] by blast
  obtain w2 where w2: "emit_list (emit_udp K s) (rtp_packets pl xs) w1 = Some w2" "sent w2 = sent w1 @ udp_log s (map fst (rtp_packets pl xs))"
    using emit_list_udp[OF env(3)] by blast
  have "pl_pcm_sink pl1 = None" using sum pl(3) by (simp add: run_summary_def same_output_def foldl_after_block)
  moreover have "pending w2 = pending w1" by (rule emit_list_pending[OF env(2) w2(1)])
  ultimately show ?thesis
    using f w2 deliver_all_emits[OF pl(3)] sum fit arr same by (intro exI[of _ rc] exI[of _ pl1] exI[of _ w2] exI[of _ xs])
      (simp add: streamed_def media_append media_log)
qed

text \<open>A read from the link: a frame for the pipeline, one that is not wanted, or none.\<close>

lemma link_read:
  assumes env: "documented_inbox K pending" "documented_trace K sent" and cap: "0 \<le> cap_fd cap" and buf: "length buf = 2048" and some: "pending w \<noteq> []"
  shows "\<exists>k buf1 w1. reac_capture_next K cap buf 2048 w = Some (k, buf1, w1) \<and> length buf1 = 2048 \<and> sent w1 = sent w \<and>
    length (pending w1) < length (pending w) \<and> (k < 0 \<longrightarrow> pending w1 = []) \<and> nat k \<le> length buf1 \<and>
    (k > 0 \<longrightarrow> frame_wanted bo buf1 k = Some (bo \<longrightarrow> broadcast (take (nat k) buf1))) \<and>
    taken bo (pending w) = (if k > 0 \<and> (bo \<longrightarrow> broadcast (take (nat k) buf1)) then [take (nat k) buf1] else []) @ taken bo (pending w1)"
proof -
  obtain k buf1 w1 where r: "reac_capture_next K cap buf 2048 w = Some (k, buf1, w1)" "length buf1 = 2048" "sent w1 = sent w"
      "length (pending w1) < length (pending w)" "k < 0 \<longrightarrow> pending w1 = []"
    and arr: "if k > 0 then nat k \<le> 2048 \<and> arriving 2048 (pending w) = take (nat k) buf1 # arriving 2048 (pending w1)
       else arriving 2048 (pending w) = arriving 2048 (pending w1)"
    using capture_next_arriving[OF env cap _ some, of 2048 buf] unfolding buf by blast
  have "nat k \<le> length buf1" using arr r(2) by (cases "k > 0") auto
  then show ?thesis using r arr frame_wanted_eq[of k buf1 bo] by (cases "k > 0") (auto simp: taken_def)
qed

lemma loop_streams:
  assumes env: "documented_geometry (en_lib E)" "documented_inbox (en_os E) pending" "documented_trace (en_os E) sent"
      "\<And>w. en_stop E w = (pending w = [])" "0 \<le> cap_fd cap" "\<not> sa_active sap \<or> snd_fd (sa_snd sap) \<noteq> snd_fd s"
    and "pipeline_ok pl" and "at_slot A n pl" and "pl_pcm_sink pl = None" and "length buf = 2048"
  shows "\<exists>pl' w' frs xs. listen_loop E bo s cap sap pps buf fc pl w = Some (pl', w') \<and> pending w' = [] \<and>
    streamed bo s pending sent A n (pl, w) frs xs (pl', w')"
  using assms(7-)
proof (induction "length (pending w)" arbitrary: w pl n buf fc rule: less_induct)
  case less
  let ?K = "en_os E" and ?L = "en_lib E"
  note quiet = announce_quiet[OF env(2,3,6)] and still = streamed_quiet[OF less.prems(1-3)]
  show ?case
  proof (cases "pending w = []")
    case True
    then have "listen_loop E bo s cap sap pps buf fc pl w = Some (pl, w)" using env(4) by (subst listen_loop.simps) simp
    with True show ?thesis using still[of bo pending w w s sent] by blast
  next
    case False
    obtain k buf1 w1 where r: "reac_capture_next ?K cap buf 2048 w = Some (k, buf1, w1)" "length buf1 = 2048" "sent w1 = sent w"
        "length (pending w1) < length (pending w)" "k < 0 \<longrightarrow> pending w1 = []" "nat k \<le> length buf1"
        "k > 0 \<longrightarrow> frame_wanted bo buf1 k = Some (bo \<longrightarrow> broadcast (take (nat k) buf1))"
        "taken bo (pending w) = (if k > 0 \<and> (bo \<longrightarrow> broadcast (take (nat k) buf1)) then [take (nat k) buf1] else []) @ taken bo (pending w1)"
      using link_read[OF env(2,3,5) less.prems(4) False] by blast
    let ?hit = "k > 0 \<and> (bo \<longrightarrow> broadcast (take (nat k) buf1))"
    obtain frs xs fc' pl1 w2 where go: "listen_loop E bo s cap sap pps buf fc pl w
          = (if k < 0 then Some (pl1, w2) else listen_loop E bo s cap sap pps buf1 fc' pl1 w2)"
        and w2: "pending w2 = pending w1" "streamed bo s pending sent A n (pl, w) frs xs (pl1, w2)"
    proof (cases ?hit)
      case True
      obtain rc pl1 w2 xs where f: "pipeline_on_frame ?L pl buf1 (nat k) (emit_udp ?K s) w1 = Some (rc, pl1, w2)" "pending w2 = pending w1"
          "streamed bo s pending sent A n (pl, w) [(buf1, nat k)] xs (pl1, w2)"
        using streamed_frame[OF env(1-3) less.prems(1-3) r(6), where w = w and ?w1.0 = w1 and bo = bo and s = s] r(3,8) True by auto
      define fc2 where "fc2 = (if pps > 0 then (fc + 1) mod 2 ^ en_long_bits E else fc)"
      define w3 where "w3 = (if pps > 0 \<and> fc2 mod nat pps = 0 then sap_announce ?K (Some sap) w2 else w2)"
      have "listen_loop E bo s cap sap pps buf fc pl w = listen_loop E bo s cap sap pps buf1 fc2 pl1 w3"
        using False env(4) r(1,7) True f(1) by (subst listen_loop.simps) (auto simp: fc2_def w3_def Let_def)
      moreover have "pending w3 = pending w1" "media s (sent w3) = media s (sent w2)" using f(2) quiet[of w2] by (simp_all add: w3_def)
      moreover have "streamed bo s pending sent A n (pl, w) [(buf1, nat k)] xs (pl1, w3)"
        using f(2,3) calculation(2,3) by (simp add: streamed_def)
      ultimately show ?thesis using that True by auto
    next
      case miss: False
      define w2 where "w2 = (if k = 0 then sap_announce ?K (Some sap) w1 else w1)"
      have p: "pending w2 = pending w1" "media s (sent w2) = media s (sent w)" using quiet[of w1] r(3) by (simp_all add: w2_def)
      have "listen_loop E bo s cap sap pps buf fc pl w = (if k < 0 then Some (pl, w2) else listen_loop E bo s cap sap pps buf1 fc pl w2)"
        using False env(4) r(1,7) miss by (subst listen_loop.simps) (auto simp: w2_def)
      moreover have "streamed bo s pending sent A n (pl, w) [] [] (pl, w2)" using still p r(8) miss by simp
      ultimately show ?thesis using that p(1) by blast
    qed
    show ?thesis
    proof (cases "k < 0")
      case True
      then show ?thesis using go w2 r(5) by auto
    next
      case more: False
      have "pipeline_ok pl1" "at_slot A (n + length xs) pl1" "pl_pcm_sink pl1 = None" using w2(2) by (simp_all add: streamed_def run_summary_def)
      then obtain pl' w' grs ys where "listen_loop E bo s cap sap pps buf1 fc' pl1 w2 = Some (pl', w')" "pending w' = []"
          "streamed bo s pending sent A (n + length xs) (pl1, w2) grs ys (pl', w')"
        using less.hyps[of w2 pl1 "n + length xs" buf1 fc'] r(2,4) w2(1) by auto
      then show ?thesis using go more streamed_trans[OF w2(2) _ less.prems(3)] by simp blast
    qed
  qed
qed

lemma announcer_of_udp:
  assumes "documented_fds (en_os E) fds" and "documented_inet (en_os E)" and "no_nul host" and "host \<noteq> []" and "length host < 64"
    and "0 < port" and "port \<le> 65535" and "c_strings (announcer_sdp name host (of_nat port) (uint pt) (sample_rate m) (n_channels m) ttl origin)"
  shows "\<exists>sap w'. listen_announcer E m pt name (Some (host @ '':'' @ decimal port)) ttl do_sap origin iface w = Some (sap, w')"
proof -
  let ?ip = "bytes_of host @ 0 # drop (length host + 1) (replicate 64 0)"
  have p: "parse_ipport (host @ '':'' @ decimal port) (replicate 64 0) 64 0 = Some (0, ?ip, of_nat port)" and h: "c_string ?ip = Some host"
    using parse_ipport_text[of "replicate 64 0" 64 port host 0] c_string_text[OF assms(3)] assms(3-7) by (simp_all add: Let_def)
  obtain rc sap w1 where "sap_announcer_start (en_os E) (en_calloc E w) \<lparr>sa_snd = \<lparr>snd_fd = 0, snd_dest = None\<rparr>, sa_pkt = replicate 1024 0,
      sa_len = 0, sa_active = False\<rparr> name host (of_nat port) (uint pt) (sample_rate m) (n_channels m) ttl origin iface w = Some (rc, sap, w1)"
    using announcer_start_spec[OF assms(1,2) _ assms(8), of "\<lparr>sa_snd = \<lparr>snd_fd = 0, snd_dest = None\<rparr>, sa_pkt = replicate 1024 0,
      sa_len = 0, sa_active = False\<rparr>" "en_calloc E w" iface w] by auto
  then show ?thesis using p h by (simp add: listen_announcer_def Let_def)
qed

lemma announcer_quiet:
  assumes "documented_inbox (en_os E) pending" and "documented_trace (en_os E) sent"
    and "listen_announcer E m pt name udp ttl do_sap origin iface w = Some (sap, w')"
    and "\<not> sa_active sap \<or> snd_fd (sa_snd sap) \<noteq> snd_fd s"
  shows "pending w' = pending w" and "media s (sent w') = media s (sent w)"
proof -
  from assms(3) consider "w' = w"
    | rc sa0 port host w1 where "sap_announcer_start (en_os E) (en_calloc E w) sa0 name host port (uint pt) (sample_rate m)
          (n_channels m) ttl origin iface w = Some (rc, sap, w1)" "w' = (if rc = 0 then sap_announce (en_os E) (Some sap) w1 else w1)"
    by (auto simp: listen_announcer_def Let_def bind_eq_Some_conv split: option.splits if_splits)
  then have "pending w' = pending w \<and> media s (sent w') = media s (sent w)"
  proof cases
    case (2 rc sa0 port host w1)
    then show ?thesis
      using announcer_control(1)[OF documented_inboxD(4)[OF assms(1)] 2(1)] announcer_control(1)[OF documented_traceD(3)[OF assms(2)] 2(1)]
        announce_quiet[OF assms(1,2,4)] by simp
  qed simp
  then show "pending w' = pending w" "media s (sent w') = media s (sent w)" by simp_all
qed

text \<open>The way into the session, and the way out of it.\<close>

lemma listen_started:
  assumes env: "documented_fds (en_os E) fds" "documented_inbox (en_os E) pending" "documented_trace (en_os E) sent" "documented_inet (en_os E)"
    and snd: "snd_fd s \<in> fds w" and cap: "fst (reac_capture_open (en_os E) ifname w) = 0"
    and host: "no_nul host" "host \<noteq> []" "length host < 64" "0 < port" "port \<le> 65535"
      "c_strings (announcer_sdp name host (of_nat port) (uint pt) (sample_rate m) (n_channels m) ttl origin)"
  shows "\<exists>c sap w2 us. 0 \<le> cap_fd c \<and> (\<not> sa_active sap \<or> snd_fd (sa_snd sap) \<noteq> snd_fd s) \<and> pending w2 = pending w \<and>
    media s (sent w2) = media s (sent w) \<and>
    us = ubus_stats_start (en_ubus E) (Some (case name of None \<Rightarrow> ifname | Some nm \<Rightarrow> nm)) (Some ifname) (sample_rate m) (n_channels m)
      (Some (host @ '':'' @ decimal port)) (Some (case hex of None \<Rightarrow> [] | Some x \<Rightarrow> x)) \<and>
    (\<forall>w3. listen_session E bo m s c (pipeline_init_ex (en_lib E) m pt ssrc xfade fade) us sap w2 = Some w3 \<longrightarrow>
      (\<exists>w'. run_listen E bo ifname m s pt ssrc name (Some (host @ '':'' @ decimal port)) hex xfade fade ttl do_sap origin iface w = Some (0, w') \<and>
        pending w' = pending w3 \<and> sent w' = sent w3))"
proof -
  let ?K = "en_os E" and ?udp = "Some (host @ '':'' @ decimal port)"
  note kp = documented_inboxD(4)[OF env(2)] and ks = documented_traceD(3)[OF env(3)]
  obtain c w1 where o: "reac_capture_open ?K ifname w = (0, c, w1)" using cap by (metis prod.collapse)
  obtain c' w1' where "reac_capture_close ?K c w1 = (c', w1')" by fastforce
  then have c: "0 \<le> cap_fd c" "fds w1 = insert (cap_fd c) (fds w)" using capture_fds[OF env(1) o] by simp_all
  have w1: "pending w1 = pending w" "sent w1 = sent w" using capture_control(1)[OF kp o] capture_control(1)[OF ks o] by simp_all
  obtain sap w2 where a: "listen_announcer E m pt name ?udp ttl do_sap origin iface w1 = Some (sap, w2)"
    using announcer_of_udp[OF env(1,4) host] by blast
  have other: "\<not> sa_active sap \<or> snd_fd (sa_snd sap) \<noteq> snd_fd s"
    using announcer_fds(2)[OF env(1) a] snd c(2) by (auto split: if_splits)
  note w2 = announcer_quiet[OF env(2,3) a other]
  define us where "us = ubus_stats_start (en_ubus E) (Some (case name of None \<Rightarrow> ifname | Some nm \<Rightarrow> nm)) (Some ifname) (sample_rate m) (n_channels m)
      ?udp (Some (case hex of None \<Rightarrow> [] | Some x \<Rightarrow> x))"
  have "run_listen E bo ifname m s pt ssrc name ?udp hex xfade fade ttl do_sap origin iface w
      = Some (0, snd (reac_capture_close ?K c (snd (sap_announcer_stop ?K sap w3))))"
    if "listen_session E bo m s c (pipeline_init_ex (en_lib E) m pt ssrc xfade fade) us sap w2 = Some w3" for w3
    using that o a by (simp add: run_listen_def case_prod_unfold Let_def us_def)
  moreover have "pending (snd (reac_capture_close ?K c (snd (sap_announcer_stop ?K sap w3)))) = pending w3"
      "sent (snd (reac_capture_close ?K c (snd (sap_announcer_stop ?K sap w3)))) = sent w3" for w3
    using capture_control(3)[OF kp] announcer_control(2)[OF kp] capture_control(3)[OF ks] announcer_control(2)[OF ks] by simp_all
  ultimately show ?thesis using c(1) other w1 w2 us_def by (intro exI[of _ c] exI[of _ sap] exI[of _ w2] exI[of _ us]) simp
qed

text \<open>What a stream from the start of the pipeline looks like on the network.\<close>

lemma streamed_log:
  assumes geo: "documented_geometry L" and m: "mode_ok m" and pl: "pl = pipeline_init_ex L m pt ssrc xfade fade"
    and st: "streamed bo s pending sent 0 0 (pl, w) frs xs (pl', w')" and fs: "fs = map (\<lambda>fr. take (snd fr) (fst fr)) frs" and log: "log = rtp_packets pl xs"
  shows "rtp_stream pt ssrc 0 m log" "map (\<lambda>x. drop 12 (fst x)) (filter (\<lambda>x. \<not> snd x) log) = map (wire_audio_be m) (reac_records fs)"
    "map snd log = concealed_at m (reac_records fs)"
proof -
  have sel: "pl_mode pl = m" "pl_clock pl = media_clock_init (samples_per_pkt m)"
      "pl_rtp pl = \<lparr>rp_payload_type = pt, rp_seq = 0, rp_timestamp = 0, rp_ssrc = ssrc\<rparr>"
    by (simp_all add: pl pipeline_init_ex_def)
  have sum: "run_summary 0 0 pl frs xs pl'" and fit: "\<forall>fr \<in> set frs. snd fr \<le> length (fst fr)" using st by (simp_all add: streamed_def)
  note P = packets_of_run[OF m sel(1) sum fit sel(3)] and R = frames_of_records[OF m fit fs[symmetric]]
  show "rtp_stream pt ssrc 0 m log" "map (\<lambda>x. drop 12 (fst x)) (filter (\<lambda>x. \<not> snd x) log) = map (wire_audio_be m) (reac_records fs)"
    "map snd log = concealed_at m (reac_records fs)"
    using P(1,2,4) R by (simp_all add: log sel(2) concealed_at_def)
qed

lemma pipeline_fresh:
  assumes "documented_geometry L" and "mode_ok m" and "fade \<le> 65536" and pl: "pl = pipeline_init_ex L m pt ssrc xfade fade"
  shows "pipeline_ok pl" "at_slot 0 0 pl" "pl_pcm_sink pl = None"
proof -
  have "pipeline_anchor pl 0 = pl" by (simp add: pl pipeline_anchor_def pipeline_init_ex_def media_clock_init_def)
  moreover have "pipeline_ok (pipeline_anchor pl 0)" "at_slot 0 0 (pipeline_anchor pl 0)" unfolding pl by (rule pipeline_start[OF assms(1-3)])+
  ultimately show "pipeline_ok pl" "at_slot 0 0 pl" by simp_all
  show "pl_pcm_sink pl = None" by (simp add: pl pipeline_init_ex_def)
qed

text \<open>
  C2.  Live mode turns what arrives into one AES67 stream.  Without an event loop, for any finite traffic on an open sender, the daemon
  returns 0 and has sent on its media socket, in order and with nothing in between, packets numbered 0, 1, 2, \<dots> and
  stamped one packet's samples apart, whose payloads outside concealment are the audio of exactly the REAC frames
  that arrived; with \<open>--bcast-only\<close>, of those addressed to everyone.  Foreign and malformed frames, and the announcements the daemon sends
  meanwhile on its other socket, do not disturb the stream; each frame's packet comes after as many concealed ones as the media clock finds lost.
\<close>

theorem live_to_udp:
  assumes env: "documented_geometry (en_lib E)" "documented_fds (en_os E) fds" "documented_inbox (en_os E) pending"
      "documented_trace (en_os E) sent" "documented_inet (en_os E)" "\<And>w. en_stop E w = (pending w = [])" "\<not> ub_have (en_ubus E)"
    and m: "mode_ok m" "0 \<le> sample_rate m" "sample_rate m < 2 ^ 31" "fade \<le> 65536"
    and snd: "snd_fd s \<in> fds w" and cap: "fst (reac_capture_open (en_os E) ifname w) = 0"
    and host: "no_nul host" "host \<noteq> []" "length host < 64" "0 < port" "port \<le> 65535"
      "c_strings (announcer_sdp name host (of_nat port) (uint pt) (sample_rate m) (n_channels m) ttl origin)"
  shows "\<exists>w' log. run_listen E bo ifname m s pt ssrc name (Some (host @ '':'' @ decimal port)) hex xfade fade ttl do_sap origin iface w
      = Some (0, w') \<and>
    media s (sent w') = media s (sent w) @ udp_log s (map fst log) \<and> rtp_stream pt ssrc 0 m log \<and>
    map (\<lambda>x. drop 12 (fst x)) (filter (\<lambda>x. \<not> snd x) log) = map (wire_audio_be m) (reac_records (taken bo (pending w))) \<and>
    map snd log = concealed_at m (reac_records (taken bo (pending w)))"
proof -
  let ?K = "en_os E" and ?pl = "pipeline_init_ex (en_lib E) m pt ssrc xfade fade :: 'a pipeline"
  obtain c sap w2 us where c: "0 \<le> cap_fd c" and other: "\<not> sa_active sap \<or> snd_fd (sa_snd sap) \<noteq> snd_fd s"
      and w2: "pending w2 = pending w" "media s (sent w2) = media s (sent w)"
      and run: "\<And>w3. listen_session E bo m s c ?pl us sap w2 = Some w3 \<Longrightarrow>
        \<exists>w'. run_listen E bo ifname m s pt ssrc name (Some (host @ '':'' @ decimal port)) hex xfade fade ttl do_sap origin iface w = Some (0, w') \<and>
          pending w' = pending w3 \<and> sent w' = sent w3"
    using listen_started[OF env(2-5) snd cap host, where bo = bo and ssrc = ssrc and xfade = xfade and fade = fade and hex = hex and do_sap = do_sap and iface = iface]
    by blast
  define w4 where "w4 = snd (reac_capture_set_nonblock ?K c False (snd (reac_capture_set_nonblock ?K c True w2)))"
  have w4: "pending w4 = pending w" "media s (sent w4) = media s (sent w)"
    unfolding w4_def using capture_control(2)[OF documented_inboxD(4)[OF env(3)]] capture_control(2)[OF documented_traceD(3)[OF env(4)]] w2 by simp_all
  obtain pps where pps: "c_div (sample_rate m) (samples_per_pkt m) = Some pps" "samples_per_pkt m \<noteq> 0"
    using m(1-3) c_div_pos[of "sample_rate m" "samples_per_pkt m"] by (auto simp: mode_ok_def)
  obtain pl' w5 frs xs where l: "listen_loop E bo s c sap pps (replicate 2048 0) 0 ?pl w4 = Some (pl', w5)" "pending w5 = []"
      "streamed bo s pending sent 0 0 (?pl, w4) frs xs (pl', w5)"
    using loop_streams[OF env(1,3,4,6) c other pipeline_fresh[OF env(1) m(1,4) refl] length_replicate,
        where bo = bo and pps = pps and fc = 0 and w = w4] by blast
  have "listen_session E bo m s c ?pl us sap w2 = Some w5"
    using env(7) pps l(1) unfolding w4_def by (simp add: listen_session_def ubus_stats_run_def case_prod_unfold Let_def)
  then obtain w' where w': "run_listen E bo ifname m s pt ssrc name (Some (host @ '':'' @ decimal port)) hex xfade fade ttl do_sap origin iface w = Some (0, w')"
      "sent w' = sent w5"
    using run by blast
  have t: "taken bo (pending w) = map (\<lambda>fr. take (snd fr) (fst fr)) frs" "media s (sent w') = media s (sent w) @ udp_log s (map fst (rtp_packets ?pl xs))"
    using l(2,3) w4 w'(2) by (simp_all add: streamed_def taken_def arriving_def)
  show ?thesis using w'(1) t(2) streamed_log[OF env(1) m(1) refl l(3) t(1) refl]
    by (intro exI[of _ w'] exI[of _ "rtp_packets ?pl xs"] conjI)
qed

text \<open>One frame arrives while the media socket is open.\<close>

definition sample_traffic :: log_world where
  "sample_traffic = log_start\<lparr>lw_fds := {3}, lw_next := 4, lw_inbox := [[1, 2, 3], sample_frame]\<rparr>"

theorem live_to_udp_witness:
  "\<exists>w' log. run_listen sample_env False ''reac0'' mode_48k sample_sender 97 7 None (Some (''239.69.10.0'' @ '':'' @ decimal 5004)) None
        0 0 1 True None None sample_traffic = Some (0, w') \<and>
     media sample_sender (lw_sent w') = udp_log sample_sender (map fst log) \<and> rtp_stream 97 7 0 mode_48k log \<and>
     map (\<lambda>x. drop 12 (fst x)) (filter (\<lambda>x. \<not> snd x) log) = [wire_audio_be mode_48k sample_frame] \<and> map snd log = [False]"
proof -
  have f: "reac_ethertype (take 2048 sample_frame)" "\<not> reac_ethertype [1, 2, 3]"
    using sample_frame_well_formed(1) by (simp_all add: reac_ethertype_def sample_frame_def nth_append)
  have "take 2048 sample_frame = sample_frame" by simp
  then have "reac_records (taken False (lw_inbox sample_traffic)) = [sample_frame]"
    using f by (simp add: taken_def arriving_def sample_traffic_def reac_records_def)
  moreover have "concealed_at mode_48k [sample_frame] = [False]"
    by (simp add: concealed_at_def media_clock_init_def media_clock_init_anchored_def media_clock_on_packet_def Let_def)
  moreover have "c_strings (announcer_sdp None ''239.69.10.0'' (of_nat 5004) (uint (97 :: byte)) (sample_rate mode_48k) (n_channels mode_48k) 1 None)"
    by (simp add: c_strings_def announcer_sdp_def)
  moreover have "en_lib sample_env = libreac_doc" "en_os sample_env = log_os" "\<not> ub_have (en_ubus sample_env)"
      "en_stop sample_env w = (lw_inbox w = [])" for w
    by (simp_all add: sample_env_def)
  moreover have "fst (reac_capture_open log_os ''reac0'' sample_traffic) = 0"
    by (simp add: reac_capture_open_def sample_traffic_def log_start_def ifr_name_def IFNAMSIZ_def)
  moreover have "snd_fd sample_sender \<in> lw_fds sample_traffic" "lw_sent sample_traffic = []"
    by (simp_all add: sample_sender_def sample_traffic_def log_start_def)
  ultimately show ?thesis
    using live_to_udp[of sample_env lw_fds lw_inbox lw_sent mode_48k 0 sample_sender sample_traffic "''reac0''" "''239.69.10.0''" 5004
        None 97 1 None False 7 None 0 True None]
    by (simp add: media_def)
qed

end
