(* ===== verification/Daemon_Events.thy ===== *)
theory Daemon_Events
  imports Daemon_Live
begin

text \<open>
  The live mode under its event loop, the build with libubus: the capture socket wakes the loop, a timer publishes the statistics and repeats the
  announcement, and status calls are answered in between.
\<close>

subsection \<open>Draining the socket\<close>

lemma drain_streams:
  assumes env: "documented_geometry (en_lib E)" "documented_inbox (en_os E) pending" "documented_trace (en_os E) sent" "0 \<le> cap_fd cap"
    and "pipeline_ok (lc_pl lc)" and "at_slot A n (lc_pl lc)" and "pl_pcm_sink (lc_pl lc) = None" and "length buf = 2048"
  shows "\<exists>lc' frs xs. listen_drain E bo s cap buf lc = Some lc' \<and> streamed bo s pending sent A n (lc_pl lc, lc_w lc) frs xs (lc_pl lc', lc_w lc') \<and>
    lc_us lc' = lc_us lc \<and> lc_sap lc' = lc_sap lc \<and> lc_replies lc' = lc_replies lc \<and>
    length (pending (lc_w lc')) \<le> length (pending (lc_w lc)) - 1"
  using assms(5-)
proof (induction "length (pending (lc_w lc))" arbitrary: lc n buf rule: less_induct)
  case less
  let ?K = "en_os E" and ?w = "lc_w lc"
  note still = streamed_quiet[OF less.prems(1-3)]
  show ?case
  proof (cases "pending ?w = []")
    case True
    obtain e w' where e: "os_recv ?K (cap_fd cap) 2048 ?w = (Inl e, w')" "pending w' = []" using documented_inboxD(1)[OF env(2) True] by blast
    then obtain k where r: "reac_capture_next ?K cap buf 2048 ?w = Some (k, buf, w')" "k \<le> 0" "pending w' = []" "sent w' = sent ?w"
      using capture_error[OF env(4) e(1)] documented_traceD(2)[OF env(3), of "cap_fd cap" 2048 ?w] by auto
    have "listen_drain E bo s cap buf lc = Some (lc\<lparr>lc_w := w'\<rparr>)" using r(1,2) by (subst listen_drain.simps) simp
    then show ?thesis using still[of bo pending w' ?w s sent] r(3,4) True by auto
  next
    case False
    obtain k buf1 w1 where r: "reac_capture_next ?K cap buf 2048 ?w = Some (k, buf1, w1)" "length buf1 = 2048" "sent w1 = sent ?w"
        "length (pending w1) < length (pending ?w)" "nat k \<le> length buf1"
        "k > 0 \<longrightarrow> frame_wanted bo buf1 k = Some (bo \<longrightarrow> broadcast (take (nat k) buf1))"
        "taken bo (pending ?w) = (if k > 0 \<and> (bo \<longrightarrow> broadcast (take (nat k) buf1)) then [take (nat k) buf1] else []) @ taken bo (pending w1)"
      using link_read[OF env(2-4) less.prems(4) False] by blast
    let ?hit = "k > 0 \<and> (bo \<longrightarrow> broadcast (take (nat k) buf1))"
    obtain frs xs lc1 where go: "listen_drain E bo s cap buf lc = (if k > 0 then listen_drain E bo s cap buf1 lc1 else Some lc1)"
        and lc1: "pending (lc_w lc1) = pending w1" "streamed bo s pending sent A n (lc_pl lc, ?w) frs xs (lc_pl lc1, lc_w lc1)"
          "lc_us lc1 = lc_us lc" "lc_sap lc1 = lc_sap lc" "lc_replies lc1 = lc_replies lc"
    proof (cases ?hit)
      case True
      obtain rc pl1 w2 xs where f: "pipeline_on_frame (en_lib E) (lc_pl lc) buf1 (nat k) (emit_udp ?K s) w1 = Some (rc, pl1, w2)" "pending w2 = pending w1"
          "streamed bo s pending sent A n (lc_pl lc, ?w) [(buf1, nat k)] xs (pl1, w2)"
        using streamed_frame[OF env(1-3) less.prems(1-3) r(5), where w = ?w and ?w1.0 = w1 and bo = bo and s = s] r(3,7) True by auto
      let ?lc = "lc\<lparr>lc_pl := pl1, lc_w := w2, lc_pkts := (lc_pkts lc + 1) mod 2 ^ en_long_bits E\<rparr>"
      have "listen_drain E bo s cap buf lc = listen_drain E bo s cap buf1 ?lc"
        using r(1,6) True f(1) by (subst listen_drain.simps) simp
      then show ?thesis using that f(2,3) True by simp
    next
      case miss: False
      let ?lc = "lc\<lparr>lc_w := w1\<rparr>"
      have "listen_drain E bo s cap buf lc = (if k > 0 then listen_drain E bo s cap buf1 ?lc else Some ?lc)"
        using r(1,6) miss by (subst listen_drain.simps) auto
      moreover have "streamed bo s pending sent A n (lc_pl lc, ?w) [] [] (lc_pl lc, w1)" using still r(3,7) miss by simp
      ultimately show ?thesis using that by simp
    qed
    show ?thesis
    proof (cases "k > 0")
      case False
      then show ?thesis using go lc1 r(4) by (intro exI[of _ lc1] exI[of _ frs] exI[of _ xs]) auto
    next
      case more: True
      have "pipeline_ok (lc_pl lc1)" "at_slot A (n + length xs) (lc_pl lc1)" "pl_pcm_sink (lc_pl lc1) = None"
        using lc1(2) by (simp_all add: streamed_def run_summary_def)
      then obtain lc' grs ys where rest: "listen_drain E bo s cap buf1 lc1 = Some lc'"
          "streamed bo s pending sent A (n + length xs) (lc_pl lc1, lc_w lc1) grs ys (lc_pl lc', lc_w lc')"
          "lc_us lc' = lc_us lc1" "lc_sap lc' = lc_sap lc1" "lc_replies lc' = lc_replies lc1"
          "length (pending (lc_w lc')) \<le> length (pending (lc_w lc1)) - 1"
        using less.hyps[of lc1 "n + length xs" buf1] r(2,4) lc1(1) by auto
      have "length (pending (lc_w lc')) \<le> length (pending ?w) - 1" using rest(6) lc1(1) r(4) by simp
      then show ?thesis using go more lc1(3-5) rest(1,3-5) streamed_trans[OF lc1(2) rest(2) less.prems(3)] by auto
    qed
  qed
qed

subsection \<open>The event loop\<close>

abbreviation listen_events ::
  "'w env \<Rightarrow> bool \<Rightarrow> reac_mode \<Rightarrow> aes67_sender \<Rightarrow> reac_capture \<Rightarrow> uloop_event list \<Rightarrow> 'w listen_ctx \<Rightarrow> 'w listen_ctx option" where
  "listen_events E bo m s cap \<equiv> uloop_run (listen_on_readable E bo s cap) (listen_on_publish E m) listen_answer 1"

text \<open>The object without the counters that an update replaces.\<close>

definition object_of :: "ubus_stats option \<Rightarrow> ubus_stats option" where
  "object_of = map_option (\<lambda>h. h\<lparr>us_stats := zero_stats, us_pps := 0, us_uptime := 0\<rparr>)"

text \<open>
  What the events \<open>es\<close> have done: a stream of packets, a reply to every status call, and a snapshot in the status object, which only the timer replaces.
\<close>

definition served ::
  "bool \<Rightarrow> aes67_sender \<Rightarrow> ('w \<Rightarrow> byte list list) \<Rightarrow> ('w \<Rightarrow> (int \<times> byte list \<times> sockaddr) list) \<Rightarrow> u32 \<Rightarrow> nat \<Rightarrow> uloop_event list \<Rightarrow>
   'w listen_ctx \<Rightarrow> (byte list \<times> nat) list \<Rightarrow> pushed list \<Rightarrow> 'w listen_ctx \<Rightarrow> bool" where
  "served bo s pending sent A n es lc frs xs lc' \<longleftrightarrow>
     streamed bo s pending sent A n (lc_pl lc, lc_w lc) frs xs (lc_pl lc', lc_w lc') \<and> lc_sap lc' = lc_sap lc \<and>
     length (pending (lc_w lc')) \<le> length (pending (lc_w lc)) - length (filter (\<lambda>e. e = CaptureReadable) es) \<and>
     (lc_us lc \<noteq> None \<longrightarrow> lc_us lc' \<noteq> None \<and> length (lc_replies lc') = length (lc_replies lc) + length (filter (\<lambda>e. e = StatusCall) es)) \<and>
     (PublishTimer \<notin> set es \<longrightarrow> lc_us lc' = lc_us lc) \<and>
     object_of (lc_us lc') = object_of (lc_us lc)"

lemma event_served:
  assumes env: "documented_geometry (en_lib E)" "documented_inbox (en_os E) pending" "documented_trace (en_os E) sent" "0 \<le> cap_fd cap"
    and sap: "\<not> sa_active (lc_sap lc) \<or> snd_fd (sa_snd (lc_sap lc)) \<noteq> snd_fd s" and pps: "c_div (sample_rate m) (samples_per_pkt m) = Some pps"
    and pl: "pipeline_ok (lc_pl lc)" "at_slot A n (lc_pl lc)" "pl_pcm_sink (lc_pl lc) = None"
  shows "\<exists>lc' frs xs. uloop_dispatch (listen_on_readable E bo s cap) (listen_on_publish E m) listen_answer 1 e lc = Some lc' \<and>
    served bo s pending sent A n [e] lc frs xs lc'"
proof (cases e)
  case CaptureReadable
  then show ?thesis
    using drain_streams[OF env pl length_replicate, of bo s]
    by (fastforce simp: uloop_dispatch_def on_cap_uloop_def listen_on_readable_def served_def)
next
  case PublishTimer
  let ?w = "sap_announce (en_os E) (Some (lc_sap lc)) (lc_w lc)"
  have "streamed bo s pending sent A n (lc_pl lc, lc_w lc) [] [] (lc_pl lc, ?w)"
    using announce_quiet[OF env(2,3) sap] by (intro streamed_quiet[OF pl]) simp_all
  moreover have "pending ?w = pending (lc_w lc)" by (rule announce_quiet(1)[OF env(2,3) sap])
  moreover obtain up where "listen_on_publish E m lc
      = Some (lc\<lparr>lc_us := ubus_stats_update (lc_us lc) (pipeline_get_stats (lc_pl lc)) pps up, lc_w := ?w\<rparr>)"
    using pps by (simp add: listen_on_publish_def Let_def)
  ultimately show ?thesis using PublishTimer
    by (auto simp: uloop_dispatch_def on_pub_uloop_def served_def ubus_stats_update_def object_of_def option.map_comp comp_def intro!: exI[of _ "[]"])
next
  case StatusCall
  have "streamed bo s pending sent A n (lc_pl lc, lc_w lc) [] [] (lc_pl lc, lc_w lc)" by (rule streamed_quiet[OF pl refl refl])
  then show ?thesis using StatusCall
    by (intro exI[of _ "listen_answer lc"] exI[of _ "[]"]) (auto simp: uloop_dispatch_def listen_answer_def served_def)
qed

lemma served_trans:
  assumes a: "served bo s pending sent A n es lc frs xs lc1" and b: "served bo s pending sent A (n + length xs) fs lc1 grs ys lc2"
    and sink: "pl_pcm_sink (lc_pl lc) = None"
  shows "served bo s pending sent A n (es @ fs) lc (frs @ grs) (xs @ ys) lc2"
proof -
  note A = a[unfolded served_def] and B = b[unfolded served_def]
  have "streamed bo s pending sent A n (lc_pl lc, lc_w lc) (frs @ grs) (xs @ ys) (lc_pl lc2, lc_w lc2)"
    by (rule streamed_trans[OF conjunct1[OF A] conjunct1[OF B] sink])
  moreover have "length (pending (lc_w lc2)) \<le> length (pending (lc_w lc)) - length (filter (\<lambda>e. e = CaptureReadable) (es @ fs))"
    using A[THEN conjunct2, THEN conjunct2, THEN conjunct1] B[THEN conjunct2, THEN conjunct2, THEN conjunct1] by simp
  moreover have "lc_us lc \<noteq> None \<longrightarrow> lc_us lc2 \<noteq> None \<and>
      length (lc_replies lc2) = length (lc_replies lc) + length (filter (\<lambda>e. e = StatusCall) (es @ fs))"
    using A B by simp
  moreover have "lc_sap lc2 = lc_sap lc \<and> object_of (lc_us lc2) = object_of (lc_us lc)" using A B by simp
  moreover have "PublishTimer \<notin> set (es @ fs) \<longrightarrow> lc_us lc2 = lc_us lc" using A B by simp
  ultimately show ?thesis unfolding served_def by blast
qed

lemma events_served:
  assumes env: "documented_geometry (en_lib E)" "documented_inbox (en_os E) pending" "documented_trace (en_os E) sent" "0 \<le> cap_fd cap"
    and sap: "\<not> sa_active (lc_sap lc) \<or> snd_fd (sa_snd (lc_sap lc)) \<noteq> snd_fd s" and pps: "c_div (sample_rate m) (samples_per_pkt m) = Some pps"
    and pl: "pipeline_ok (lc_pl lc)" "at_slot A n (lc_pl lc)" "pl_pcm_sink (lc_pl lc) = None"
  shows "\<exists>lc' frs xs. listen_events E bo m s cap es lc = Some lc' \<and> served bo s pending sent A n es lc frs xs lc'"
  using sap pl
proof (induction es arbitrary: lc n)
  case Nil
  then show ?case using streamed_quiet[where bo = bo and pending = pending and s = s and sent = sent, OF Nil.prems(2-4) refl refl] by (auto simp: served_def intro!: exI[of _ "[]"])
next
  case (Cons e es)
  obtain lc1 frs xs where one: "uloop_dispatch (listen_on_readable E bo s cap) (listen_on_publish E m) listen_answer 1 e lc = Some lc1"
      "served bo s pending sent A n [e] lc frs xs lc1"
    using event_served[OF env Cons.prems(1) pps Cons.prems(2-4)] by blast
  then have "\<not> sa_active (lc_sap lc1) \<or> snd_fd (sa_snd (lc_sap lc1)) \<noteq> snd_fd s" "pipeline_ok (lc_pl lc1)" "at_slot A (n + length xs) (lc_pl lc1)"
      "pl_pcm_sink (lc_pl lc1) = None"
    using Cons.prems(1) by (auto simp: served_def streamed_def run_summary_def)
  from Cons.IH[OF this] obtain lc2 grs ys where "listen_events E bo m s cap es lc1 = Some lc2" "served bo s pending sent A (n + length xs) es lc1 grs ys lc2"
    by blast
  then show ?case using one served_trans[OF one(2) _ Cons.prems(4)] by fastforce
qed

text \<open>The loop from its start, and what the counters say of it.\<close>

definition listen_start :: "'w pipeline \<Rightarrow> ubus_stats option \<Rightarrow> sap_announcer \<Rightarrow> 'w \<Rightarrow> 'w listen_ctx" where
  "listen_start pl us sap w = \<lparr>lc_pl = pl, lc_us = us, lc_sap = sap, lc_pkts = 0, lc_replies = [], lc_w = w\<rparr>"

lemma listen_start_simps [simp]:
  "lc_pl (listen_start pl us sap w) = pl" "lc_us (listen_start pl us sap w) = us" "lc_sap (listen_start pl us sap w) = sap"
  "lc_replies (listen_start pl us sap w) = []" "lc_w (listen_start pl us sap w) = w"
  by (simp_all add: listen_start_def)

lemma mode_pps:
  assumes "mode_ok m" and "0 \<le> sample_rate m" and "sample_rate m < 2 ^ 31"
  shows "\<exists>pps. c_div (sample_rate m) (samples_per_pkt m) = Some pps"
  using assms c_div_pos[of "sample_rate m" "samples_per_pkt m"] by (auto simp: mode_ok_def)

lemma events_from_start:
  assumes env: "documented_geometry (en_lib E)" "documented_inbox (en_os E) pending" "documented_trace (en_os E) sent" "0 \<le> cap_fd cap"
    and m: "mode_ok m" "0 \<le> sample_rate m" "sample_rate m < 2 ^ 31" "fade \<le> 65536"
    and sap: "\<not> sa_active sap \<or> snd_fd (sa_snd sap) \<noteq> snd_fd s" and pl: "pl = pipeline_init_ex (en_lib E) m pt ssrc xfade fade"
  shows "\<exists>lc' frs xs. listen_events E bo m s cap es (listen_start pl us sap w) = Some lc' \<and>
    served bo s pending sent 0 0 es (listen_start pl us sap w) frs xs lc'"
proof -
  obtain pps where pps: "c_div (sample_rate m) (samples_per_pkt m) = Some pps" using mode_pps[OF m(1-3)] by blast
  let ?lc = "listen_start pl us sap w"
  have "\<not> sa_active (lc_sap ?lc) \<or> snd_fd (sa_snd (lc_sap ?lc)) \<noteq> snd_fd s" using sap by simp
  then show ?thesis using events_served[OF env _ pps] pipeline_fresh[OF env(1) m(1,4) pl] listen_start_simps(1) by metis
qed

lemma streamed_counts:
  assumes m: "mode_ok m" and pl: "pl = pipeline_init_ex L m pt ssrc xfade fade"
    and st: "streamed bo s pending sent 0 0 (pl, w) frs xs (pl', w')" and fs: "fs = reac_records (map (\<lambda>fr. take (snd fr) (fst fr)) frs)"
  shows "ps_packets (pl_stats pl') = of_nat (length fs)" "ps_concealed (pl_stats pl') = of_nat (length (filter id (concealed_at m fs)))"
    "ps_loss_total (pl_stats pl') = of_nat (length (filter id (concealed_at m fs)))"
proof -
  have fit: "\<forall>fr \<in> set frs. snd fr \<le> length (fst fr)" and sum: "run_summary 0 0 pl frs xs pl'" using st by (simp_all add: streamed_def)
  note recs = frames_of_records(2)[OF m fit refl, folded fs]
  have fresh: "pl_clock pl = media_clock_init (samples_per_pkt m)" "ps_packets (pl_stats pl) = 0" "ps_concealed (pl_stats pl) = 0"
      "ps_loss_total (pl_stats pl) = 0"
    by (simp_all add: pl pipeline_init_ex_def)
  have "length (filter is_frame frs) = length fs" using arg_cong[OF recs, of length] by simp
  moreover have "length (filter (\<lambda>x. snd (snd x)) xs) = length (filter id (map (\<lambda>x. snd (snd x)) xs))" by (simp add: filter_map comp_def)
  moreover have "map (\<lambda>x. snd (snd x)) xs = concealed_at m fs" using sum recs fresh(1) by (simp add: run_summary_def concealed_at_def)
  ultimately show "ps_packets (pl_stats pl') = of_nat (length fs)" "ps_concealed (pl_stats pl') = of_nat (length (filter id (concealed_at m fs)))"
      "ps_loss_total (pl_stats pl') = of_nat (length (filter id (concealed_at m fs)))"
    using sum fresh(2-4) by (simp_all add: run_summary_def)
qed

text \<open>
  C11.  Under the event loop, too, live mode turns what arrives into one AES67 stream.  Whatever the loop dispatches, capture events, timer events and
  status calls in any order and number, the daemon returns 0 and has sent on its media socket, in order and with nothing in between, packets
  numbered 0, 1, 2, \<dots> and stamped one packet's samples apart, whose payloads outside concealment are the audio of exactly the REAC
  frames it has taken from the link; no frame is lost or read twice, and a capture event takes at least one waiting frame, if there is one.
\<close>

theorem events_to_udp:
  assumes env: "documented_geometry (en_lib E)" "documented_fds (en_os E) fds" "documented_inbox (en_os E) pending"
      "documented_trace (en_os E) sent" "documented_inet (en_os E)" "ub_have (en_ubus E)" "ub_calloc (en_ubus E)" "ub_connect (en_ubus E)"
      "ub_add_object (en_ubus E)"
    and m: "mode_ok m" "0 \<le> sample_rate m" "sample_rate m < 2 ^ 31" "fade \<le> 65536"
    and snd: "snd_fd s \<in> fds w" and cap: "fst (reac_capture_open (en_os E) ifname w) = 0"
    and host: "no_nul host" "host \<noteq> []" "length host < 64" "0 < port" "port \<le> 65535"
      "c_strings (announcer_sdp name host (of_nat port) (uint pt) (sample_rate m) (n_channels m) ttl origin)"
  shows "\<exists>w' fs log. run_listen E bo ifname m s pt ssrc name (Some (host @ '':'' @ decimal port)) hex xfade fade ttl do_sap origin iface w
      = Some (0, w') \<and>
    taken bo (pending w) = fs @ taken bo (pending w') \<and>
    length (pending w') \<le> length (pending w) - length (filter (\<lambda>e. e = CaptureReadable) (en_events E)) \<and>
    media s (sent w') = media s (sent w) @ udp_log s (map fst log) \<and> rtp_stream pt ssrc 0 m log \<and>
    map (\<lambda>x. drop 12 (fst x)) (filter (\<lambda>x. \<not> snd x) log) = map (wire_audio_be m) (reac_records fs) \<and>
    map snd log = concealed_at m (reac_records fs)"
proof -
  let ?K = "en_os E" and ?pl = "pipeline_init_ex (en_lib E) m pt ssrc xfade fade :: 'a pipeline"
  obtain c sap w2 us where c: "0 \<le> cap_fd c" and other: "\<not> sa_active sap \<or> snd_fd (sa_snd sap) \<noteq> snd_fd s"
      and w2: "pending w2 = pending w" "media s (sent w2) = media s (sent w)"
      and us: "us = ubus_stats_start (en_ubus E) (Some (case name of None \<Rightarrow> ifname | Some nm \<Rightarrow> nm)) (Some ifname) (sample_rate m) (n_channels m)
        (Some (host @ '':'' @ decimal port)) (Some (case hex of None \<Rightarrow> [] | Some x \<Rightarrow> x))"
      and run: "\<And>w3. listen_session E bo m s c ?pl us sap w2 = Some w3 \<Longrightarrow>
        \<exists>w'. run_listen E bo ifname m s pt ssrc name (Some (host @ '':'' @ decimal port)) hex xfade fade ttl do_sap origin iface w = Some (0, w') \<and>
          pending w' = pending w3 \<and> sent w' = sent w3"
    using listen_started[OF env(2-5) snd cap host, where bo = bo and ssrc = ssrc and xfade = xfade and fade = fade and hex = hex and do_sap = do_sap and iface = iface]
    by blast
  define w3 where "w3 = snd (reac_capture_set_nonblock ?K c True w2)"
  have w3: "pending w3 = pending w" "media s (sent w3) = media s (sent w)"
    unfolding w3_def using capture_control(2)[OF documented_inboxD(4)[OF env(3)]] capture_control(2)[OF documented_traceD(3)[OF env(4)]] w2 by simp_all
  obtain lc' frs xs where l: "listen_events E bo m s c (en_events E) (listen_start ?pl us sap w3) = Some lc'"
      "served bo s pending sent 0 0 (en_events E) (listen_start ?pl us sap w3) frs xs lc'"
    using events_from_start[OF env(1,3,4) c m other refl] by blast
  have "us \<noteq> None" using env(6-9) by (simp add: us ubus_stats_start_def Let_def)
  then have "listen_session E bo m s c ?pl us sap w2 = Some (lc_w lc')"
    using env(6) l(1) unfolding listen_start_def w3_def by (simp add: listen_session_def ubus_stats_run_def case_prod_unfold Let_def)
  then obtain w' where w': "run_listen E bo ifname m s pt ssrc name (Some (host @ '':'' @ decimal port)) hex xfade fade ttl do_sap origin iface w = Some (0, w')"
      "pending w' = pending (lc_w lc')" "sent w' = sent (lc_w lc')"
    using run by blast
  have st: "streamed bo s pending sent 0 0 (?pl, w3) frs xs (lc_pl lc', lc_w lc')" using l(2) by (simp add: served_def)
  have len: "length (pending w') \<le> length (pending w) - length (filter (\<lambda>e. e = CaptureReadable) (en_events E))"
    using l(2) w3 w'(2) by (simp add: served_def)
  have t: "taken bo (pending w) = map (\<lambda>fr. take (snd fr) (fst fr)) frs @ taken bo (pending w')"
      "media s (sent w') = media s (sent w) @ udp_log s (map fst (rtp_packets ?pl xs))"
    using st w3 w'(2,3) by (simp_all add: streamed_def)
  show ?thesis using w'(1) t len streamed_log[OF env(1) m(1) refl st refl refl]
    by (intro exI[of _ w'] exI[of _ "map (\<lambda>fr. take (snd fr) (fst fr)) frs"] exI[of _ "rtp_packets ?pl xs"] conjI)
qed

text \<open>The same traffic under an event loop that finds the first frame on one event and the second on another.\<close>

definition ubus_flags :: ubus_env where
  "ubus_flags = \<lparr>ub_have = True, ub_calloc = True, ub_connect = True, ub_add_object = True\<rparr>"

definition sample_loop_env :: "log_world env" where
  "sample_loop_env = sample_env\<lparr>en_ubus := ubus_flags, en_events := [StatusCall, CaptureReadable, PublishTimer, CaptureReadable, StatusCall]\<rparr>"

lemma sample_loop_env_simps [simp]:
  "en_lib sample_loop_env = libreac_doc" "en_os sample_loop_env = log_os" "en_ubus sample_loop_env = ubus_flags"
  "en_events sample_loop_env = [StatusCall, CaptureReadable, PublishTimer, CaptureReadable, StatusCall]"
  by (simp_all add: sample_loop_env_def sample_env_def)

lemma ubus_flags_simps [simp]: "ub_have ubus_flags" "ub_calloc ubus_flags" "ub_connect ubus_flags" "ub_add_object ubus_flags"
  by (simp_all add: ubus_flags_def)

lemma sample_records_taken: "reac_records (taken False (lw_inbox sample_traffic)) = [sample_frame]"
proof -
  have f: "reac_ethertype (take 2048 sample_frame)" "\<not> reac_ethertype [1, 2, 3]"
    using sample_frame_well_formed(1) by (simp_all add: reac_ethertype_def sample_frame_def nth_append)
  have "take 2048 sample_frame = sample_frame" by simp
  then show ?thesis using f by (simp add: taken_def arriving_def sample_traffic_def reac_records_def)
qed

lemma sample_not_concealed: "concealed_at mode_48k [sample_frame] = [False]"
  by (simp add: concealed_at_def media_clock_init_def media_clock_init_anchored_def media_clock_on_packet_def Let_def)

theorem events_to_udp_witness:
  "\<exists>w' log. run_listen sample_loop_env False ''reac0'' mode_48k sample_sender 97 7 None (Some (''239.69.10.0'' @ '':'' @ decimal 5004)) None
        0 0 1 True None None sample_traffic = Some (0, w') \<and> lw_inbox w' = [] \<and>
     media sample_sender (lw_sent w') = udp_log sample_sender (map fst log) \<and> rtp_stream 97 7 0 mode_48k log \<and>
     map (\<lambda>x. drop 12 (fst x)) (filter (\<lambda>x. \<not> snd x) log) = [wire_audio_be mode_48k sample_frame] \<and> map snd log = [False]"
proof -
  have cs: "c_strings (announcer_sdp None ''239.69.10.0'' (of_nat 5004) (uint (97 :: byte)) (sample_rate mode_48k) (n_channels mode_48k) 1 None)"
    by (simp add: c_strings_def announcer_sdp_def)
  have cap: "fst (reac_capture_open log_os ''reac0'' sample_traffic) = 0"
    by (simp add: reac_capture_open_def sample_traffic_def log_start_def ifr_name_def IFNAMSIZ_def)
  have w: "snd_fd sample_sender \<in> lw_fds sample_traffic" "lw_sent sample_traffic = []" "length (lw_inbox sample_traffic) = 2"
    by (simp_all add: sample_sender_def sample_traffic_def log_start_def)
  obtain w' fs log where run: "run_listen sample_loop_env False ''reac0'' mode_48k sample_sender 97 7 None (Some (''239.69.10.0'' @ '':'' @ decimal 5004)) None
        0 0 1 True None None sample_traffic = Some (0, w')"
      "taken False (lw_inbox sample_traffic) = fs @ taken False (lw_inbox w')" "lw_inbox w' = []"
      "media sample_sender (lw_sent w') = udp_log sample_sender (map fst log)" "rtp_stream 97 7 0 mode_48k log"
      "map (\<lambda>x. drop 12 (fst x)) (filter (\<lambda>x. \<not> snd x) log) = map (wire_audio_be mode_48k) (reac_records fs)"
      "map snd log = concealed_at mode_48k (reac_records fs)"
    using events_to_udp[of sample_loop_env lw_fds lw_inbox lw_sent mode_48k 0 sample_sender sample_traffic "''reac0''" "''239.69.10.0''" 5004
        None 97 1 None False 7 None 0 True None] cs cap w
    by (auto simp: media_def)
  moreover have "reac_records fs = [sample_frame]" using run(2,3) sample_records_taken by (simp add: taken_def arriving_def)
  ultimately show ?thesis using sample_not_concealed by (intro exI[of _ w'] exI[of _ log]) simp
qed

subsection \<open>The replies to status calls\<close>

lemma publish_served:
  assumes env: "documented_geometry (en_lib E)" "documented_inbox (en_os E) pending" "documented_trace (en_os E) sent" "0 \<le> cap_fd cap"
    and sap: "\<not> sa_active (lc_sap lc) \<or> snd_fd (sa_snd (lc_sap lc)) \<noteq> snd_fd s" and pps: "c_div (sample_rate m) (samples_per_pkt m) = Some pps"
    and pl: "pipeline_ok (lc_pl lc)" "at_slot A n (lc_pl lc)" "pl_pcm_sink (lc_pl lc) = None"
    and es: "PublishTimer \<notin> set es" and h: "lc_us lc = Some h"
  shows "\<exists>lc' h'. listen_events E bo m s cap (PublishTimer # es) lc = Some lc' \<and> lc_us lc' = Some h' \<and>
    us_stats h' = pl_stats (lc_pl lc) \<and> object_of (Some h') = object_of (Some h) \<and>
    length (lc_replies lc') = length (lc_replies lc) + length (filter (\<lambda>e. e = StatusCall) es)"
proof -
  let ?w = "sap_announce (en_os E) (Some (lc_sap lc)) (lc_w lc)"
  obtain up where pub: "listen_on_publish E m lc = Some (lc\<lparr>lc_us := ubus_stats_update (lc_us lc) (pipeline_get_stats (lc_pl lc)) pps up, lc_w := ?w\<rparr>)"
    using pps by (simp add: listen_on_publish_def Let_def)
  define lc1 where "lc1 = lc\<lparr>lc_us := ubus_stats_update (lc_us lc) (pipeline_get_stats (lc_pl lc)) pps up, lc_w := ?w\<rparr>"
  have lc1: "lc_us lc1 = Some (h\<lparr>us_stats := pl_stats (lc_pl lc), us_pps := pps, us_uptime := up\<rparr>)" "lc_sap lc1 = lc_sap lc" "lc_pl lc1 = lc_pl lc"
      "lc_replies lc1 = lc_replies lc"
    using h by (simp_all add: lc1_def ubus_stats_update_def pipeline_get_stats_def)
  obtain lc' frs xs where rest: "listen_events E bo m s cap es lc1 = Some lc'" "served bo s pending sent A n es lc1 frs xs lc'"
    using events_served[OF env _ pps, where lc = lc1 and s = s and A = A and n = n and es = es and bo = bo] sap pl lc1(2,3) by auto
  have "listen_events E bo m s cap (PublishTimer # es) lc = Some lc'"
    using pub rest(1) by (simp add: uloop_dispatch_def on_pub_uloop_def lc1_def)
  then show ?thesis using rest(2) lc1 es by (auto simp: served_def object_of_def)
qed

text \<open>
  C39.  What the daemon tells of itself is true of the stream.  Whatever happened before, the reply to a status call counts the REAC frames
  that were taken from the link until the last tick of the timer, and the packets that had to be concealed for them, all of them losses; these are the
  frames that arrived, if the loop saw enough capture events before the tick.  Rate and name are those of the registration, and every call got its reply.
\<close>

theorem status_calls_answered:
  assumes env: "documented_geometry (en_lib E)" "documented_inbox (en_os E) pending" "documented_trace (en_os E) sent" "0 \<le> cap_fd cap"
    and m: "mode_ok m" "0 \<le> sample_rate m" "sample_rate m < 2 ^ 31" "fade \<le> 65536"
    and sap: "\<not> sa_active sap \<or> snd_fd (sa_snd sap) \<noteq> snd_fd s" and pl: "pl = pipeline_init_ex (en_lib E) m pt ssrc xfade fade"
    and h: "ubus_stats_start (en_ubus E) (Some name) iface rate channels mcast hex = Some h" and es: "PublishTimer \<notin> set es2"
  shows "\<exists>lc' r fs rest. listen_events E bo m s cap (es1 @ PublishTimer # es2 @ [StatusCall]) (listen_start pl (Some h) sap w) = Some lc' \<and>
    length (lc_replies lc') = length (filter (\<lambda>e. e = StatusCall) (es1 @ es2)) + 1 \<and> r = last (lc_replies lc') \<and>
    taken bo (pending w) = fs @ rest \<and> (length (pending w) \<le> length (filter (\<lambda>e. e = CaptureReadable) es1) \<longrightarrow> rest = []) \<and>
    map_of r ''packets'' = Some (BlobU64 (of_nat (length (reac_records fs)))) \<and>
    map_of r ''concealed'' = Some (BlobU64 (of_nat (length (filter id (concealed_at m (reac_records fs)))))) \<and>
    map_of r ''loss_total'' = map_of r ''concealed'' \<and>
    map_of r ''rate'' = Some (BlobU32 (word_of_int rate)) \<and> map_of r ''name'' = Some (BlobString (take 31 name)) \<and> distinct (map fst r)"
proof -
  let ?lc = "listen_start pl (Some h) sap w"
  obtain pps where pps: "c_div (sample_rate m) (samples_per_pkt m) = Some pps" using mode_pps[OF m(1-3)] by blast
  obtain lc1 frs xs where one: "listen_events E bo m s cap es1 ?lc = Some lc1" "served bo s pending sent 0 0 es1 ?lc frs xs lc1"
    using events_from_start[OF env m sap pl] by blast
  obtain h1 where h1: "lc_us lc1 = Some h1" "object_of (Some h1) = object_of (Some h)" using one(2) by (auto simp: served_def)
  have pl1: "pipeline_ok (lc_pl lc1)" "at_slot 0 (0 + length xs) (lc_pl lc1)" "pl_pcm_sink (lc_pl lc1) = None"
      and sap1: "\<not> sa_active (lc_sap lc1) \<or> snd_fd (sa_snd (lc_sap lc1)) \<noteq> snd_fd s"
    using one(2) sap by (auto simp: served_def streamed_def run_summary_def)
  obtain lc2 h2 where two: "listen_events E bo m s cap (PublishTimer # es2) lc1 = Some lc2" "lc_us lc2 = Some h2" "us_stats h2 = pl_stats (lc_pl lc1)"
      "object_of (Some h2) = object_of (Some h1)" "length (lc_replies lc2) = length (lc_replies lc1) + length (filter (\<lambda>e. e = StatusCall) es2)"
    using publish_served[OF env sap1 pps pl1 es h1(1)] by blast
  have same: "us_rate h2 = us_rate h" "us_name h2 = us_name h" using h1(2) two(4) by (auto simp: object_of_def dest: arg_cong[of _ _ us_rate] arg_cong[of _ _ us_name])
  have run: "listen_events E bo m s cap (es1 @ PublishTimer # es2 @ [StatusCall]) ?lc = Some (lc2\<lparr>lc_replies := lc_replies lc2 @ [status_cb h2]\<rparr>)"
  proof -
    have last: "listen_events E bo m s cap [StatusCall] lc2 = Some (lc2\<lparr>lc_replies := lc_replies lc2 @ [status_cb h2]\<rparr>)"
      by (simp add: two(2) uloop_dispatch_def listen_answer_def)
    have "listen_events E bo m s cap ((es1 @ PublishTimer # es2) @ [StatusCall]) ?lc
        = listen_events E bo m s cap (PublishTimer # es2) lc1 \<bind> listen_events E bo m s cap [StatusCall]"
      by (simp only: uloop_run_append one(1) bind.bind_lunit)
    then show ?thesis by (simp add: two(1) last del: uloop_run.simps)
  qed
  have n: "length (lc_replies lc1) = length (filter (\<lambda>e. e = StatusCall) es1)" using one(2) by (simp add: served_def)
  have st: "streamed bo s pending sent 0 0 (pl, w) frs xs (lc_pl lc1, lc_w lc1)" using one(2) by (simp add: served_def)
  have all: "taken bo (pending (lc_w lc1)) = []" if "length (pending w) \<le> length (filter (\<lambda>e. e = CaptureReadable) es1)"
    using that one(2) by (simp add: served_def taken_def arriving_def)
  have t: "taken bo (pending w) = map (\<lambda>fr. take (snd fr) (fst fr)) frs @ taken bo (pending (lc_w lc1))" using st by (simp add: streamed_def)
  have reg: "us_rate h = rate" "us_name h = take 31 name" using h by (auto simp: ubus_stats_start_def Let_def split: if_splits)
  show ?thesis
    using run n two(3,5) t all same reg streamed_counts[OF m(1) pl st refl]
    by (intro exI[of _ "lc2\<lparr>lc_replies := lc_replies lc2 @ [status_cb h2]\<rparr>"] exI[of _ "status_cb h2"]
        exI[of _ "map (\<lambda>fr. take (snd fr) (fst fr)) frs"] exI[of _ "taken bo (pending (lc_w lc1))"])
      (simp add: status_cb_def)
qed

definition silent_announcer :: sap_announcer where
  "silent_announcer = \<lparr>sa_snd = \<lparr>snd_fd = - 1, snd_dest = None\<rparr>, sa_pkt = [], sa_len = 0, sa_active = False\<rparr>"

theorem status_calls_answered_witness:
  "\<exists>lc' h. ubus_stats_start ubus_flags (Some ''desk'') None 48000 40 None None = Some h \<and>
     listen_events sample_loop_env False mode_48k sample_sender \<lparr>cap_fd = 5\<rparr> ([CaptureReadable, CaptureReadable] @ PublishTimer # [StatusCall] @ [StatusCall])
       (listen_start (pipeline_init_ex libreac_doc mode_48k 97 7 0 0) (Some h) silent_announcer sample_traffic) = Some lc' \<and>
     length (lc_replies lc') = 2 \<and> map_of (last (lc_replies lc')) ''packets'' = Some (BlobU64 1) \<and>
     map_of (last (lc_replies lc')) ''concealed'' = Some (BlobU64 0)"
proof -
  obtain h where h: "ubus_stats_start ubus_flags (Some ''desk'') None 48000 40 None None = Some h" by (simp add: ubus_stats_start_def Let_def)
  have w: "length (lw_inbox sample_traffic) = 2" by (simp add: sample_traffic_def)
  obtain lc' r fs where run: "listen_events sample_loop_env False mode_48k sample_sender \<lparr>cap_fd = 5\<rparr>
        ([CaptureReadable, CaptureReadable] @ PublishTimer # [StatusCall] @ [StatusCall])
        (listen_start (pipeline_init_ex libreac_doc mode_48k 97 7 0 0) (Some h) silent_announcer sample_traffic) = Some lc'"
      "length (lc_replies lc') = 2" "r = last (lc_replies lc')" "taken False (lw_inbox sample_traffic) = fs"
      "map_of r ''packets'' = Some (BlobU64 (of_nat (length (reac_records fs))))"
      "map_of r ''concealed'' = Some (BlobU64 (of_nat (length (filter id (concealed_at mode_48k (reac_records fs))))))"
    using status_calls_answered[of sample_loop_env lw_inbox lw_sent "\<lparr>cap_fd = 5\<rparr>" mode_48k 0 silent_announcer sample_sender
        "pipeline_init_ex libreac_doc mode_48k 97 7 0 0" 97 7 0 "''desk''" None 48000 40 None None h "[StatusCall]" False
        "[CaptureReadable, CaptureReadable]" sample_traffic] h w
    by (auto simp: silent_announcer_def)
  have "reac_records fs = [sample_frame]" using run(4) sample_records_taken by simp
  then show ?thesis using run h sample_not_concealed by (intro exI[of _ lc'] exI[of _ h]) simp
qed

end
