(* ===== verification/Dante.thy ===== *)
theory Dante
  imports Daemon_Live
begin

text \<open>
  The Dante profile of the daemon, \<open>run_dante\<close> of \<open>src/main.c\<close>: one multicast flow per group of channels, announcements with
  the clock reference, and the packetiser behind the pipeline.  The state the callbacks share is the packetiser,
  the counter and senders of the emit context, and the outside world.
\<close>

record dante_cfg =
  dc_base_ip :: string
  dc_rtp_port :: u16
  dc_ch_per_flow :: int
  dc_pt :: byte
  dc_ssrc_base :: u32
  dc_ttl :: int
  dc_iface_egress :: "string option"
  dc_name :: "string option"
  dc_origin :: string
  dc_gmid :: string
  dc_ptp_domain :: int
  dc_media_dscp :: int
  dc_count_only :: bool
  dc_do_sap :: bool

definition emit_noop :: "'c emit_fn" where
  "emit_noop b c ctx = Some ctx"

record dante_emit_ctx =
  de_senders :: "aes67_sender list option"
  de_n_flows :: int
  de_count :: int

definition dante_emit ::
  "'w os \<Rightarrow> nat \<Rightarrow> byte list \<Rightarrow> bool \<Rightarrow> dante_emit_ctx \<times> 'w \<Rightarrow> (dante_emit_ctx \<times> 'w) option" where
  "dante_emit K flow_index buf concealed = (\<lambda>(d, w). do {
     count \<leftarrow> c_int (de_count d + 1);
     let d = d\<lparr>de_count := count\<rparr>;
     case de_senders d of
       None \<Rightarrow> Some (d, w)
     | Some senders \<Rightarrow>
         if int flow_index < de_n_flows d then do {
           s \<leftarrow> rd senders flow_index;
           Some (d, snd (aes67_send_packet K s buf w))
         } else Some (d, w)
   })"

definition dante_pcm_sink ::
  "libreac \<Rightarrow> 'w os \<Rightarrow> byte list \<Rightarrow> u32 \<Rightarrow> bool \<Rightarrow> packetizer \<times> dante_emit_ctx \<times> 'w \<Rightarrow>
   (packetizer \<times> dante_emit_ctx \<times> 'w) option" where
  "dante_pcm_sink L K pcm rtp_ts concealed s = packetizer_push L (fst s) pcm rtp_ts concealed (dante_emit K) (snd s)"

definition dante_sap_announce ::
  "'w os \<Rightarrow> bool \<Rightarrow> aes67_sender \<Rightarrow> (byte list \<times> int) list \<Rightarrow> int \<Rightarrow> 'w \<Rightarrow> 'w option" where
  "dante_sap_announce K sap_ok sap_snd saps n_flows w =
     (if \<not> sap_ok then Some w
      else forn (nat n_flows) (\<lambda>i w. do {
        (pkt, len) \<leftarrow> rd saps i;
        Some (if len > 0 then snd (aes67_send_packet K sap_snd (take (nat len) pkt) w) else w)
      }) w)"

text \<open>The loop that opens the senders; it stops at the first failure with the senders opened so far.\<close>

fun dante_open_flows ::
  "'w env \<Rightarrow> dante_cfg \<Rightarrow> nat list \<Rightarrow> aes67_sender list \<Rightarrow> 'w \<Rightarrow> (bool \<times> aes67_sender list \<times> 'w) option" where
  "dante_open_flows E cfg [] senders w = Some (True, senders, w)"
| "dante_open_flows E cfg (i # is) senders w = do {
     (rc, fip) \<leftarrow> ipv4_add_octet (dc_base_ip cfg) (int i) (replicate 64 0) 64;
     if rc \<noteq> 0 then Some (False, senders, w)
     else do {
       ip \<leftarrow> c_string fip;
       let (orc, s, w) = aes67_send_open (en_os E) (en_calloc E w) ip (dc_rtp_port cfg) (dc_ttl cfg) (dc_iface_egress cfg) w;
       if orc \<noteq> 0 then Some (False, senders, w)
       else do {
         let (_, w) = aes67_send_set_dscp (en_os E) s (dc_media_dscp cfg) w;
         dante_open_flows E cfg is (senders @ [s]) w
       }
     }
   }"

definition close_senders :: "'w os \<Rightarrow> aes67_sender list \<Rightarrow> 'w \<Rightarrow> 'w" where
  "close_senders K senders w = fold (\<lambda>s w. snd (aes67_send_close K s w)) senders w"

text \<open>The announcement of one flow; a length of 0 is one that could not be built.\<close>

definition dante_flow_sdp :: "dante_cfg \<Rightarrow> reac_mode \<Rightarrow> string \<Rightarrow> string \<Rightarrow> reac_flow \<Rightarrow> nat \<Rightarrow> sdp_params" where
  "dante_flow_sdp cfg mode gmstr fip fl i =
     \<lparr>sp_session_name = truncated 64 ((case dc_name cfg of None \<Rightarrow> ''REAC'' | Some s \<Rightarrow> s) @ ''-'' @ decimal (i + 1)),
      sp_origin_ip = dc_origin cfg, sp_mcast_ip = fip, sp_mcast_port = uint (dc_rtp_port cfg),
      sp_payload_type = uint (fl_payload_type fl), sp_rate = sample_rate mode, sp_channels = fl_n_ch fl,
      sp_ttl = dc_ttl cfg, sp_ptime_ms = 1, sp_ts_refclk = Some gmstr, sp_mediaclk_direct = 0\<rparr>"

definition dante_flow_sap ::
  "'w os \<Rightarrow> dante_cfg \<Rightarrow> reac_mode \<Rightarrow> string \<Rightarrow> reac_flow \<Rightarrow> nat \<Rightarrow> (byte list \<times> int) option" where
  "dante_flow_sap K cfg mode gmstr fl i = do {
     (rc, fip) \<leftarrow> ipv4_add_octet (dc_base_ip cfg) (int i) (replicate 64 0) 64;
     if rc \<noteq> 0 then Some (replicate 1024 0, 0)
     else do {
       ip \<leftarrow> c_string fip;
       (n, sdp) \<leftarrow> sdp_build (replicate 768 0) 768 (dante_flow_sdp cfg mode gmstr ip fl i);
       if n \<ge> 0 then do {
         h \<leftarrow> sap_hash (Some sdp);
         (len, pkt) \<leftarrow> sap_build K (replicate 1024 0) 1024 (dc_origin cfg) h sdp;
         Some (pkt, len)
       } else Some (replicate 1024 0, 0)
     }
   }"

definition dante_saps ::
  "'w os \<Rightarrow> dante_cfg \<Rightarrow> reac_mode \<Rightarrow> string \<Rightarrow> reac_flow list \<Rightarrow> nat \<Rightarrow> (byte list \<times> int) list option" where
  "dante_saps K cfg mode gmstr flows n = forn n (\<lambda>i saps. do {
     fl \<leftarrow> rd flows i;
     x \<leftarrow> dante_flow_sap K cfg mode gmstr fl i;
     Some (saps @ [x])
   }) []"

definition dante_open_sap ::
  "'w env \<Rightarrow> dante_cfg \<Rightarrow> reac_mode \<Rightarrow> string \<Rightarrow> reac_flow list \<Rightarrow> nat \<Rightarrow> 'w \<Rightarrow>
   (bool \<times> aes67_sender \<times> (byte list \<times> int) list \<times> 'w) option" where
  "dante_open_sap E cfg mode gmstr flows n w =
     (if \<not> dc_count_only cfg \<and> dc_do_sap cfg then
        (let (rc, s, w) = aes67_send_open (en_os E) (en_calloc E w) SAP_MCAST_ADDR_DANTE SAP_PORT (dc_ttl cfg) (dc_iface_egress cfg) w in
         if rc = 0 then do {
           saps \<leftarrow> dante_saps (en_os E) cfg mode gmstr flows n;
           Some (True, s, saps, w)
         } else Some (False, s, [], w))
      else Some (False, \<lparr>snd_fd = - 1, snd_dest = None\<rparr>, [], w))"

text \<open>The live loop; \<open>frames\<close> is an \<open>unsigned long\<close>.\<close>

type_synonym 'w dante_state = "packetizer \<times> dante_emit_ctx \<times> 'w"

definition reannounce ::
  "'w os \<Rightarrow> bool \<Rightarrow> aes67_sender \<Rightarrow> (byte list \<times> int) list \<Rightarrow> int \<Rightarrow> 'w dante_state \<Rightarrow> 'w dante_state option" where
  "reannounce K sap_ok sap_snd saps n_flows = (\<lambda>(pk, d, w). do {
     w \<leftarrow> dante_sap_announce K sap_ok sap_snd saps n_flows w;
     Some (pk, d, w)
   })"

partial_function (option) dante_loop ::
  "'w env \<Rightarrow> reac_capture \<Rightarrow> bool \<Rightarrow> aes67_sender \<Rightarrow> (byte list \<times> int) list \<Rightarrow> int \<Rightarrow> int \<Rightarrow> byte list \<Rightarrow> nat \<Rightarrow>
   'w dante_state pipeline \<Rightarrow> 'w dante_state \<Rightarrow> 'w dante_state option" where
  "dante_loop E cap sap_ok sap_snd saps n_flows pps buf frames pl st =
     (if en_stop E (snd (snd st)) then Some st
      else do {
        (n, buf, w) \<leftarrow> reac_capture_next (en_os E) cap buf 2048 (snd (snd st));
        let st = (fst st, fst (snd st), w);
        if n < 0 then Some st
        else if n = 0 then do {
          st \<leftarrow> reannounce (en_os E) sap_ok sap_snd saps n_flows st;
          dante_loop E cap sap_ok sap_snd saps n_flows pps buf frames pl st
        } else do {
          (rc, pl, st) \<leftarrow> pipeline_on_frame (en_lib E) pl buf (nat n) emit_noop st;
          if pps > 0 then do {
            let frames = (frames + 1) mod 2 ^ en_long_bits E;
            st \<leftarrow> (if frames mod nat pps = 0 then reannounce (en_os E) sap_ok sap_snd saps n_flows st else Some st);
            dante_loop E cap sap_ok sap_snd saps n_flows pps buf frames pl st
          } else dante_loop E cap sap_ok sap_snd saps n_flows pps buf frames pl st
        }
      })"

text \<open>The part of \<open>run_dante\<close> between the announcements and the cleanup: the replay or the live loop.\<close>

definition dante_source ::
  "'w env \<Rightarrow> pcap_source \<Rightarrow> string option \<Rightarrow> string option \<Rightarrow> reac_mode \<Rightarrow> bool \<Rightarrow> aes67_sender \<Rightarrow> (byte list \<times> int) list \<Rightarrow> int \<Rightarrow>
   'w dante_state pipeline \<Rightarrow> 'w dante_state \<Rightarrow> (int \<times> 'w dante_state) option" where
  "dante_source E ps pcap iface mode sap_ok sap_snd saps n_flows pl st = (case pcap of
     Some path \<Rightarrow> do {
       (rc, ps) \<leftarrow> pcap_source_open (en_fopen E path) ps;
       if rc \<noteq> 0 then Some (1, st)
       else do {
         (n, ps, pl, st) \<leftarrow> pcap_loop (en_long_bits E) (\<lambda>(pl, st) buf n. do {
             (rc, pl, st) \<leftarrow> pipeline_on_frame (en_lib E) pl buf n emit_noop st;
             Some (pl, st)
           }) ps (replicate 2048 0) 2048 (pl, st);
         let ps = pcap_source_close ps;
         Some (0, st)
       }
     }
   | None \<Rightarrow> (case iface of
       None \<Rightarrow> Some (0, st)
     | Some ifname \<Rightarrow>
         (let (pk, d, w) = st; (rc, cap, w) = reac_capture_open (en_os E) ifname w in
          if rc \<noteq> 0 then Some (1, (pk, d, w))
          else do {
            let (_, w) = reac_capture_set_nonblock (en_os E) cap False w;
            pps \<leftarrow> c_div (sample_rate mode) (samples_per_pkt mode);
            (pk, d, w) \<leftarrow> dante_loop E cap sap_ok sap_snd saps n_flows pps (replicate 2048 0) 0 pl (pk, d, w);
            let (_, w) = reac_capture_close (en_os E) cap w;
            Some (0, (pk, d, w))
          })))"

text \<open>The RTP anchor, and the part that runs once the senders are open.\<close>

definition dante_anchor :: "'w env \<Rightarrow> reac_mode \<Rightarrow> u32" where
  "dante_anchor E mode = (case ptp_now_tai (en_has_tai E) (en_tai E) (Some 0) (Some 0) of
     (rc, Some tsec, Some tnsec) \<Rightarrow> if rc = 0 then tai_to_rtp_ts tsec tnsec (sample_rate mode) else 0
   | _ \<Rightarrow> 0)"

definition dante_serve ::
  "'w env \<Rightarrow> pcap_source \<Rightarrow> packetizer \<Rightarrow> string option \<Rightarrow> string option \<Rightarrow> reac_mode \<Rightarrow> dante_cfg \<Rightarrow> reac_flow list \<Rightarrow> int \<Rightarrow>
   aes67_sender list \<Rightarrow> 'w \<Rightarrow> (int \<times> string \<times> 'w) option" where
  "dante_serve E ps pk0 pcap iface mode cfg flows n_flows senders w = do {
     let K = en_os E;
     let gmstr = truncated 80 (dc_gmid cfg @ '':'' @ decimal_int (dc_ptp_domain cfg));
     (sap_ok, sap_snd, saps, w) \<leftarrow> dante_open_sap E cfg mode gmstr flows (nat n_flows) w;
     let pk = packetizer_init pk0 mode 4 flows n_flows;
     let d = \<lparr>de_senders = (if dc_count_only cfg then None else Some senders), de_n_flows = n_flows, de_count = 0\<rparr>;
     let pl = pipeline_init (en_lib E) mode (dc_pt cfg) (dc_ssrc_base cfg);
     let pl = pipeline_anchor pl (dante_anchor E mode);
     let pl = pipeline_set_pcm_sink pl (Some (dante_pcm_sink (en_lib E) K));
     w \<leftarrow> dante_sap_announce K sap_ok sap_snd saps n_flows w;
     (rc, pk, d, w) \<leftarrow> dante_source E ps pcap iface mode sap_ok sap_snd saps n_flows pl (pk, d, w);
     let out = (if dc_count_only cfg
                then ''rtp_packets '' @ decimal_int (de_count d) @ '' flows '' @ decimal_int n_flows @ [CHR 0x0A] else []);
     let w = (if sap_ok then snd (aes67_send_close K sap_snd w) else w);
     Some (rc, out, close_senders K senders w)
   }"

definition run_dante ::
  "'w env \<Rightarrow> pcap_source \<Rightarrow> packetizer \<Rightarrow> reac_flow list \<Rightarrow> string option \<Rightarrow> string option \<Rightarrow> reac_mode \<Rightarrow> dante_cfg \<Rightarrow> 'w \<Rightarrow>
   (int \<times> string \<times> 'w) option" where
  "run_dante E ps pk0 flows0 pcap iface mode cfg w = do {
     (n_flows, flows) \<leftarrow> dante_build_flows flows0 (int (REAC_MAX_CHANNELS (en_lib E))) (n_channels mode)
                          (dc_ch_per_flow cfg) (dc_pt cfg) (dc_ssrc_base cfg);
     if n_flows < 0 then Some (2, [], w)
     else do {
       (ok, senders, w) \<leftarrow> (if \<not> dc_count_only cfg then dante_open_flows E cfg [0..<nat n_flows] [] w
                            else Some (True, [], w));
       if \<not> ok then Some (1, [], close_senders (en_os E) senders w)
       else dante_serve E ps pk0 pcap iface mode cfg flows n_flows senders w
     }
   }"

subsection \<open>Descriptors\<close>

lemma push_keeps:
  assumes "\<And>i b c w w'. P w \<Longrightarrow> emit i b c w = Some w' \<Longrightarrow> P w'"
    and "packetizer_push L pk pcm ts con emit w = Some (pk', w')" and "P w"
  shows "P w'"
proof -
  have loop: "P (snd t)" if "forn n (\<lambda>i (flows, ctx). do {
           fl \<leftarrow> rd flows i;
           (k, pkt) \<leftarrow> build i fl;
           if k > 0 then do {
             ctx \<leftarrow> emit i (take (nat k) pkt) flag ctx;
             flows \<leftarrow> wr flows i (fl\<lparr>fl_seq := fl_seq fl + 1\<rparr>);
             Some (flows, ctx)
           } else Some (flows, ctx)
         }) (fls, w) = Some t" for n build flag fls t
    by (rule forn_keeps[where P = "\<lambda>s. P (snd s)", OF _ that])
      (use assms(1,3) in \<open>auto simp: bind_eq_Some_conv split: if_splits\<close>)
  show ?thesis
    using assms(2,3) unfolding packetizer_push_def Let_def
    by (auto simp: bind_eq_Some_conv split: if_splits dest!: loop)
qed

lemma dante_emit_fds:
  assumes "documented_fds K fds" and "dante_emit K i b c s = Some s'"
  shows "fds (snd s') = fds (snd s)"
  using assms(2) send_packet_fds[OF assms(1)]
  by (auto simp: dante_emit_def Let_def bind_eq_Some_conv split: prod.splits option.splits if_splits)

interpretation dante: output_invariant emit_noop "Some (dante_pcm_sink L K)"
  "\<lambda>s. documented_fds K fds \<and> fds (snd (snd s)) = F" for L K fds F
proof
  show "documented_fds K fds \<and> fds (snd (snd w')) = F"
    if "documented_fds K fds \<and> fds (snd (snd w)) = F" "emit_noop bs c w = Some w'" for w bs c w'
    using that by (simp add: emit_noop_def)
  show "documented_fds K fds \<and> fds (snd (snd w')) = F"
    if "Some (dante_pcm_sink L K) = Some f" "documented_fds K fds \<and> fds (snd (snd w)) = F" "f pcm ts c w = Some w'" for f w pcm ts c w'
  proof -
    have "packetizer_push L (fst w) pcm ts c (dante_emit K) (snd w) = Some (fst w', snd w')"
      using that by (auto simp: dante_pcm_sink_def)
    from push_keeps[where P = "\<lambda>s. fds (snd s) = F", OF _ this] show ?thesis
      using that(2) dante_emit_fds[of K fds] by auto
  qed
qed

lemma dante_announce_fds:
  assumes "documented_fds K fds" and "dante_sap_announce K ok s saps n w = Some w'"
  shows "fds w' = fds w"
proof (cases ok)
  case True
  have "forn (nat n) (\<lambda>i w. do {
        (pkt, len) \<leftarrow> rd saps i;
        Some (if len > 0 then snd (aes67_send_packet K s (take (nat len) pkt) w) else w)
      }) w = Some w'" using assms(2) True by (simp add: dante_sap_announce_def)
  then show ?thesis
  proof (rule forn_keeps[where P = "\<lambda>v. fds v = fds w", rotated])
    fix i v v'
    assume v: "fds v = fds w" and "do { (pkt, len) \<leftarrow> rd saps i;
        Some (if len > 0 then snd (aes67_send_packet K s (take (nat len) pkt) v) else v) } = Some v'"
    then have "fds v' = fds v"
      using send_packet_fds[OF assms(1)] by (cases "rd saps i") (auto split: if_splits)
    then show "fds v' = fds w" using v by simp
  qed simp
qed (use assms(2) in \<open>simp add: dante_sap_announce_def\<close>)

lemma reannounce_fds:
  assumes "documented_fds K fds" and "reannounce K ok s saps n st = Some st'"
  shows "fds (snd (snd st')) = fds (snd (snd st))"
proof -
  obtain pk d w where st: "st = (pk, d, w)" by (cases st) auto
  obtain w2 where "dante_sap_announce K ok s saps n w = Some w2" "st' = (pk, d, w2)"
    using assms(2) unfolding reannounce_def st by (cases "dante_sap_announce K ok s saps n w") auto
  with dante_announce_fds[OF assms(1)] show ?thesis by (simp add: st)
qed

lemma dante_loop_fds:
  assumes "dante_loop E cap ok s saps nf pps buf fc pl st = Some st'" and "documented_fds (en_os E) fds"
    and "pl_pcm_sink pl = Some (dante_pcm_sink (en_lib E) (en_os E))"
  shows "fds (snd (snd st')) = fds (snd (snd st))"
proof -
  let ?P = "\<lambda>E (cap :: reac_capture) (ok :: bool) (s :: aes67_sender) (saps :: (byte list \<times> int) list) (nf :: int) (pps :: int) (buf :: byte list)
      (fc :: nat) pl st st'. documented_fds (en_os E) fds \<longrightarrow> pl_pcm_sink pl = Some (dante_pcm_sink (en_lib E) (en_os E)) \<longrightarrow>
        fds (snd (snd st')) = fds (snd (snd st))"
  have "?P E cap ok s saps nf pps buf fc pl st st'"
    using assms(1)
  proof (rule dante_loop.raw_induct[where P = ?P, rotated], intro impI)
    fix f :: "'a env \<Rightarrow> reac_capture \<Rightarrow> bool \<Rightarrow> aes67_sender \<Rightarrow> (byte list \<times> int) list \<Rightarrow> int \<Rightarrow> int \<Rightarrow> byte list \<Rightarrow> nat \<Rightarrow>
        'a dante_state pipeline \<Rightarrow> 'a dante_state \<Rightarrow> 'a dante_state option" and E cap ok s saps nf pps buf fc pl st st'
    assume IH: "\<And>E cap ok s saps nf pps buf fc pl st st'. f E cap ok s saps nf pps buf fc pl st = Some st' \<Longrightarrow>
        ?P E cap ok s saps nf pps buf fc pl st st'"
      and K: "documented_fds (en_os E) fds" and sink: "pl_pcm_sink pl = Some (dante_pcm_sink (en_lib E) (en_os E))"
      and step: "(if en_stop E (snd (snd st)) then Some st
      else do {
        (n, buf, w) \<leftarrow> reac_capture_next (en_os E) cap buf 2048 (snd (snd st));
        let st = (fst st, fst (snd st), w);
        if n < 0 then Some st
        else if n = 0 then do {
          st \<leftarrow> reannounce (en_os E) ok s saps nf st;
          f E cap ok s saps nf pps buf fc pl st
        } else do {
          (rc, pl, st) \<leftarrow> pipeline_on_frame (en_lib E) pl buf (nat n) emit_noop st;
          if pps > 0 then do {
            let frames = (fc + 1) mod 2 ^ en_long_bits E;
            st \<leftarrow> (if frames mod nat pps = 0 then reannounce (en_os E) ok s saps nf st else Some st);
            f E cap ok s saps nf pps buf frames pl st
          } else f E cap ok s saps nf pps buf fc pl st
        }
      }) = Some st'"
    show "fds (snd (snd st')) = fds (snd (snd st))"
    proof (cases "en_stop E (snd (snd st))")
      case True
      then show ?thesis using step by simp
    next
      case False
      note step' = step[unfolded if_not_P[OF False]]
      obtain n buf1 w1 where c: "reac_capture_next (en_os E) cap buf 2048 (snd (snd st)) = Some (n, buf1, w1)"
        using step' by (rule bind_some3)
      let ?st = "(fst st, fst (snd st), w1)"
      have w1: "fds w1 = fds (snd (snd st))" using capture_next_fds[OF c K] by simp
      note step2 = step'[unfolded c bind.bind_lunit prod.case Let_def]
      consider "n < 0" | "n = 0" | "n > 0" by linarith
      then show ?thesis
      proof cases
        case 1
        from step2[unfolded if_P[OF 1]] have "st' = ?st" by simp
        then show ?thesis using w1 by simp
      next
        case 2
        then have "\<not> n < 0" by simp
        from step2[unfolded if_not_P[OF this] if_P[OF 2]] obtain st2 where
          r: "reannounce (en_os E) ok s saps nf ?st = Some st2" "f E cap ok s saps nf pps buf1 fc pl st2 = Some st'"
          by (cases "reannounce (en_os E) ok s saps nf ?st") simp_all
        from IH[OF r(2)] reannounce_fds[OF K r(1)] K sink w1 show ?thesis by simp
      next
        case 3
        then have "\<not> n < 0" "n \<noteq> 0" by simp_all
        note step3 = step2[unfolded if_not_P[OF this(1)] if_not_P[OF this(2)]]
        obtain rc pl2 st2 where fr: "pipeline_on_frame (en_lib E) pl buf1 (nat n) emit_noop ?st = Some (rc, pl2, st2)"
          using step3 by (rule bind_some3)
        have k2: "fds (snd (snd st2)) = fds w1 \<and> pl_pcm_sink pl2 = Some (dante_pcm_sink (en_lib E) (en_os E))"
          using dante.on_frame_keeps[OF fr _ sink, of fds "fds w1"] K by simp
        obtain fc3 st3 where "f E cap ok s saps nf pps buf1 fc3 pl2 st3 = Some st'" "fds (snd (snd st3)) = fds (snd (snd st2))"
          using step3[unfolded fr bind.bind_lunit prod.case] reannounce_fds[OF K, of ok s saps nf st2]
          by (auto simp: bind_eq_Some_conv split: if_splits)
        with IH[OF this(1)] K k2 w1 show ?thesis by simp
      qed
    qed
  qed
  then show ?thesis using assms by blast
qed

text \<open>The senders \<open>ss\<close> are open, on descriptors of their own beside \<open>F\<close>.\<close>

definition opened :: "('w \<Rightarrow> int set) \<Rightarrow> int set \<Rightarrow> aes67_sender list \<Rightarrow> 'w \<Rightarrow> bool" where
  "opened fds F ss w \<longleftrightarrow> distinct (map snd_fd ss) \<and> (\<forall>s \<in> set ss. 0 \<le> snd_fd s \<and> snd_fd s \<notin> F) \<and>
     fds w = F \<union> snd_fd ` set ss"

lemma open_flows_opened:
  assumes "documented_fds (en_os E) fds" and "dante_open_flows E cfg is ss w = Some (ok, ss', w')" and "opened fds F ss w"
  shows "opened fds F ss' w'"
  using assms(2,3)
proof (induction "is" arbitrary: ss w)
  case Nil
  then show ?case by simp
next
  case (Cons i "is")
  obtain rc fip where a: "ipv4_add_octet (dc_base_ip cfg) (int i) (replicate 64 0) 64 = Some (rc, fip)"
    using Cons.prems(1) by (cases "ipv4_add_octet (dc_base_ip cfg) (int i) (replicate 64 0) 64") auto
  show ?case
  proof (cases "rc = 0")
    case False
    then show ?thesis using Cons.prems a by simp
  next
    case True
    obtain ip where ip: "c_string fip = Some ip" using Cons.prems(1) a True by (cases "c_string fip") auto
    obtain orc s w1 where o: "aes67_send_open (en_os E) (en_calloc E w) ip (dc_rtp_port cfg) (dc_ttl cfg) (dc_iface_egress cfg) w = (orc, s, w1)"
      by (metis prod.collapse)
    note F = send_open_fds[OF assms(1) o]
    show ?thesis
    proof (cases "orc = 0")
      case False
      then show ?thesis using Cons.prems a True ip o F by (simp add: opened_def)
    next
      case orc: True
      let ?w2 = "snd (aes67_send_set_dscp (en_os E) s (dc_media_dscp cfg) w1)"
      have "dante_open_flows E cfg is (ss @ [s]) ?w2 = Some (ok, ss', w')"
        using Cons.prems(1) a True ip o orc by (simp add: case_prod_unfold)
      moreover have "opened fds F (ss @ [s]) ?w2"
        using Cons.prems(2) F orc send_dscp_fds[OF assms(1)] by (auto simp: opened_def)
      ultimately show ?thesis by (rule Cons.IH)
    qed
  qed
qed

lemma close_senders_fds:
  assumes "documented_fds K fds" and "\<forall>s \<in> set ss. 0 \<le> snd_fd s"
  shows "fds (close_senders K ss w) = fds w - snd_fd ` set ss"
  using assms(2) by (induction ss arbitrary: w) (auto simp: close_senders_def send_close_fds[OF assms(1)])

lemma dante_source_fds:
  assumes "documented_fds (en_os E) fds" and "dante_source E ps pcap iface m ok s saps nf pl st = Some (rc, st')"
    and "pl_pcm_sink pl = Some (dante_pcm_sink (en_lib E) (en_os E))"
  shows "fds (snd (snd st')) = fds (snd (snd st))"
proof (cases pcap)
  case (Some path)
  let ?body = "\<lambda>(pl, st) buf n. do { (rc, pl, st) \<leftarrow> pipeline_on_frame (en_lib E) pl buf n emit_noop st; Some (pl, st) }"
  let ?Q = "\<lambda>t. fds (snd (snd (snd t))) = fds (snd (snd st)) \<and> pl_pcm_sink (fst t) = Some (dante_pcm_sink (en_lib E) (en_os E))"
  have keep: "?Q t'" if Q: "?Q t" and run: "?body t buf n = Some t'" for t t' buf n
  proof -
    obtain rc where "pipeline_on_frame (en_lib E) (fst t) buf n emit_noop (snd t) = Some (rc, fst t', snd t')"
      using run by (cases "pipeline_on_frame (en_lib E) (fst t) buf n emit_noop (snd t)") (auto simp: case_prod_unfold)
    from dante.on_frame_keeps[OF this, of "en_os E" fds "fds (snd (snd st))" "en_lib E"] Q assms(1) show ?thesis by simp
  qed
  obtain orc ps1 where o: "pcap_source_open (en_fopen E path) ps = Some (orc, ps1)"
    using assms(2) Some by (cases "pcap_source_open (en_fopen E path) ps") (auto simp: dante_source_def)
  show ?thesis
  proof (cases "orc = 0")
    case False
    then show ?thesis using assms(2) Some o by (simp add: dante_source_def)
  next
    case True
    then obtain r where r: "pcap_loop (en_long_bits E) ?body ps1 (replicate 2048 0) 2048 (pl, st) = Some r" "st' = snd (snd (snd r))"
      using assms(2) Some o
      by (cases "pcap_loop (en_long_bits E) ?body ps1 (replicate 2048 0) 2048 (pl, st)") (auto simp: dante_source_def)
    from pcap_loop_keeps[where Q = ?Q, OF r(1) keep] assms(3) show ?thesis by (simp add: r(2))
  qed
next
  case None
  show ?thesis
  proof (cases iface)
    case None
    then show ?thesis using assms(2) \<open>pcap = None\<close> by (simp add: dante_source_def)
  next
    case (Some ifname)
    obtain pk d w where st: "st = (pk, d, w)" by (cases st) auto
    obtain orc cap w1 where o: "reac_capture_open (en_os E) ifname w = (orc, cap, w1)" by (metis prod.collapse)
    obtain c' w1' where cl: "reac_capture_close (en_os E) cap w1 = (c', w1')" by fastforce
    note C = capture_fds[OF assms(1) o cl]
    show ?thesis
    proof (cases "orc = 0")
      case False
      then show ?thesis using assms(2) C o by (auto simp: dante_source_def st Some \<open>pcap = None\<close>)
    next
      case True
      let ?w2 = "snd (reac_capture_set_nonblock (en_os E) cap False w1)"
      obtain pps st2 where l: "dante_loop E cap ok s saps nf pps (replicate 2048 0) 0 pl (pk, d, ?w2) = Some st2"
          "st' = (fst st2, fst (snd st2), snd (reac_capture_close (en_os E) cap (snd (snd st2))))"
        using assms(2) True o
        by (auto simp: dante_source_def st Some \<open>pcap = None\<close> bind_eq_Some_conv case_prod_unfold Let_def)
      have "fds (snd (snd st2)) = fds w1"
        using dante_loop_fds[OF l(1) assms(1,3)] set_nonblock_fds[OF assms(1)] by simp
      then show ?thesis
        using C True documented_fdsD(3)[OF assms(1)] by (simp add: l(2) st reac_capture_close_def)
    qed
  qed
qed

lemma dante_serve_fds:
  assumes "documented_fds (en_os E) fds" and "dante_serve E ps pk0 pcap iface m cfg flows n ss w = Some (rc, out, w')"
  shows "\<exists>v. fds v = fds w \<and> w' = close_senders (en_os E) ss v"
proof -
  let ?K = "en_os E" and ?gm = "truncated 80 (dc_gmid cfg @ '':'' @ decimal_int (dc_ptp_domain cfg))"
  let ?pl = "pipeline_set_pcm_sink (pipeline_anchor (pipeline_init (en_lib E) m (dc_pt cfg) (dc_ssrc_base cfg)) (dante_anchor E m))
      (Some (dante_pcm_sink (en_lib E) ?K))"
  obtain ok s saps w1 where o: "dante_open_sap E cfg m ?gm flows (nat n) w = Some (ok, s, saps, w1)"
    using assms(2) unfolding dante_serve_def Let_def by (rule bind_some4)
  obtain orc sn wo where oo: "aes67_send_open ?K (en_calloc E w) SAP_MCAST_ADDR_DANTE SAP_PORT (dc_ttl cfg) (dc_iface_egress cfg) w = (orc, sn, wo)"
    by (metis prod.collapse)
  have ok: "if ok then 0 \<le> snd_fd s \<and> snd_fd s \<notin> fds w \<and> fds w1 = insert (snd_fd s) (fds w) else fds w1 = fds w"
    using o send_open_fds[OF assms(1) oo] by (auto simp: dante_open_sap_def oo bind_eq_Some_conv split: if_splits)
  obtain w2 rc2 pk d w3 where a: "dante_sap_announce ?K ok s saps n w1 = Some w2"
      and src: "dante_source E ps pcap iface m ok s saps n ?pl (packetizer_init pk0 m 4 flows n,
         \<lparr>de_senders = (if dc_count_only cfg then None else Some ss), de_n_flows = n, de_count = 0\<rparr>, w2) = Some (rc2, pk, d, w3)"
      and fin: "w' = close_senders ?K ss (if ok then snd (aes67_send_close ?K s w3) else w3)"
    using assms(2) unfolding dante_serve_def Let_def o
    by (auto simp: bind_eq_Some_conv)
  have "fds w3 = fds w1"
    using dante_source_fds[OF assms(1) src] dante_announce_fds[OF assms(1) a] by (simp add: pipeline_set_pcm_sink_def)
  then have "fds (if ok then snd (aes67_send_close ?K s w3) else w3) = fds w"
    using ok send_close_fds[OF assms(1), of s w3] by (auto split: if_splits)
  then show ?thesis using fin by blast
qed

text \<open>
  The Dante mode leaks no descriptor.  On every path on which \<open>run_dante\<close> returns, with a refused flow split, a sender that cannot be opened after
  others were, no announcements, a missing capture file or interface, or a complete run, the descriptors open afterwards are those open before.
\<close>

theorem run_dante_fds:
  assumes "documented_fds (en_os E) fds" and "run_dante E ps pk0 flows0 pcap iface m cfg w = Some (rc, out, w')"
  shows "fds w' = fds w"
proof -
  let ?K = "en_os E"
  obtain n flows where f: "dante_build_flows flows0 (int (REAC_MAX_CHANNELS (en_lib E))) (n_channels m)
      (dc_ch_per_flow cfg) (dc_pt cfg) (dc_ssrc_base cfg) = Some (n, flows)"
    using assms(2) unfolding run_dante_def by (rule bind_some2)
  note step = assms(2)[unfolded run_dante_def f bind.bind_lunit prod.case]
  show ?thesis
  proof (cases "n < 0")
    case True
    then show ?thesis using step by simp
  next
    case False
    obtain ok ss w1 where o: "(if \<not> dc_count_only cfg then dante_open_flows E cfg [0..<nat n] [] w else Some (True, [], w)) = Some (ok, ss, w1)"
      using step[unfolded if_not_P[OF False]] by (rule bind_some3)
    have "opened fds (fds w) [] w" by (simp add: opened_def)
    then have op: "opened fds (fds w) ss w1"
      using o open_flows_opened[OF assms(1)] by (auto split: if_splits)
    then have closed: "fds (close_senders ?K ss v) = fds w" if "fds v = fds w1" for v
      using that by (subst close_senders_fds[OF assms(1)]) (auto simp: opened_def)
    note step2 = step[unfolded if_not_P[OF False] o bind.bind_lunit prod.case]
    show ?thesis
    proof (cases ok)
      case False
      then show ?thesis using step2 closed by auto
    next
      case True
      then have "dante_serve E ps pk0 pcap iface m cfg flows n ss w1 = Some (rc, out, w')" using step2 by simp
      from dante_serve_fds[OF assms(1) this] closed show ?thesis by auto
    qed
  qed
qed

definition sample_dante :: dante_cfg where
  "sample_dante = \<lparr>dc_base_ip = dotted 239 69 10 0, dc_rtp_port = 5004, dc_ch_per_flow = 8, dc_pt = 97, dc_ssrc_base = 1000, dc_ttl = 1,
     dc_iface_egress = None, dc_name = None, dc_origin = ''0.0.0.0'', dc_gmid = ''00-00-00-00-00-00-00-00'', dc_ptp_domain = 0,
     dc_media_dscp = 34, dc_count_only = False, dc_do_sap = True\<rparr>"

text \<open>The addresses of two flows are opened: the sample system knows the first.\<close>

lemma sample_flow_ip:
  "i \<le> 255 \<Longrightarrow> \<exists>fip. ipv4_add_octet (dotted 239 69 10 0) (int i) (replicate 64 0) 64 = Some (0, fip) \<and> c_string fip = Some (dotted 239 69 10 i)"
  using add_octet_text[of 239 69 10 0 64 "replicate 64 0" i] by (simp add: c_string_text)

lemma dotted_sample: "dotted 239 69 10 0 = ''239.69.10.0''" "dotted 239 69 10 (Suc 0) = ''239.69.10.1''"
  by (simp_all add: dotted_def decimal.simps digit_def char_of_def bit_Suc_0_iff)

lemma sample_open: "aes67_send_open log_os True (dotted 239 69 10 0) p ttl None log_start =
    (0, \<lparr>snd_fd = 3, snd_dest = Some \<lparr>sin_port = p, sin_addr = [239, 69, 10, 0]\<rparr>\<rparr>, log_start\<lparr>lw_fds := {3}, lw_next := 4\<rparr>)"
  "aes67_send_open log_os True (dotted 239 69 10 (Suc 0)) p ttl None w = (- 1, \<lparr>snd_fd = - 1, snd_dest = None\<rparr>, w)"
  by (simp_all add: dotted_sample aes67_send_open_def log_os_def log_start_def)

theorem run_dante_fds_witness:
  "\<exists>w'. run_dante sample_env undefined undefined (replicate 40 undefined) (Some ''stage.pcap'') None mode_48k sample_dante log_start
      = Some (1, [], w') \<and> lw_fds w' = {}"
proof -
  obtain f0 where f0: "ipv4_add_octet (dotted 239 69 10 0) 0 (replicate 64 0) 64 = Some (0, f0)" "c_string f0 = Some (dotted 239 69 10 0)"
    using sample_flow_ip[of 0] by auto
  obtain f1 where f1: "ipv4_add_octet (dotted 239 69 10 0) 1 (replicate 64 0) 64 = Some (0, f1)" "c_string f1 = Some (dotted 239 69 10 (Suc 0))"
    using sample_flow_ip[of 1] by auto
  have e: "en_os sample_env = log_os" "en_calloc sample_env w" "en_lib sample_env = libreac_doc" for w by (simp_all add: sample_env_def)
  have up: "[0..<5] = [0, 1, 2, 3, 4 :: nat]" by (simp add: upt_rec)
  have opn: "dante_open_flows sample_env sample_dante [0..<5] [] log_start = Some (False,
      [\<lparr>snd_fd = 3, snd_dest = Some \<lparr>sin_port = 5004, sin_addr = [239, 69, 10, 0]\<rparr>\<rparr>], log_start\<lparr>lw_fds := {3}, lw_next := 4\<rparr>)"
    unfolding up by (simp add: f0 f1 e sample_open sample_dante_def aes67_send_set_dscp_def)
  have build: "dante_build_flows (replicate 40 undefined) 40 40 8 97 1000 = Some (5, map (flow_at 40 8 97 1000) [0..<5] @ replicate 35 undefined)"
    by (simp add: dante_build_flows_eq flow_count_def)
  have sel: "dc_ch_per_flow sample_dante = 8" "dc_pt sample_dante = 97" "dc_ssrc_base sample_dante = 1000" "\<not> dc_count_only sample_dante"
      "REAC_MAX_CHANNELS libreac_doc = 40"
    by (simp_all add: sample_dante_def geometry_simps)
  obtain w' where r: "run_dante sample_env undefined undefined (replicate 40 undefined) (Some ''stage.pcap'') None mode_48k sample_dante log_start
      = Some (1, [], w')"
    unfolding run_dante_def by (simp add: e sel build opn)
  then show ?thesis using run_dante_fds[of sample_env lw_fds, OF _ r] by (simp add: e log_start_def)
qed

end
