(* ===== verification/Dante_Stream.thy ===== *)
theory Dante_Stream
  imports Dante
begin

text \<open>
  What the Dante mode puts on the network: the composition of the pipeline, the packetiser and the senders.
\<close>

subsection \<open>The packets of a flow\<close>

definition flow_log :: "(nat \<times> byte list \<times> bool) list \<Rightarrow> aes67_sender list \<Rightarrow> (int \<times> byte list \<times> sockaddr) list" where
  "flow_log ps ss = concat (map (\<lambda>x. udp_log (ss ! fst x) [fst (snd x)]) ps)"

lemma emit_flows_dante:
  assumes "documented_trace K sent" and "de_senders d = Some ss"
    and "\<forall>x \<in> set ps. fst x < length ss \<and> int (fst x) < de_n_flows d" and "0 \<le> de_count d" and "de_count d \<le> 2147483647"
  shows "de_count d + int (length ps) \<le> 2147483647 \<Longrightarrow>
      \<exists>w'. emit_flows (dante_emit K) ps (d, w) = Some (d\<lparr>de_count := de_count d + int (length ps)\<rparr>, w') \<and> sent w' = sent w @ flow_log ps ss"
    and "\<not> de_count d + int (length ps) \<le> 2147483647 \<Longrightarrow> emit_flows (dante_emit K) ps (d, w) = None"
  using assms(2-)
proof (induction ps arbitrary: d w)
  case Nil
  { case 1 then show ?case by (simp add: flow_log_def) }
  { case 2 then show ?case by simp }
next
  case (Cons x ps)
  { case 1
    note that = this
    let ?d = "d\<lparr>de_count := de_count d + 1\<rparr>" and ?w = "snd (aes67_send_packet K (ss ! fst x) (fst (snd x)) w)"
    show ?case
  proof -
    have e: "dante_emit K (fst x) (fst (snd x)) (snd (snd x)) (d, w) = Some (?d, ?w)"
      using that by (simp add: dante_emit_def)
    have p: "de_count ?d + int (length ps) \<le> 2147483647" "de_senders ?d = Some ss"
        "\<forall>x \<in> set ps. fst x < length ss \<and> int (fst x) < de_n_flows ?d" "0 \<le> de_count ?d" "de_count ?d \<le> 2147483647"
      using that by auto
    obtain w' where "emit_flows (dante_emit K) ps (?d, ?w) = Some (?d\<lparr>de_count := de_count ?d + int (length ps)\<rparr>, w')"
        "sent w' = sent ?w @ flow_log ps ss"
      using Cons.IH(1)[of ?d ?w, OF p] by blast
    then show ?thesis
      using e send_packet_trace[OF assms(1)] by (simp add: flow_log_def add.assoc)
  qed
  }
  { case 2
    note that = this
    let ?d = "d\<lparr>de_count := de_count d + 1\<rparr>" and ?w = "snd (aes67_send_packet K (ss ! fst x) (fst (snd x)) w)"
    show ?case
  proof (cases "de_count d < 2147483647")
    case True
    then have "dante_emit K (fst x) (fst (snd x)) (snd (snd x)) (d, w) = Some (?d, ?w)"
      using that by (simp add: dante_emit_def)
    moreover have "emit_flows (dante_emit K) ps (?d, ?w) = None"
      using Cons.IH(2)[of ?d ?w] that True by auto
    ultimately show ?thesis by simp
  next
    case False
    then show ?thesis using that by (simp add: dante_emit_def)
  qed
  }
qed

text \<open>The packets of flow \<open>i\<close> among those of all flows.\<close>

definition of_flow :: "nat \<Rightarrow> (nat \<times> byte list \<times> bool) list \<Rightarrow> byte list list" where
  "of_flow i ps = map (\<lambda>x. fst (snd x)) (filter (\<lambda>x. fst x = i) ps)"

lemma of_flow_append: "of_flow i (xs @ ys) = of_flow i xs @ of_flow i ys"
  by (simp add: of_flow_def)

lemma of_flow_aggregated:
  assumes "i < nat (pk_n_flows pk)"
  shows "of_flow i (aggregated pk xs) = map (\<lambda>k. flow_packet (pk_mode pk) (fpp_of pk) (chunk xs (k * fpp_of pk) (fpp_of pk))
      ((pk_flows pk ! i)\<lparr>fl_seq := fl_seq (pk_flows pk ! i) + of_nat k\<rparr>)) [0..<length xs div fpp_of pk]"
proof -
  have one: "of_flow i (group_packets pk k g) = [flow_packet (pk_mode pk) (fpp_of pk) g
      ((pk_flows pk ! i)\<lparr>fl_seq := fl_seq (pk_flows pk ! i) + of_nat k\<rparr>)]" for k g
  proof -
    have "filter (\<lambda>j. j = i) [0..<n] = (if i < n then [i] else [])" for n by (induction n) auto
    then show ?thesis using assms by (simp add: of_flow_def group_packets_def filter_map o_def)
  qed
  have "of_flow i (concat (map (\<lambda>k. group_packets pk k (g k)) ks))
      = map (\<lambda>k. flow_packet (pk_mode pk) (fpp_of pk) (g k) ((pk_flows pk ! i)\<lparr>fl_seq := fl_seq (pk_flows pk ! i) + of_nat k\<rparr>)) ks" for ks g
    by (induction ks) (simp_all add: of_flow_append one, simp add: of_flow_def)
  then show ?thesis by (simp add: aggregated_def)
qed

lemma media_flow_log:
  assumes "distinct (map snd_fd ss)" and "\<forall>x \<in> set ps. fst x < length ss" and "i < length ss"
  shows "media (ss ! i) (flow_log ps ss) = udp_log (ss ! i) (of_flow i ps)"
  using assms(2)
proof (induction ps)
  case Nil
  then show ?case by (simp add: flow_log_def media_def of_flow_def udp_log_def split: option.split)
next
  case (Cons x ps)
  have "media (ss ! i) (udp_log (ss ! fst x) [fst (snd x)]) = udp_log (ss ! i) (of_flow i [x])"
  proof (cases "fst x = i")
    case True
    then show ?thesis by (simp add: media_log of_flow_def)
  next
    case False
    then have "snd_fd (ss ! fst x) \<noteq> snd_fd (ss ! i)"
      using assms(1,3) Cons.prems by (auto simp: distinct_conv_nth)
    then show ?thesis using False by (auto simp: media_def udp_log_def of_flow_def split: option.splits)
  qed
  moreover have "of_flow i (x # ps) = of_flow i [x] @ of_flow i ps" by (simp add: of_flow_def)
  ultimately show ?case using Cons by (simp add: flow_log_def media_append udp_log_append)
qed

text \<open>One flow of a Dante stream, over the blocks the pipeline hands out.\<close>

definition dante_stream ::
  "reac_mode \<Rightarrow> int \<Rightarrow> byte \<Rightarrow> u32 \<Rightarrow> u32 \<Rightarrow> pushed list \<Rightarrow> nat \<Rightarrow> byte list list \<Rightarrow> bool" where
  "dante_stream m cpf pt ssrc A blocks i pkts \<longleftrightarrow> length pkts = length blocks div 4 \<and>
     (let width = nat (min cpf (n_channels m - int i * cpf)) in
      \<forall>k < length pkts. \<exists>body.
        parse_rtp (pkts ! k) = Some (rtp_view_of \<lparr>rp_payload_type = pt, rp_seq = of_nat k,
          rp_timestamp = A + of_nat (4 * k) * word_of_int (samples_per_pkt m), rp_ssrc = ssrc + of_nat i\<rparr>, body) \<and>
        length body = width * (4 * sps_of m) * 3 \<and>
        (\<forall>t < 4 * sps_of m. \<forall>c < width. sample_at width body t c
           = rev (sample_at (sps_of m) (fst (blocks ! (4 * k + t div sps_of m))) (nat (int i * cpf) + c) (t mod sps_of m))))"

lemma dante_packets:
  assumes m: "mode_ok m" and cpf: "0 < cpf" and i: "i < flow_count (n_channels m) cpf"
    and blocks: "\<forall>x \<in> set blocks. length (fst x) = 2880" "in_slots A (samples_per_pkt m) 0 blocks"
  shows "dante_stream m cpf pt ssrc A blocks i (map (\<lambda>k. flow_packet m 4 (chunk blocks (k * 4) 4)
      ((flow_at (n_channels m) cpf pt ssrc i)\<lparr>fl_seq := of_nat k\<rparr>)) [0..<length blocks div 4])"
  unfolding dante_stream_def Let_def
proof (intro conjI allI impI)
  let ?pk = "map (\<lambda>k. flow_packet m 4 (chunk blocks (k * 4) 4)
      ((flow_at (n_channels m) cpf pt ssrc i)\<lparr>fl_seq := of_nat k\<rparr>)) [0..<length blocks div 4]"
  fix k assume "k < length ?pk"
  then have k: "k < length blocks div 4" by simp
  then have fit: "k * 4 + 4 \<le> length blocks" by linarith
  let ?fs = "chunk blocks (k * 4) 4" and ?fl = "(flow_at (n_channels m) cpf pt ssrc i)\<lparr>fl_seq := of_nat k\<rparr>"
  let ?w = "nat (min cpf (n_channels m - int i * cpf))"
  have N: "0 < n_channels m" using m by (simp add: mode_ok_def)
  have fs: "length ?fs = 4" using fit by simp
  have nth: "?fs ! j = blocks ! (k * 4 + j)" if "j < 4" for j using that fit by (intro nth_chunk) auto
  have hd: "hd ?fs = blocks ! (k * 4)" using nth[of 0] fs hd_conv_nth[of ?fs] by (metis add_0_right list.size(3) zero_less_numeral zero_neq_numeral)
  have "set ?fs \<subseteq> set blocks" by (auto simp: chunk_def dest: in_set_takeD in_set_dropD)
  then have fr: "\<forall>x \<in> set ?fs. nch_of m * sps_of m * 3 \<le> length (fst x)"
    using blocks(1) mode_ok_nat(5)[OF m] by fastforce
  have fl: "flow_ok m ?fl" "fl_payload_type ?fl = pt" "fl_seq ?fl = of_nat k" "fl_ssrc ?fl = ssrc + of_nat i"
      "nat (fl_n_ch ?fl) = ?w" "nat (fl_ch_start ?fl) = nat (int i * cpf)"
    using flow_start_less[OF N cpf i] cpf by (auto simp: flow_ok_def flow_at_def min_def)
  have ts: "fst (snd (blocks ! (k * 4))) = A + of_nat (4 * k) * word_of_int (samples_per_pkt m)"
    using blocks(2) fit by (simp add: in_slots_def mult.commute)
  have "fst (?fs ! (t div sps_of m)) = fst (blocks ! (4 * k + t div sps_of m))" if "t < 4 * sps_of m" for t
    using that nth[of "t div sps_of m"] by (simp add: less_mult_imp_div_less mult.commute)
  then show "\<exists>body. parse_rtp (?pk ! k) = Some (rtp_view_of \<lparr>rp_payload_type = pt, rp_seq = of_nat k,
          rp_timestamp = A + of_nat (4 * k) * word_of_int (samples_per_pkt m), rp_ssrc = ssrc + of_nat i\<rparr>, body) \<and>
        length body = ?w * (4 * sps_of m) * 3 \<and>
        (\<forall>t < 4 * sps_of m. \<forall>c < ?w. sample_at ?w body t c
           = rev (sample_at (sps_of m) (fst (blocks ! (4 * k + t div sps_of m))) (nat (int i * cpf) + c) (t mod sps_of m)))"
    using flow_packet_parse[OF m fl(1) fs fr, unfolded fl hd ts] k by simp
qed simp

subsection \<open>Announcements\<close>

text \<open>The address of a flow, and the announcements: they are always defined, one per flow, and go out on their own socket.\<close>

definition base_at :: "dante_cfg \<Rightarrow> nat \<Rightarrow> nat \<Rightarrow> nat \<Rightarrow> nat \<Rightarrow> bool" where
  "base_at cfg a b c d \<longleftrightarrow> dc_base_ip cfg = dotted a b c d \<and> a \<le> 255 \<and> b \<le> 255 \<and> c \<le> 255 \<and> d \<le> 255"

lemma flow_ip:
  assumes "base_at cfg a b c d" and "i < 2 ^ 31"
  shows "\<exists>fip. ipv4_add_octet (dc_base_ip cfg) (int i) (replicate 64 0) 64 = Some (if d + i \<le> 255 then 0 else - 1, fip) \<and>
    (d + i \<le> 255 \<longrightarrow> c_string fip = Some (dotted a b c (d + i)))"
  using add_octet_text[of a b c d 64 "replicate 64 0" i] assms by (auto simp: base_at_def c_string_text)

lemma flow_sap_defined:
  assumes "documented_inet K" and "base_at cfg a b c d" and "i < 2 ^ 31"
  shows "\<exists>x. dante_flow_sap K cfg m gm fl i = Some x"
proof -
  obtain fip where f: "ipv4_add_octet (dc_base_ip cfg) (int i) (replicate 64 0) 64 = Some (if d + i \<le> 255 then 0 else - 1, fip)"
      "d + i \<le> 255 \<longrightarrow> c_string fip = Some (dotted a b c (d + i))"
    using flow_ip[OF assms(2,3)] by blast
  show ?thesis
  proof (cases "d + i \<le> 255")
    case False
    then show ?thesis using f by (simp add: dante_flow_sap_def)
  next
    case True
    let ?p = "dante_flow_sdp cfg m gm (dotted a b c (d + i)) fl i"
    obtain sdp where s: "sdp_build (replicate 768 0) 768 ?p =
        (if length (sdp_text ?p) < 768 then Some (int (length (sdp_text ?p)), sdp) else Some (- 1, sdp))"
        "length (sdp_text ?p) < 768 \<longrightarrow> sdp = blit (replicate 768 0) 0 (bytes_of (sdp_text ?p) @ [0])"
      using sdp_build_cases[of 768 "replicate 768 0" ?p] by auto
    show ?thesis
    proof (cases "length (sdp_text ?p) < 768")
      case False
      then show ?thesis using f s True by (simp add: dante_flow_sap_def)
    next
      case fits: True
      then have z: "0 \<in> set sdp" using s(2) by (simp add: blit_def)
      obtain h where "sap_hash (Some sdp) = Some h" using terminated(2)[OF z, of "0x1234"] by (auto simp: sap_hash_def)
      moreover obtain len pkt where "sap_build K (replicate 1024 0) 1024 (dc_origin cfg) h sdp = Some (len, pkt)"
        using sap_build_defined[OF assms(1) z, where cap = 1024 and out = "replicate 1024 0" and ip = "dc_origin cfg" and h = h] by auto
      ultimately show ?thesis using f s True fits by (simp add: dante_flow_sap_def)
    qed
  qed
qed

lemma saps_defined:
  assumes "documented_inet K" and "base_at cfg a b c d" and "n < 2 ^ 31" and "n \<le> length flows"
  shows "\<exists>saps. dante_saps K cfg m gm flows n = Some saps \<and> length saps = n"
  unfolding dante_saps_def using assms(3,4)
proof (induction n)
  case (Suc n)
  then obtain saps where "forn n (\<lambda>i saps. do { fl \<leftarrow> rd flows i; x \<leftarrow> dante_flow_sap K cfg m gm fl i; Some (saps @ [x]) }) [] = Some saps"
      "length saps = n" by auto
  moreover obtain x where "dante_flow_sap K cfg m gm (flows ! n) n = Some x"
    using flow_sap_defined[OF assms(1,2), of n m gm "flows ! n"] Suc.prems(1) by fastforce
  ultimately show ?case using Suc.prems by (simp add: rd_def)
qed simp

lemma announce_saps:
  assumes "documented_trace K sent" and "\<not> ok \<or> n \<le> length saps"
  shows "\<exists>w'. dante_sap_announce K ok s saps (int n) w = Some w' \<and>
    (\<forall>s'. \<not> ok \<or> snd_fd s' \<noteq> snd_fd s \<longrightarrow> media s' (sent w') = media s' (sent w))"
proof (cases ok)
  case True
  let ?Q = "\<lambda>w'. \<forall>s'. snd_fd s' \<noteq> snd_fd s \<longrightarrow> media s' (sent w') = media s' (sent w)"
  have quiet: "media s' (sent (snd (aes67_send_packet K s p v))) = media s' (sent v)" if "snd_fd s' \<noteq> snd_fd s" for s' p v
    using that by (auto simp: send_packet_trace[OF assms(1)] media_append udp_log_def media_def split: option.split)
  have "\<exists>w'. forn n (\<lambda>i w. do { (pkt, len) \<leftarrow> rd saps i;
        Some (if len > 0 then snd (aes67_send_packet K s (take (nat len) pkt) w) else w) }) w = Some w' \<and> ?Q w'"
    by (rule forn_rule[where P = "\<lambda>_. ?Q"]) (use assms(2) True quiet in \<open>auto simp: rd_def case_prod_unfold\<close>)
  then show ?thesis using True by (simp add: dante_sap_announce_def)
qed (simp add: dante_sap_announce_def)

subsection \<open>The senders\<close>

text \<open>Sender \<open>i\<close> sends to the address of flow \<open>i\<close>.\<close>

definition aimed :: "'w os \<Rightarrow> dante_cfg \<Rightarrow> nat \<Rightarrow> nat \<Rightarrow> nat \<Rightarrow> nat \<Rightarrow> aes67_sender list \<Rightarrow> bool" where
  "aimed K cfg a b c d ss \<longleftrightarrow> (\<forall>i < length ss. \<exists>addr. d + i \<le> 255 \<and> os_inet_pton K (dotted a b c (d + i)) = Some addr \<and>
     snd_dest (ss ! i) = Some \<lparr>sin_port = dc_rtp_port cfg, sin_addr = addr\<rparr>)"

lemma open_flows_aimed:
  assumes "base_at cfg a b c d" and "documented_trace (en_os E) sent"
    and "dante_open_flows E cfg [k..<n] ss w = Some (True, ss', w')" and "aimed (en_os E) cfg a b c d ss" and "length ss = k" and "k \<le> n" and "n < 2 ^ 31"
  shows "aimed (en_os E) cfg a b c d ss' \<and> length ss' = n \<and> sent w' = sent w"
  using assms(3-6)
proof (induction "n - k" arbitrary: k ss w)
  case 0
  then show ?case by simp
next
  case (Suc j)
  then have k: "k < n" by simp
  then have up: "[k..<n] = k # [Suc k..<n]" by (rule upt_conv_Cons)
  note ks = documented_traceD(3)[OF assms(2)]
  obtain fip where f: "ipv4_add_octet (dc_base_ip cfg) (int k) (replicate 64 0) 64 = Some (if d + k \<le> 255 then 0 else - 1, fip)"
      "d + k \<le> 255 \<longrightarrow> c_string fip = Some (dotted a b c (d + k))"
    using flow_ip[OF assms(1)] k assms(7) by (meson less_trans)
  have le: "d + k \<le> 255"
    using Suc.prems(1) f(1) unfolding up by (auto split: if_splits)
  obtain orc s w1 where o: "aes67_send_open (en_os E) (en_calloc E w) (dotted a b c (d + k)) (dc_rtp_port cfg) (dc_ttl cfg) (dc_iface_egress cfg) w
      = (orc, s, w1)" by (metis prod.collapse)
  let ?w2 = "snd (aes67_send_set_dscp (en_os E) s (dc_media_dscp cfg) w1)"
  have orc: "orc = 0" using Suc.prems(1) f le o unfolding up by (auto split: if_splits)
  then have step: "dante_open_flows E cfg [Suc k..<n] (ss @ [s]) ?w2 = Some (True, ss', w')"
    using Suc.prems(1) f le o unfolding up by (simp add: case_prod_unfold)
  have "aimed (en_os E) cfg a b c d (ss @ [s])"
    using Suc.prems(2,3) send_open_dest o le unfolding orc aimed_def by (auto simp: nth_append less_Suc_eq)
  with Suc.hyps(1)[OF _ step] Suc.hyps(2) Suc.prems(3) k
  have "aimed (en_os E) cfg a b c d ss' \<and> length ss' = n \<and> sent w' = sent ?w2" by simp
  then show ?case using send_control(1)[OF ks o] send_control(2)[OF ks] by simp
qed

subsection \<open>A replay\<close>

interpretation dante_sink: pcm_sink_contract "dante_pcm_sink L K" "packetizer_feed L (dante_emit K)" for L K
  by unfold_locales (simp_all add: dante_pcm_sink_def)

text \<open>The packets of a run: defined as long as the packet counter is, and flow \<open>i\<close> goes out on sender \<open>i\<close>.\<close>

lemma length_aggregated: "length (aggregated pk xs) = length xs div fpp_of pk * nat (pk_n_flows pk)"
  unfolding aggregated_def by (rule length_concat_const) (simp add: group_packets_def)

lemma aggregated_flow: "x \<in> set (aggregated pk xs) \<Longrightarrow> fst x < nat (pk_n_flows pk)"
  by (auto simp: aggregated_def group_packets_def)

lemma dante_feed:
  fixes cpf :: int and pt :: byte and ssrc A :: u32 and w :: 'w and rest :: "reac_flow list"
  assumes "documented_geometry L" and "documented_trace K sent" and m: "mode_ok m" and cpf: "0 < cpf"
    and "length (pk_planar pk0) = 11520" and n: "n = flow_count (n_channels m) cpf"
    and ss: "length ss = n" "distinct (map snd_fd ss)"
    and blocks: "\<forall>x \<in> set blocks. length (fst x) = 2880" "in_slots A (samples_per_pkt m) 0 blocks"
  defines "s0 \<equiv> (packetizer_init pk0 m 4 (map (flow_at (n_channels m) cpf pt ssrc) [0..<n] @ rest) (int n),
      \<lparr>de_senders = Some ss, de_n_flows = int n, de_count = 0\<rparr>, w)"
  shows "if length blocks div 4 * n \<le> 2147483647
    then \<exists>pk' d' w'. packetizer_feed L (dante_emit K) blocks s0 = Some (pk', d', w') \<and>
      (\<forall>i < n. \<exists>pkts. media (ss ! i) (sent w') = media (ss ! i) (sent w) @ udp_log (ss ! i) pkts \<and>
         dante_stream m cpf pt ssrc A blocks i pkts)
    else packetizer_feed L (dante_emit K) blocks s0 = None"
proof -
  define pk where "pk = packetizer_init pk0 m 4 (map (flow_at (n_channels m) cpf pt ssrc) [0..<n] @ rest) (int n)"
  let ?d = "\<lparr>de_senders = Some ss, de_n_flows = int n, de_count = 0\<rparr>" and ?ps = "aggregated pk blocks"
  have sel: "pk_mode pk = m" "nat (pk_n_flows pk) = n" "fpp_of pk = 4" "pk_frames_buffered pk = 0"
      "i < n \<Longrightarrow> pk_flows pk ! i = flow_at (n_channels m) cpf pt ssrc i" for i
    by (simp_all add: pk_def packetizer_init_sel nth_append)
  have N: "0 < n_channels m" using m by (simp add: mode_ok_def)
  have fl: "flow_ok m (flow_at (n_channels m) cpf pt ssrc i)" if "i < n" for i
    using flow_start_less[OF N cpf, of i] that cpf n by (auto simp: flow_ok_def flow_at_def min_def)
  have ok: "packetizer_ok pk" unfolding pk_def by (rule packetizer_init_ok) (use m assms(5) fl in auto)
  have "\<forall>x \<in> set blocks. nch_of m * sps_of m * 3 \<le> length (fst x)"
    using blocks(1) mode_ok_nat(5)[OF m] by fastforce
  then obtain pk' where feed: "packetizer_feed L (dante_emit K) blocks s0 = do { v \<leftarrow> emit_flows (dante_emit K) ?ps (?d, w); Some (pk', v) }"
    using packetizer_feed_inv[OF assms(1) ok sel(4), of blocks "dante_emit K" "(?d, w)"]
    unfolding sel s0_def pk_def[symmetric] by blast
  have len: "length ?ps = length blocks div 4 * n" by (simp add: length_aggregated sel)
  have flows: "\<forall>x \<in> set ?ps. fst x < length ss \<and> int (fst x) < de_n_flows ?d"
    using aggregated_flow[of _ pk blocks] sel ss(1) by auto
  note emit = emit_flows_dante[OF assms(2) _ flows, where w = w, simplified, unfolded len]
  show ?thesis
  proof (cases "length blocks div 4 * n \<le> 2147483647")
    case False
    then show ?thesis using emit(2) feed by simp
  next
    case True
    then obtain d' w' where run: "emit_flows (dante_emit K) ?ps (?d, w) = Some (d', w')" "sent w' = sent w @ flow_log ?ps ss"
      using emit(1) by auto
    have "\<exists>pkts. media (ss ! i) (sent w') = media (ss ! i) (sent w) @ udp_log (ss ! i) pkts \<and> dante_stream m cpf pt ssrc A blocks i pkts"
      if i: "i < n" for i
    proof -
      have "of_flow i ?ps = map (\<lambda>k. flow_packet m 4 (chunk blocks (k * 4) 4)
          ((flow_at (n_channels m) cpf pt ssrc i)\<lparr>fl_seq := of_nat k\<rparr>)) [0..<length blocks div 4]"
        using of_flow_aggregated[of i pk blocks] i by (simp add: sel flow_at_def)
      moreover have "media (ss ! i) (flow_log ?ps ss) = udp_log (ss ! i) (of_flow i ?ps)"
        by (rule media_flow_log) (use ss flows i in auto)
      ultimately show ?thesis
        using dante_packets[OF m cpf _ blocks, of i pt ssrc] i n run(2) by (auto simp: media_append)
    qed
    then show ?thesis using True feed run(1) by auto
  qed
qed

lemma open_sap_ready:
  assumes "documented_fds (en_os E) fds" and "documented_trace (en_os E) sent" and "documented_inet (en_os E)"
    and "base_at cfg a b c d" and "n < 2 ^ 31" and "n \<le> length flows"
  shows "\<exists>ok s saps w'. dante_open_sap E cfg m gm flows n w = Some (ok, s, saps, w') \<and>
    (\<not> ok \<or> n \<le> length saps \<and> snd_fd s \<notin> fds w) \<and> sent w' = sent w"
proof -
  obtain rc s w1 where o: "aes67_send_open (en_os E) (en_calloc E w) SAP_MCAST_ADDR_DANTE SAP_PORT (dc_ttl cfg) (dc_iface_egress cfg) w = (rc, s, w1)"
    by (metis prod.collapse)
  moreover have "sent w1 = sent w" using send_control(1)[OF documented_traceD(3)[OF assms(2)] o] .
  moreover obtain saps where "dante_saps (en_os E) cfg m gm flows n = Some saps" "length saps = n"
    using saps_defined[OF assms(3-6)] by blast
  moreover have "rc = 0 \<Longrightarrow> snd_fd s \<notin> fds w" using send_open_fds[OF assms(1) o] by simp
  ultimately show ?thesis unfolding dante_open_sap_def o by (cases "rc = 0") (simp_all, blast+)
qed

lemma close_quiet:
  assumes "documented_trace K sent"
  shows "sent (close_senders K ss w) = sent w" and "sent (snd (aes67_send_close K s w)) = sent w"
proof -
  show one: "sent (snd (aes67_send_close K s w)) = sent w" for s w by (rule send_control(3)[OF documented_traceD(3)[OF assms]])
  show "sent (close_senders K ss w) = sent w" by (induction ss arbitrary: w) (simp_all add: close_senders_def one)
qed

text \<open>The source of a replay hands the packetiser the blocks of the recorded frames.\<close>

lemma dante_replay:
  fixes E :: "'w env" and A :: u32
  assumes geo: "documented_geometry (en_lib E)" and cap: "en_fopen E path = Some f" "capture_file (en_long_bits E) rs f" and m: "mode_ok m"
    and pl: "pl = pipeline_set_pcm_sink (pipeline_anchor (pipeline_init (en_lib E) m pt ssrc) A) (Some (dante_pcm_sink (en_lib E) (en_os E)))"
    and bs: "bs = reac_records (filter (\<lambda>b. length b \<le> 2048) (map pr_body rs))"
  shows "\<exists>blocks. in_slots A (samples_per_pkt m) 0 blocks \<and> (\<forall>x \<in> set blocks. length (fst x) = 2880) \<and>
    map (\<lambda>x. rtp_payload (fst x) 0 (nch_of m) (sps_of m)) (filter (\<lambda>x. \<not> snd (snd x)) blocks) = map (wire_audio_be m) bs \<and>
    length blocks \<le> 32768 * length bs \<and>
    (\<forall>ok s saps n st. dante_source E ps (Some path) iface m ok s saps n pl st
      = do { st \<leftarrow> packetizer_feed (en_lib E) (dante_emit (en_os E)) blocks st; Some (0, st) })"
proof -
  let ?L = "en_lib E" and ?K = "en_os E" and ?buf = "replicate 2048 (0 :: byte)"
  have buf: "2048 \<le> length ?buf" by simp
  obtain ps1 ps2 frs where opened: "pcap_source_open (Some f) ps = Some (0, ps1)"
    and loop: "\<forall>body s. pcap_loop (en_long_bits E) body ps1 ?buf 2048 (s :: 'w dante_state pipeline \<times> 'w dante_state)
        = do { s \<leftarrow> feed body frs s; Some (0, ps2, s) }"
    and recs: "map (\<lambda>fr. take (snd fr) (fst fr)) frs = filter (\<lambda>b. length b \<le> 2048) (map pr_body rs)"
    and fits: "\<forall>fr \<in> set frs. length (fst fr) = 2048 \<and> snd fr \<le> 2048"
    using replay_capture[OF cap(2) buf, of ps] unfolding length_replicate by (elim exE conjE)
  have fr: "\<forall>fr \<in> set frs. snd fr \<le> length (fst fr)" using fits by auto
  have ok: "pipeline_ok pl" "at_slot A 0 pl" unfolding pl using geo m by (simp_all add: pipeline_init_def set_sink_ok pipeline_start)
  have sel: "pl_mode pl = m" "pl_pcm_sink pl = Some (dante_pcm_sink ?L ?K)"
    by (simp_all add: pl pipeline_set_pcm_sink_def pipeline_anchor_def pipeline_init_def pipeline_init_ex_def)
  obtain blocks pl' where run: "\<forall>emit s. pipeline_run ?L emit frs (pl, s) = do { s \<leftarrow> deliver_all pl emit blocks s; Some (pl', s) }"
      and sum: "run_summary A 0 pl frs blocks pl'"
    using pipeline_run_summary[OF geo ok fr] by blast
  have "dante_source E ps (Some path) iface m sok s saps n pl st = do { st \<leftarrow> packetizer_feed ?L (dante_emit ?K) blocks st; Some (0, st) }"
    for sok s saps n st
    using opened loop cap(1) run dante_sink.deliver_all_consumes[OF sel(2)]
    by (cases st) (simp add: dante_source_def feed_pipeline[simplified] Option.bind_assoc)
  moreover have "in_slots A (samples_per_pkt m) 0 blocks" "\<forall>x \<in> set blocks. length (fst x) = 2880"
    using sum sel(1) by (simp_all add: run_summary_def)
  moreover have "length blocks \<le> 32768 * length bs"
    using sum map_eq_imp_length_eq[OF frames_of_records(1)[OF m fr recs]] by (simp add: run_summary_def bs)
  ultimately show ?thesis
    using blocks_audio[OF m sel(1) sum fr] frames_of_records[OF m fr recs] unfolding bs by (intro exI[of _ blocks]) auto
qed

text \<open>
  C3.  Replaying a capture in Dante mode sends every flow its own gap-free stream.  For a well-formed capture file and senders that
  could be opened, \<open>run_dante\<close> returns 0, and sender \<open>i\<close>, which sends to the base address plus \<open>i\<close>, has sent packets numbered 0, 1, 2, \<dots> and stamped
  four REAC packets' samples apart from the PTP anchor, each with the channels of flow \<open>i\<close> of four consecutive blocks;
  the blocks are in time order without a hole, and those that are not concealment are the audio of exactly the records that
  are REAC frames, and no frame adds more than 32768 blocks.  Announcements do not disturb the streams.  The only way to fail is the \<open>int\<close> packet counter: with more than 2147483647
  packets in all flows together, its increment overflows.
\<close>

theorem pcap_to_dante:
  fixes E :: "'w env"
  assumes env: "documented_geometry (en_lib E)" "documented_fds (en_os E) fds" "documented_trace (en_os E) sent" "documented_inet (en_os E)"
    and cap: "en_fopen E path = Some f" "capture_file (en_long_bits E) rs f"
    and m: "mode_ok m" and cpf: "0 < dc_ch_per_flow cfg" "n_channels m + dc_ch_per_flow cfg < 2 ^ 31"
    and n: "n = flow_count (n_channels m) (dc_ch_per_flow cfg)" "n \<le> REAC_MAX_CHANNELS (en_lib E)"
    and mem: "length flows0 = REAC_MAX_CHANNELS (en_lib E)" "length (pk_planar pk0) = 11520"
    and base: "base_at cfg a b c d" and send: "\<not> dc_count_only cfg"
    and ss: "dante_open_flows E cfg [0..<n] [] w = Some (True, ss, w1)"
  shows "\<exists>blocks. in_slots (dante_anchor E m) (samples_per_pkt m) 0 blocks \<and>
    map (\<lambda>x. rtp_payload (fst x) 0 (nch_of m) (sps_of m)) (filter (\<lambda>x. \<not> snd (snd x)) blocks)
      = map (wire_audio_be m) (reac_records (filter (\<lambda>b. length b \<le> 2048) (map pr_body rs))) \<and>
    length blocks \<le> 32768 * length (reac_records (filter (\<lambda>b. length b \<le> 2048) (map pr_body rs))) \<and>
    (if length blocks div 4 * n \<le> 2147483647
     then \<exists>w'. run_dante E ps pk0 flows0 (Some path) iface m cfg w = Some (0, [], w') \<and>
       length ss = n \<and> aimed (en_os E) cfg a b c d ss \<and>
       (\<forall>i < n. \<exists>pkts. media (ss ! i) (sent w') = media (ss ! i) (sent w) @ udp_log (ss ! i) pkts \<and>
          dante_stream m (dc_ch_per_flow cfg) (dc_pt cfg) (dc_ssrc_base cfg) (dante_anchor E m) blocks i pkts)
     else run_dante E ps pk0 flows0 (Some path) iface m cfg w = None)"
proof -
  let ?L = "en_lib E" and ?K = "en_os E" and ?cpf = "dc_ch_per_flow cfg" and ?A = "dante_anchor E m"
  let ?flows = "map (flow_at (n_channels m) ?cpf (dc_pt cfg) (dc_ssrc_base cfg)) [0..<n] @ drop n flows0"
  let ?pl = "pipeline_set_pcm_sink (pipeline_anchor (pipeline_init ?L m (dc_pt cfg) (dc_ssrc_base cfg)) ?A) (Some (dante_pcm_sink ?L ?K))"
  let ?s0 = "\<lambda>w. (packetizer_init pk0 m 4 ?flows (int n), \<lparr>de_senders = Some ss, de_n_flows = int n, de_count = 0\<rparr>, w)"
  have N: "0 < n_channels m" using m by (simp add: mode_ok_def)
  have lim: "n < 2 ^ 31" using n(2) env(1) by (simp add: geometry_simps)
  have flows: "dante_build_flows flows0 (int (REAC_MAX_CHANNELS ?L)) (n_channels m) ?cpf (dc_pt cfg) (dc_ssrc_base cfg) = Some (int n, ?flows)"
    using dante_build_flows_eq[OF N cpf, of "int (REAC_MAX_CHANNELS ?L)" flows0] n mem(1) by simp
  obtain blocks where slots: "in_slots ?A (samples_per_pkt m) 0 blocks" "\<forall>x \<in> set blocks. length (fst x) = 2880"
    and audio: "map (\<lambda>x. rtp_payload (fst x) 0 (nch_of m) (sps_of m)) (filter (\<lambda>x. \<not> snd (snd x)) blocks)
        = map (wire_audio_be m) (reac_records (filter (\<lambda>b. length b \<le> 2048) (map pr_body rs)))"
      "length blocks \<le> 32768 * length (reac_records (filter (\<lambda>b. length b \<le> 2048) (map pr_body rs)))"
    and src: "dante_source E ps (Some path) iface m sok s saps k ?pl st
        = do { st \<leftarrow> packetizer_feed ?L (dante_emit ?K) blocks st; Some (0, st) }" for sok s saps k st
    using dante_replay[OF env(1) cap m refl refl, where pt = "dc_pt cfg" and ssrc = "dc_ssrc_base cfg" and A = ?A and ps = ps and iface = iface] by blast
  have "opened fds (fds w) ss w1" by (rule open_flows_opened[OF env(2) ss]) (simp add: opened_def)
  then have dist: "distinct (map snd_fd ss)" "\<forall>s \<in> set ss. snd_fd s \<in> fds w1" by (auto simp: opened_def)
  have aim: "aimed ?K cfg a b c d ss" "length ss = n" "sent w1 = sent w"
    using open_flows_aimed[OF base env(3) ss _ _ _ lim] by (simp_all add: aimed_def)
  let ?gm = "truncated 80 (dc_gmid cfg @ '':'' @ decimal_int (dc_ptp_domain cfg))"
  obtain sok s saps w2 where sap: "dante_open_sap E cfg m ?gm ?flows n w1 = Some (sok, s, saps, w2)"
      "\<not> sok \<or> n \<le> length saps \<and> snd_fd s \<notin> fds w1" "sent w2 = sent w1"
    using open_sap_ready[OF env(2-4) base lim, of ?flows m ?gm w1] by auto
  then obtain w3 where w3: "dante_sap_announce ?K sok s saps (int n) w2 = Some w3"
      "\<forall>s'. \<not> sok \<or> snd_fd s' \<noteq> snd_fd s \<longrightarrow> media s' (sent w3) = media s' (sent w2)"
    using announce_saps[OF env(3), of sok n saps s w2] by blast
  have quiet: "media (ss ! i) (sent w3) = media (ss ! i) (sent w)" if "i < n" for i
    using w3(2) sap(2,3) aim(2,3) dist(2) that nth_mem by metis
  have serve: "run_dante E ps pk0 flows0 (Some path) iface m cfg w = do {
      st \<leftarrow> packetizer_feed ?L (dante_emit ?K) blocks (?s0 w3);
      Some (0, [], close_senders ?K ss (if sok then snd (aes67_send_close ?K s (snd (snd st))) else snd (snd st))) }"
    using flows send ss sap(1) w3(1) src by (simp add: run_dante_def dante_serve_def Let_def Option.bind_assoc case_prod_unfold cong: if_cong)
  note feed = dante_feed[OF env(1,3) m cpf(1) mem(2) n(1) aim(2) dist(1) slots(2,1), where pt = "dc_pt cfg" and ssrc = "dc_ssrc_base cfg"
      and w = w3 and rest = "drop n flows0"]
  have "if length blocks div 4 * n \<le> 2147483647
     then \<exists>w'. run_dante E ps pk0 flows0 (Some path) iface m cfg w = Some (0, [], w') \<and>
       length ss = n \<and> aimed (en_os E) cfg a b c d ss \<and>
       (\<forall>i < n. \<exists>pkts. media (ss ! i) (sent w') = media (ss ! i) (sent w) @ udp_log (ss ! i) pkts \<and>
          dante_stream m (dc_ch_per_flow cfg) (dc_pt cfg) (dc_ssrc_base cfg) (dante_anchor E m) blocks i pkts)
     else run_dante E ps pk0 flows0 (Some path) iface m cfg w = None"
    using feed aim quiet unfolding serve by (auto simp: close_quiet[OF env(3)] split: if_splits)
  then show ?thesis using slots(1) audio by (intro exI[of _ blocks] conjI)
qed

theorem pcap_to_dante_witness:
  "\<exists>pkts w' blocks. run_dante sample_env undefined (undefined\<lparr>pk_planar := replicate 11520 0\<rparr>) (replicate 40 undefined) (Some ''stage.pcap'') None
      mode_48k (sample_dante\<lparr>dc_ch_per_flow := 40\<rparr>) log_start = Some (0, [], w') \<and>
     media sample_sender (lw_sent w') = udp_log sample_sender pkts \<and>
     dante_stream mode_48k 40 97 1000 (dante_anchor sample_env mode_48k) blocks 0 pkts \<and>
     map (\<lambda>x. rtp_payload (fst x) 0 40 12) (filter (\<lambda>x. \<not> snd (snd x)) blocks) = [wire_audio_be mode_48k sample_frame]"
proof -
  let ?cfg = "sample_dante\<lparr>dc_ch_per_flow := 40\<rparr>" and ?rs = "[sample_rec, sample_rec\<lparr>pr_body := sample_frame\<rparr>]"
  obtain f0 where f0: "ipv4_add_octet (dotted 239 69 10 0) 0 (replicate 64 0) 64 = Some (0, f0)" "c_string f0 = Some (dotted 239 69 10 0)"
    using sample_flow_ip[of 0] by auto
  have e: "en_os sample_env = log_os" "en_calloc sample_env w" "en_lib sample_env = libreac_doc" "en_long_bits sample_env = 64"
      "en_fopen sample_env ''stage.pcap'' = Some sample_file" for w by (simp_all add: sample_env_def)
  have opn: "dante_open_flows sample_env ?cfg [0..<1] [] log_start = Some (True, [sample_sender], log_start\<lparr>lw_fds := {3}, lw_next := 4\<rparr>)"
    by (simp add: f0 e sample_open sample_dante_def aes67_send_set_dscp_def sample_sender_def)
  let ?pk = "undefined\<lparr>pk_planar := replicate 11520 0\<rparr> :: packetizer"
  have sel: "dc_ch_per_flow ?cfg = 40" "dc_pt ?cfg = 97" "dc_ssrc_base ?cfg = 1000" "n_channels mode_48k = 40" "nat 40 = 40" "nat 12 = 12"
      "samples_per_pkt mode_48k = 12"
    by (simp_all add: sample_dante_def)
  have hyps: "documented_geometry (en_lib sample_env)" "documented_fds (en_os sample_env) lw_fds" "documented_trace (en_os sample_env) lw_sent"
      "documented_inet (en_os sample_env)" "capture_file (en_long_bits sample_env) ?rs sample_file"
      "0 < dc_ch_per_flow ?cfg" "n_channels mode_48k + dc_ch_per_flow ?cfg < 2 ^ 31" "1 = flow_count (n_channels mode_48k) (dc_ch_per_flow ?cfg)"
      "1 \<le> REAC_MAX_CHANNELS (en_lib sample_env)" "length (replicate 40 (undefined :: reac_flow)) = REAC_MAX_CHANNELS (en_lib sample_env)"
      "length (pk_planar ?pk) = 11520" "base_at ?cfg 239 69 10 0" "\<not> dc_count_only ?cfg"
    using sample_file_ok by (simp_all add: e sel flow_count_def geometry_simps base_at_def) (simp_all add: sample_dante_def)
  note W = pcap_to_dante[OF hyps(1-4) e(5) hyps(5) mode_48k_ok hyps(6-13) opn, of undefined None, unfolded sample_records sel]
  from W obtain blocks where B: "map (\<lambda>x. rtp_payload (fst x) 0 40 12) (filter (\<lambda>x. \<not> snd (snd x)) blocks) = [wire_audio_be mode_48k sample_frame]"
      "length blocks \<le> 32768 * length [sample_frame]"
      "if length blocks div 4 * 1 \<le> 2147483647
     then \<exists>w'. run_dante sample_env undefined ?pk (replicate 40 undefined) (Some ''stage.pcap'') None mode_48k ?cfg log_start = Some (0, [], w') \<and>
       length [sample_sender] = 1 \<and> aimed (en_os sample_env) ?cfg 239 69 10 0 [sample_sender] \<and>
       (\<forall>i < 1. \<exists>pkts. media ([sample_sender] ! i) (lw_sent w') = media ([sample_sender] ! i) (lw_sent log_start) @ udp_log ([sample_sender] ! i) pkts \<and>
          dante_stream mode_48k 40 97 1000 (dante_anchor sample_env mode_48k) blocks i pkts)
     else run_dante sample_env undefined ?pk (replicate 40 undefined) (Some ''stage.pcap'') None mode_48k ?cfg log_start = None"
    by (elim exE conjE) simp
  have "length blocks div 4 * 1 \<le> 2147483647" using B(2) by simp
  note run = B(3)[unfolded if_P[OF this]]
  have "media sample_sender (lw_sent log_start) = []" by (simp add: media_def log_start_def)
  with run obtain w' pkts where
    "run_dante sample_env undefined ?pk (replicate 40 undefined) (Some ''stage.pcap'') None mode_48k ?cfg log_start = Some (0, [], w')"
    "media sample_sender (lw_sent w') = udp_log sample_sender pkts"
    "dante_stream mode_48k 40 97 1000 (dante_anchor sample_env mode_48k) blocks 0 pkts" by auto
  with B(1) show ?thesis by (intro exI[of _ pkts] exI[of _ w'] exI[of _ blocks] conjI)
qed

end
