(* ===== verification/Tone.thy ===== *)
theory Tone
  imports Daemon_Live C_Double
begin

text \<open>
  The test signal, \<open>src/tone.c\<close>, and the mode of the daemon that streams it, \<open>run_gen_tone\<close> of \<open>src/main.c\<close>.  Doubles are rounded
  rationals as in \<open>C_Double\<close>; a quotient by zero is an infinity or not a number, from which \<open>sin\<close> makes a NaN whose conversion to an integer is
  undefined, so it is \<open>None\<close>.  The sine of the C library is a parameter \<open>sn\<close>, of which only the range is used.
\<close>

definition TWO_PI :: rat where "TWO_PI = dbl (6283185307179586 / 1000000000000000)"

definition tone_store24 :: "byte list \<Rightarrow> nat \<Rightarrow> int \<Rightarrow> byte list option" where
  "tone_store24 p off x = do {
     let x = (if x > 8388607 then 8388607 else if x < - 8388608 then - 8388608 else x);
     p \<leftarrow> wr p off (word_of_int x);
     p \<leftarrow> wr p (off + 1) (word_of_int (drop_bit 8 x));
     wr p (off + 2) (word_of_int (drop_bit 16 x))
   }"

record tone =
  tn_phase :: rat
  tn_freq_hz :: int
  tn_amplitude :: int
  tn_per_channel_detune :: int

definition tone_init :: "int \<Rightarrow> int \<Rightarrow> int \<Rightarrow> tone" where
  "tone_init freq_hz amplitude per_channel_detune =
     \<lparr>tn_phase = 0, tn_freq_hz = freq_hz, tn_amplitude = (if amplitude > 8388607 then 8388607 else amplitude),
      tn_per_channel_detune = per_channel_detune\<rparr>"

text \<open>The loop that brings the phase back into range; it may not end where the subtraction is lost in rounding.\<close>

partial_function (option) wrap_phase :: "rat \<Rightarrow> rat option" where
  "wrap_phase phase = (if phase > TWO_PI then wrap_phase (dbl (phase - TWO_PI)) else Some phase)"

definition tone_fill :: "(rat \<Rightarrow> rat) \<Rightarrow> tone \<Rightarrow> byte list \<Rightarrow> reac_mode \<Rightarrow> (tone \<times> byte list) option" where
  "tone_fill sn t out mode = (
     if sample_rate mode = 0 then None
     else do {
       let nch = nat (n_channels mode);
       let ns = nat (samples_per_pkt mode);
       let sr = (of_int (sample_rate mode) :: rat);
       out \<leftarrow> forn nch (\<lambda>ch out. do {
           d \<leftarrow> c_int (int ch * tn_per_channel_detune t);
           fi \<leftarrow> c_int (tn_freq_hz t + d);
           let f = (of_int fi :: rat);
           let w = dbl (dbl (TWO_PI * f) / sr);
           forn ns (\<lambda>s out. do {
               ratio \<leftarrow> (if tn_freq_hz t = 0 then None else Some (dbl (f / of_int (tn_freq_hz t))));
               let v = sn (dbl (dbl (tn_phase t * ratio) + dbl (w * of_nat s)));
               x \<leftarrow> dbl_to_int (dbl (v * of_int (tn_amplitude t)));
               tone_store24 out ((ch * ns + s) * 3) x
             }) out
         }) out;
       let step = dbl (dbl (dbl (TWO_PI * of_int (tn_freq_hz t)) / sr) * of_nat ns);
       phase \<leftarrow> wrap_phase (dbl (tn_phase t + step));
       Some (t\<lparr>tn_phase := phase\<rparr>, out)
     })"

text \<open>The deadline of the next packet: \<open>pkt_ns\<close> later, with the nanoseconds carried into the seconds.\<close>

function carry_ns :: "timespec \<Rightarrow> timespec" where
  "carry_ns t = (if tv_nsec t \<ge> 1000000000 then carry_ns (t\<lparr>tv_nsec := tv_nsec t - 1000000000, tv_sec := tv_sec t + 1\<rparr>) else t)"
  by pat_completeness auto
termination by (relation "measure (\<lambda>t. nat (tv_nsec t))") auto

declare carry_ns.simps [simp del]

definition deadline_after :: "int \<Rightarrow> timespec \<Rightarrow> timespec" where
  "deadline_after pkt_ns t = carry_ns (t\<lparr>tv_nsec := tv_nsec t + pkt_ns\<rparr>)"

text \<open>The streaming mode: \<open>count\<close> is an \<open>unsigned long\<close>, \<open>sap\<close> is \<open>None\<close> when announcements are off.\<close>

definition announce_to :: "'w os \<Rightarrow> sap_announcer option \<Rightarrow> 'w \<Rightarrow> 'w" where
  "announce_to K sap w = (case sap of None \<Rightarrow> w | Some sa \<Rightarrow> sap_announce K (Some sa) w)"

partial_function (option) gen_loop ::
  "'w env \<Rightarrow> (rat \<Rightarrow> rat) \<Rightarrow> reac_mode \<Rightarrow> aes67_sender \<Rightarrow> sap_announcer option \<Rightarrow> int \<Rightarrow> int \<Rightarrow> tone \<Rightarrow> rtp_params \<Rightarrow> byte list \<Rightarrow> byte list \<Rightarrow>
   nat \<Rightarrow> timespec \<Rightarrow> 'w \<Rightarrow> 'w option" where
  "gen_loop E sn mode s sap pps pkt_ns tn rtp pcm pkt count nxt w =
     (if en_stop E w then Some w
      else do {
        (tn, pcm) \<leftarrow> tone_fill sn tn pcm mode;
        (n, pkt) \<leftarrow> rtp_l24_build pkt (RTP_HEADER_LEN + REAC_MAX_CHANNELS (en_lib E) * 24 * 3) rtp pcm mode;
        let w = (if n > 0 then snd (aes67_send_packet (en_os E) s (take (nat n) pkt) w) else w);
        let rtp = rtp\<lparr>rp_seq := rp_seq rtp + 1\<rparr>;
        let rtp = rtp\<lparr>rp_timestamp := rp_timestamp rtp + word_of_int (samples_per_pkt mode)\<rparr>;
        let count = (count + 1) mod 2 ^ en_long_bits E;
        let w = (if sap \<noteq> None \<and> pps > 0 \<and> count mod nat pps = 0 then announce_to (en_os E) sap w else w);
        let nxt = deadline_after pkt_ns nxt;
        let w = en_sleep E nxt w;
        gen_loop E sn mode s sap pps pkt_ns tn rtp pcm pkt count nxt w
      })"

definition run_gen_tone ::
  "'w env \<Rightarrow> (rat \<Rightarrow> rat) \<Rightarrow> reac_mode \<Rightarrow> aes67_sender \<Rightarrow> byte \<Rightarrow> u32 \<Rightarrow> int \<Rightarrow> int \<Rightarrow> sap_announcer option \<Rightarrow> 'w \<Rightarrow> (int \<times> 'w) option" where
  "run_gen_tone E sn mode s pt ssrc freq detune sap w = do {
     let tn = tone_init freq 6000000 detune;
     let rtp = \<lparr>rp_payload_type = pt, rp_seq = 0, rp_timestamp = 0, rp_ssrc = ssrc\<rparr>;
     pps \<leftarrow> c_div (sample_rate mode) (samples_per_pkt mode);
     pkt_ns \<leftarrow> c_div 1000000000 pps;
     let nxt = en_mono E w;
     let w = announce_to (en_os E) sap w;
     w \<leftarrow> gen_loop E sn mode s sap pps pkt_ns tn rtp (replicate (REAC_MAX_CHANNELS (en_lib E) * 24 * 3) 0)
           (replicate (RTP_HEADER_LEN + REAC_MAX_CHANNELS (en_lib E) * 24 * 3) 0) 0 nxt w;
     Some (0, w)
   }"

subsection \<open>Rounding\<close>

lemma dbl_upto: "0 \<le> x \<Longrightarrow> x \<le> of_int k \<Longrightarrow> k < 2 ^ 53 \<Longrightarrow> 0 \<le> dbl x \<and> dbl x \<le> of_int k"
  using dbl_between[of 0 x k] by simp

lemma TWO_PI_bounds: "6 \<le> TWO_PI" "TWO_PI \<le> 7"
  using dbl_bounds[of "6283185307179586 / 1000000000000000" 6] dbl_bounds[of "6283185307179586 / 1000000000000000" 7]
  by (simp_all add: TWO_PI_def)

text \<open>The phase comes back into range, from any phase that occurs.\<close>

lemma wrap_phase_ends:
  assumes "0 \<le> x" and "x < 2 ^ 53"
  shows "\<exists>y. wrap_phase x = Some y \<and> 0 \<le> y \<and> y \<le> TWO_PI"
  using assms
proof (induction "nat \<lceil>x\<rceil>" arbitrary: x rule: less_induct)
  case less
  show ?case
  proof (cases "x > TWO_PI")
    case False
    then show ?thesis using less.prems by (subst wrap_phase.simps) simp
  next
    case True
    let ?y = "dbl (x - TWO_PI)"
    have "x - TWO_PI \<le> of_int (\<lceil>x\<rceil> - 6)" unfolding of_int_diff of_int_numeral by (intro diff_mono TWO_PI_bounds(1) le_of_int_ceiling)
    moreover have "\<lceil>x\<rceil> \<le> 2 ^ 53" using less.prems(2) by (simp add: ceiling_le_iff)
    ultimately have y: "0 \<le> ?y" "?y \<le> of_int (\<lceil>x\<rceil> - 6)" using dbl_upto[of "x - TWO_PI" "\<lceil>x\<rceil> - 6"] True by auto
    then have "\<lceil>?y\<rceil> < \<lceil>x\<rceil>" by (simp add: ceiling_less_iff)
    moreover have "0 < \<lceil>x\<rceil>" using True TWO_PI_bounds(1) by simp
    ultimately have "nat \<lceil>?y\<rceil> < nat \<lceil>x\<rceil>" by simp
    moreover have "?y < 2 ^ 53"
    proof -
      have "(of_int (\<lceil>x\<rceil> - 6) :: rat) < x" using of_int_ceiling_le_add_one[of x] unfolding of_int_diff by linarith
      then show ?thesis using y(2) less.prems(2) by simp
    qed
    ultimately show ?thesis using less.hyps y(1) True by (subst wrap_phase.simps) simp
  qed
qed

subsection \<open>A packet of tone\<close>

text \<open>The sine of the library stays within one.\<close>

definition documented_sin :: "(rat \<Rightarrow> rat) \<Rightarrow> bool" where
  "documented_sin sn \<longleftrightarrow> (\<forall>x. \<bar>sn x\<bar> \<le> 1)"

text \<open>A generator that \<open>run_gen_tone\<close> can reach: an upward tone whose channels' frequencies are \<open>int\<close>s.\<close>

definition tone_ok :: "reac_mode \<Rightarrow> tone \<Rightarrow> bool" where
  "tone_ok m t \<longleftrightarrow> 0 < tn_freq_hz t \<and> tn_freq_hz t < 2 ^ 31 \<and> 0 \<le> tn_amplitude t \<and> tn_amplitude t \<le> 8388607 \<and>
     0 \<le> tn_phase t \<and> tn_phase t \<le> TWO_PI \<and>
     (\<forall>ch. 0 \<le> ch \<and> ch < n_channels m \<longrightarrow> - (2 ^ 31) \<le> ch * tn_per_channel_detune t \<and> ch * tn_per_channel_detune t < 2 ^ 31 \<and>
        - (2 ^ 31) \<le> tn_freq_hz t + ch * tn_per_channel_detune t \<and> tn_freq_hz t + ch * tn_per_channel_detune t < 2 ^ 31)"

lemma tone_sample:
  assumes "documented_sin sn" and "0 \<le> a" and "a \<le> 8388607"
  shows "\<exists>v. dbl_to_int (dbl (sn x * of_int a)) = Some v \<and> \<bar>v\<bar> \<le> a"
proof -
  have "\<bar>sn x * of_int a\<bar> \<le> of_int a"
    using assms(1,2) mult_right_mono[of "\<bar>sn x\<bar>" 1 "of_int a"] by (simp add: documented_sin_def abs_mult)
  then have b: "of_int (- a) \<le> sn x * of_int a" "sn x * of_int a \<le> of_int a" by (simp_all add: abs_le_iff)
  have "(of_int a :: rat) \<le> of_int 8388607" using assms(3) by (rule of_int_le_iff[THEN iffD2])
  then have "\<bar>sn x * of_int a\<bar> < 2 ^ 53" using \<open>\<bar>sn x * of_int a\<bar> \<le> of_int a\<close> by simp
  from dbl_bounds(1)[OF this b(1)] dbl_bounds(2)[OF this b(2)]
  show ?thesis using dbl_to_int_bounds[of "- a" _ a] assms(2,3) by fastforce
qed

lemma tone_store:
  "off + 3 \<le> length p \<Longrightarrow> in24 x \<Longrightarrow> tone_store24 p off x = Some (blit p off (enc24 x))"
  by (auto simp: tone_store24_def enc24_def Let_def cbuf in24_def SMAX_def SMIN_def)

lemma tone_advance:
  assumes "tone_ok m t" and "mode_ok m" and "0 < sample_rate m"
  shows "\<exists>y. wrap_phase (dbl (tn_phase t + dbl (dbl (dbl (TWO_PI * of_int (tn_freq_hz t)) / of_int (sample_rate m)) * of_nat (sps_of m)))) = Some y \<and>
    0 \<le> y \<and> y \<le> TWO_PI"
proof -
  let ?f = "tn_freq_hz t" and ?sr = "of_int (sample_rate m) :: rat"
  have f: "0 \<le> (of_int ?f :: rat)" "?f < 2 ^ 31" using assms(1) by (simp_all add: tone_ok_def)
  have "TWO_PI * of_int ?f \<le> of_int (7 * ?f)" using mult_right_mono[OF TWO_PI_bounds(2) f(1)] by simp
  then have a: "0 \<le> dbl (TWO_PI * of_int ?f)" "dbl (TWO_PI * of_int ?f) \<le> of_int (7 * ?f)"
    using dbl_upto[of "TWO_PI * of_int ?f" "7 * ?f"] f TWO_PI_bounds(1) by auto
  have sr: "1 \<le> ?sr" using assms(3) by (metis of_int_1_le_iff int_one_le_iff_zero_less)
  have "dbl (TWO_PI * of_int ?f) / ?sr \<le> dbl (TWO_PI * of_int ?f) / 1" using a(1) sr by (intro divide_left_mono) auto
  then have "0 \<le> dbl (dbl (TWO_PI * of_int ?f) / ?sr) \<and> dbl (dbl (TWO_PI * of_int ?f) / ?sr) \<le> of_int (7 * ?f)"
    using a sr f(2) by (intro dbl_upto) auto
  note b = conjunct1[OF this] conjunct2[OF this]
  let ?k = "7 * ?f * 24"
  have "dbl (dbl (TWO_PI * of_int ?f) / ?sr) * of_nat (sps_of m) \<le> of_int (7 * ?f) * 24"
    using b mode_ok_nat(4)[OF assms(2)] f(1) by (intro mult_mono) auto
  then have "0 \<le> dbl (dbl (dbl (TWO_PI * of_int ?f) / ?sr) * of_nat (sps_of m)) \<and>
      dbl (dbl (dbl (TWO_PI * of_int ?f) / ?sr) * of_nat (sps_of m)) \<le> of_int ?k"
    using b f(2) by (intro dbl_upto) auto
  note c = conjunct1[OF this] conjunct2[OF this]
  let ?x = "tn_phase t + dbl (dbl (dbl (TWO_PI * of_int ?f) / ?sr) * of_nat (sps_of m))"
  have p: "0 \<le> tn_phase t" "tn_phase t \<le> 7" using assms(1) TWO_PI_bounds(2) by (auto simp: tone_ok_def)
  have "?x \<le> of_int (7 + ?k)" unfolding of_int_add of_int_numeral using p(2) c(2) by (rule add_mono)
  then have "0 \<le> dbl ?x \<and> dbl ?x \<le> of_int (7 + ?k)" using p(1) c(1) f(2) by (intro dbl_upto) auto
  moreover have "(of_int (7 + ?k) :: rat) < of_int (2 ^ 53)" using f(2) by (intro of_int_less_iff[THEN iffD2]) simp
  ultimately show ?thesis by (intro wrap_phase_ends) auto
qed

text \<open>
  The test tone is always a legal block of audio.  For a positive frequency whose channels' frequencies fit an \<open>int\<close>, \<open>tone_fill\<close>
  returns: no sample exceeds the amplitude, so none is clipped, the rest of the buffer is left alone, and the phase it carries to the
  next packet is again between zero and \<open>TWO_PI\<close>.
\<close>

theorem tone_fill_bounded:
  assumes "documented_sin sn" and "mode_ok m" and "0 < sample_rate m" and "tone_ok m t" and "nch_of m * sps_of m * 3 \<le> length out"
  shows "\<exists>t' g. tone_fill sn t out m = Some (t', blit out 0 (planar (nch_of m) (sps_of m) (\<lambda>ch s. enc24 (g ch s)))) \<and>
    (\<forall>ch s. \<bar>g ch s\<bar> \<le> tn_amplitude t) \<and> tone_ok m t' \<and> t' = t\<lparr>tn_phase := tn_phase t'\<rparr>"
proof -
  let ?N = "nch_of m" and ?S = "sps_of m" and ?a = "tn_amplitude t"
  have t: "0 < tn_freq_hz t" "0 \<le> ?a" "?a \<le> 8388607" using assms(4) by (simp_all add: tone_ok_def)
  define fr where "fr ch = tn_freq_hz t + int ch * tn_per_channel_detune t" for ch
  define arg where "arg ch s = dbl (dbl (tn_phase t * dbl (of_int (fr ch) / of_int (tn_freq_hz t)))
      + dbl (dbl (dbl (TWO_PI * of_int (fr ch)) / of_int (sample_rate m)) * of_nat s))" for ch s
  define g where "g ch s = the (dbl_to_int (dbl (sn (arg ch s) * of_int ?a)))" for ch s
  have g: "dbl_to_int (dbl (sn (arg ch s) * of_int ?a)) = Some (g ch s) \<and> \<bar>g ch s\<bar> \<le> ?a" for ch s
    using tone_sample[OF assms(1) t(2,3), of "arg ch s"] by (auto simp: g_def)
  have in24: "in24 (g ch s)" for ch s using g[of ch s] t(3) by (auto simp: in24_def SMAX_def SMIN_def)
  have freq: "c_int (int ch * tn_per_channel_detune t) = Some (int ch * tn_per_channel_detune t)" "c_int (fr ch) = Some (fr ch)"
    if "ch < ?N" for ch
  proof -
    have "int ch < n_channels m" using that by simp
    then show "c_int (int ch * tn_per_channel_detune t) = Some (int ch * tn_per_channel_detune t)" "c_int (fr ch) = Some (fr ch)"
      using assms(4) by (simp_all add: tone_ok_def fr_def c_int_def)
  qed
  have row: "forn ?S (\<lambda>s out. do {
        ratio \<leftarrow> (if tn_freq_hz t = 0 then None else Some (dbl (of_int (fr ch) / of_int (tn_freq_hz t))));
        let v = sn (dbl (dbl (tn_phase t * ratio) + dbl (dbl (dbl (TWO_PI * of_int (fr ch)) / of_int (sample_rate m)) * of_nat s)));
        x \<leftarrow> dbl_to_int (dbl (v * of_int ?a));
        tone_store24 out ((ch * ?S + s) * 3) x }) o1 = Some (blit o1 (0 + ch * (?S * 3)) (concat (map (\<lambda>s. enc24 (g ch s)) [0..<?S])))"
    if ch: "ch < ?N" and o1: "length o1 = length out" for ch o1
  proof (rule forn_blit)
    have "Suc ch * ?S \<le> ?N * ?S" using ch by (intro mult_le_mono1) simp
    then show fit: "0 + ch * (?S * 3) + ?S * 3 \<le> length o1" using assms(5) o1 by simp
    fix s and o2 :: "byte list" assume s: "s < ?S" and o2: "length o2 = length o1"
    have fit: "(ch * ?S + s) * 3 + 3 \<le> length o2" using index_bound3[OF ch s] assms(5) o1 o2 by simp
    have off: "0 + ch * (?S * 3) + s * 3 = (ch * ?S + s) * 3" by simp
    show "do {
        ratio \<leftarrow> (if tn_freq_hz t = 0 then None else Some (dbl (of_int (fr ch) / of_int (tn_freq_hz t))));
        let v = sn (dbl (dbl (tn_phase t * ratio) + dbl (dbl (dbl (TWO_PI * of_int (fr ch)) / of_int (sample_rate m)) * of_nat s)));
        x \<leftarrow> dbl_to_int (dbl (v * of_int ?a));
        tone_store24 o2 ((ch * ?S + s) * 3) x } = Some (blit o2 (0 + ch * (?S * 3) + s * 3) (enc24 (g ch s)))"
      unfolding off using t(1) g[of ch s] tone_store[OF fit in24[of ch s]] by (simp add: arg_def[symmetric])
  qed simp
  obtain y where y: "wrap_phase (dbl (tn_phase t + dbl (dbl (dbl (TWO_PI * of_int (tn_freq_hz t)) / of_int (sample_rate m)) * of_nat ?S))) = Some y"
      "0 \<le> y" "y \<le> TWO_PI"
    using tone_advance[OF assms(4,2,3)] by blast
  let ?body = "\<lambda>ch out. do {
           d \<leftarrow> c_int (int ch * tn_per_channel_detune t);
           fi \<leftarrow> c_int (tn_freq_hz t + d);
           let f = (of_int fi :: rat);
           let w = dbl (dbl (TWO_PI * f) / of_int (sample_rate m));
           forn ?S (\<lambda>s out. do {
               ratio \<leftarrow> (if tn_freq_hz t = 0 then None else Some (dbl (f / of_int (tn_freq_hz t))));
               let v = sn (dbl (dbl (tn_phase t * ratio) + dbl (w * of_nat s)));
               x \<leftarrow> dbl_to_int (dbl (v * of_int ?a));
               tone_store24 out ((ch * ?S + s) * 3) x
             }) out }"
  have "forn ?N ?body out = Some (blit out 0 (planar ?N ?S (\<lambda>ch s. enc24 (g ch s))))"
    unfolding planar_def
  proof (rule forn_blit)
    show "0 + ?N * (?S * 3) \<le> length out" using assms(5) by (simp add: mult.assoc)
    show "length (concat (map (\<lambda>s. enc24 (g ch s)) [0..<?S])) = ?S * 3" for ch by (simp add: length_concat_const)
    show "?body ch o1 = Some (blit o1 (0 + ch * (?S * 3)) (concat (map (\<lambda>s. enc24 (g ch s)) [0..<?S])))"
      if "ch < ?N" "length o1 = length out" for ch o1
      unfolding freq(1)[OF that(1)] bind.bind_lunit fr_def[symmetric] freq(2)[OF that(1)] Let_def by (rule row[OF that, unfolded Let_def])
  qed
  then have "tone_fill sn t out m = Some (t\<lparr>tn_phase := y\<rparr>, blit out 0 (planar ?N ?S (\<lambda>ch s. enc24 (g ch s))))"
    using y(1) assms(3) by (simp add: tone_fill_def)
  moreover have "tone_ok m (t\<lparr>tn_phase := y\<rparr>)" using assms(4) y(2,3) by (simp add: tone_ok_def)
  ultimately show ?thesis using g by (intro exI[of _ "t\<lparr>tn_phase := y\<rparr>"] exI[of _ g]) simp
qed

theorem tone_fill_bounded_witness:
  "\<exists>t' g. tone_fill (\<lambda>_. 1) (tone_init 440 6000000 10) (replicate 2880 0) mode_48k
      = Some (t', blit (replicate 2880 0) 0 (planar 40 12 (\<lambda>ch s. enc24 (g ch s)))) \<and> (\<forall>ch s. \<bar>g ch s\<bar> \<le> 6000000)"
proof -
  have "tone_ok mode_48k (tone_init 440 6000000 10)"
    using TWO_PI_bounds by (auto simp: tone_ok_def tone_init_def)
  moreover have "documented_sin (\<lambda>_. 1)" by (simp add: documented_sin_def)
  ultimately obtain t' g where "tone_fill (\<lambda>_. 1) (tone_init 440 6000000 10) (replicate 2880 0) mode_48k
        = Some (t', blit (replicate 2880 0) 0 (planar (nch_of mode_48k) (sps_of mode_48k) (\<lambda>ch s. enc24 (g ch s))))"
      "\<forall>ch s. \<bar>g ch s\<bar> \<le> tn_amplitude (tone_init 440 6000000 10)"
    using tone_fill_bounded[of "\<lambda>_. 1" mode_48k "tone_init 440 6000000 10" "replicate 2880 0"] by auto
  then show ?thesis by (intro exI[of _ t'] exI[of _ g]) (simp add: tone_init_def)
qed

text \<open>A frequency of zero, which the command line accepts, makes the first sample undefined.\<close>

theorem tone_zero_undefined:
  assumes "mode_ok m"
  shows "tone_fill sn (tone_init 0 a d) out m = None"
proof -
  have none: "forn n body s = None" if "0 < n" "\<And>i t. body i t = None" for n s and body :: "nat \<Rightarrow> byte list \<Rightarrow> byte list option"
    using that by (induction n) (auto split: Option.bind_splits)
  have "forn (sps_of m) (\<lambda>s out. None) o1 = (None :: byte list option)" for o1
    by (rule none) (use mode_ok_nat(3)[OF assms] in simp_all)
  then have "forn (nch_of m) (\<lambda>ch out. c_int (int ch * d) \<bind> (\<lambda>d. c_int d \<bind> (\<lambda>fi. forn (sps_of m) (\<lambda>s out. None) out))) out = None"
    by (intro none mode_ok_nat(1)[OF assms]) (simp split: Option.bind_splits)
  then show ?thesis by (simp add: tone_fill_def tone_init_def Let_def)
qed

subsection \<open>The stream\<close>

text \<open>Packet \<open>k\<close> of the stream: its number and time stamp, and a block of samples within the amplitude.\<close>

definition tone_pkt :: "byte \<Rightarrow> u32 \<Rightarrow> reac_mode \<Rightarrow> int \<Rightarrow> nat \<Rightarrow> byte list \<Rightarrow> bool" where
  "tone_pkt pt ssrc m a k p \<longleftrightarrow> (\<exists>body.
     parse_rtp p = Some (rtp_view_of \<lparr>rp_payload_type = pt, rp_seq = of_nat k,
        rp_timestamp = of_nat k * word_of_int (samples_per_pkt m), rp_ssrc = ssrc\<rparr>, body) \<and>
     length body = nch_of m * sps_of m * 3 \<and>
     (\<forall>s < sps_of m. \<forall>ch < nch_of m. \<bar>dec24 (rev (sample_at (nch_of m) body s ch))\<bar> \<le> a))"

definition tone_stream :: "byte \<Rightarrow> u32 \<Rightarrow> reac_mode \<Rightarrow> int \<Rightarrow> nat \<Rightarrow> byte list list \<Rightarrow> bool" where
  "tone_stream pt ssrc m a j pkts \<longleftrightarrow> (\<forall>k < length pkts. tone_pkt pt ssrc m a (j + k) (pkts ! k))"

lemma tone_stream_Cons:
  "tone_pkt pt ssrc m a j p \<Longrightarrow> tone_stream pt ssrc m a (Suc j) ps \<Longrightarrow> tone_stream pt ssrc m a j (p # ps)"
  unfolding tone_stream_def by (auto simp: less_Suc_eq_0_disj)

lemma tone_packet:
  assumes "documented_sin sn" and "documented_geometry L" and "mode_ok m" and "0 < sample_rate m" and "tone_ok m t"
    and "length pcm = 2880" and "length pkt = 2892"
    and "rtp = \<lparr>rp_payload_type = pt, rp_seq = of_nat j, rp_timestamp = of_nat j * word_of_int (samples_per_pkt m), rp_ssrc = ssrc\<rparr>"
  shows "\<exists>t' pcm' n pkt'. tone_fill sn t pcm m = Some (t', pcm') \<and> length pcm' = 2880 \<and> tone_ok m t' \<and> tn_amplitude t' = tn_amplitude t \<and>
    rtp_l24_build pkt (RTP_HEADER_LEN + REAC_MAX_CHANNELS L * 24 * 3) rtp pcm' m = Some (n, pkt') \<and> 0 < n \<and> length pkt' = 2892 \<and>
    tone_pkt pt ssrc m (tn_amplitude t) j (take (nat n) pkt')"
proof -
  let ?N = "nch_of m" and ?S = "sps_of m"
  note b = mode_ok_nat[OF assms(3)]
  obtain t' g where f: "tone_fill sn t pcm m = Some (t', blit pcm 0 (planar ?N ?S (\<lambda>ch s. enc24 (g ch s))))"
      "\<forall>ch s. \<bar>g ch s\<bar> \<le> tn_amplitude t" "tone_ok m t'" "t' = t\<lparr>tn_phase := tn_phase t'\<rparr>"
    using tone_fill_bounded[OF assms(1,3,4,5), of pcm] b(5) assms(6) by auto
  let ?b = "planar ?N ?S (\<lambda>ch s. enc24 (g ch s))"
  let ?pcm = "blit pcm 0 ?b"
  have lb: "length ?b = ?N * ?S * 3" by (rule length_planar) simp
  have lp: "length ?pcm = 2880" using lb b(5) assms(6) by simp
  have at: "sample_at ?S ?pcm ch s = enc24 (g ch s)" if "ch < ?N" "s < ?S" for ch s
  proof -
    have "sample_at ?S ?pcm ch s = sample_at ?S ?b ch s"
      unfolding sample_at_def using chunk_blit_inside[of 0 ?b pcm "(ch * ?S + s) * 3" 3] lb assms(6) b(5) index_bound3[OF that] by simp
    then show ?thesis using sample_at_planar[of ?N ?S "\<lambda>ch s. enc24 (g ch s)" ch s] that by simp
  qed
  have build: "rtp_l24_build pkt 2892 rtp ?pcm m = Some (12 + n_channels m * samples_per_pkt m * 3, blit pkt 0 (rtp_packet rtp ?pcm 0 ?N ?S))"
    unfolding rtp_l24_build_def
    using build_flow_eq[of 0 "n_channels m" "samples_per_pkt m" "n_channels m" ?pcm 2892 pkt rtp] assms(3,7) b(5) lp
    by (simp add: mode_ok_def)
  let ?pk = "rtp_packet rtp ?pcm 0 ?N ?S"
  have len: "length ?pk = 12 + ?N * ?S * 3" by (rule length_rtp_packet[where nch = ?N]) (use lp b(5) in auto)
  then have n: "nat (12 + n_channels m * samples_per_pkt m * 3) = length ?pk"
    using assms(3) by (simp add: mode_ok_def nat_add_distrib nat_mult_distrib)
  have take: "take (length ?pk) (blit pkt 0 ?pk) = ?pk" by (rule take_blit)
  let ?body = "rtp_payload ?pcm 0 ?N ?S"
  have "parse_rtp ?pk = Some (rtp_view_of rtp, ?body)" by (simp add: rtp_packet_def parse_rtp_header)
  moreover have "length ?body = ?N * ?S * 3" by (rule length_rtp_payload[where nch = ?N]) (use lp b(5) in auto)
  moreover have "sample_at ?N ?body s ch = rev (enc24 (g ch s))" if "s < ?S" "ch < ?N" for s ch
    unfolding rtp_payload_def using sample_at_interleaved[of ?N ?S "\<lambda>fc s. rev (sample_at ?S ?pcm (0 + fc) s)" ch s] at that by simp
  moreover have "\<bar>dec24 (enc24 (g ch s))\<bar> \<le> tn_amplitude t" for ch s
  proof -
    have "\<bar>g ch s\<bar> \<le> tn_amplitude t" "tn_amplitude t \<le> 8388607" using f(2) assms(5) by (simp_all add: tone_ok_def)
    then have "in24 (g ch s)" by (auto simp: in24_def SMAX_def SMIN_def)
    then show ?thesis using f(2) by (simp add: dec24_enc24)
  qed
  ultimately have "tone_pkt pt ssrc m (tn_amplitude t) j ?pk"
    unfolding tone_pkt_def assms(8)[symmetric] by auto
  moreover have "RTP_HEADER_LEN + REAC_MAX_CHANNELS L * 24 * 3 = 2892" using assms(2) by (simp add: RTP_HEADER_LEN_def geometry_simps)
  moreover have "0 < 12 + n_channels m * samples_per_pkt m * 3" using assms(3) by (simp add: mode_ok_def add_pos_pos)
  moreover have "tn_amplitude t' = tn_amplitude t" by (subst f(4)) simp
  moreover have "length (blit pkt 0 ?pk) = 2892" using len b(5) assms(7) by simp
  ultimately show ?thesis using f(1,3) build lp take n by auto
qed

subsection \<open>Pacing\<close>

definition ns_of :: "timespec \<Rightarrow> int" where
  "ns_of t = tv_sec t * 1000000000 + tv_nsec t"

lemma carry_ns_exact: "0 \<le> tv_nsec t \<Longrightarrow> ns_of (carry_ns t) = ns_of t \<and> 0 \<le> tv_nsec (carry_ns t) \<and> tv_nsec (carry_ns t) < 1000000000"
proof (induction t rule: carry_ns.induct)
  case (1 t)
  then show ?case by (subst (1 2 3) carry_ns.simps) (auto simp: ns_of_def)
qed

lemma deadline_after_exact:
  "0 \<le> tv_nsec t \<Longrightarrow> 0 \<le> d \<Longrightarrow> ns_of (deadline_after d t) = ns_of t + d \<and> 0 \<le> tv_nsec (deadline_after d t)"
  using carry_ns_exact[of "t\<lparr>tv_nsec := tv_nsec t + d\<rparr>"] by (simp add: deadline_after_def ns_of_def)

text \<open>
  The clock the stream is paced with: \<open>slept w\<close> are the deadlines slept to so far, in nanoseconds.  A sleep adds one and sends nothing; the
  calls on sockets add none.
\<close>

definition documented_sleep :: "'w env \<Rightarrow> ('w \<Rightarrow> (int \<times> byte list \<times> sockaddr) list) \<Rightarrow> ('w \<Rightarrow> int list) \<Rightarrow> bool" where
  "documented_sleep E sent slept \<longleftrightarrow>
     (\<forall>t w. sent (en_sleep E t w) = sent w \<and> slept (en_sleep E t w) = slept w @ [ns_of t]) \<and>
     (\<forall>fd bs a w. slept (snd (os_sendto (en_os E) fd bs a w)) = slept w)"

lemma documented_sleepD:
  assumes "documented_sleep E sent slept"
  shows "sent (en_sleep E t w) = sent w" "slept (en_sleep E t w) = slept w @ [ns_of t]"
    "slept (snd (aes67_send_packet (en_os E) s p w)) = slept w" "slept (announce_to (en_os E) sap w) = slept w"
  using assms by (auto simp: documented_sleep_def aes67_send_packet_def announce_to_def sap_announce_def split: option.split)

subsection \<open>The loop\<close>

text \<open>The loop sends one packet per round until it is stopped; \<open>j\<close> packets were sent before.\<close>

lemma gen_loop_streams:
  assumes env: "documented_geometry (en_lib E)" "documented_trace (en_os E) sent" "documented_sin sn"
      "\<And>w. en_stop E w = (n \<le> length (media s (sent w)))" "documented_sleep E sent slept"
    and snd: "0 \<le> snd_fd s" "snd_dest s = Some d" "\<forall>sa. sap = Some sa \<longrightarrow> \<not> sa_active sa \<or> snd_fd (sa_snd sa) \<noteq> snd_fd s"
    and pace: "0 \<le> pkt_ns" and nxt: "0 \<le> tv_nsec nxt"
    and m: "mode_ok m" "0 < sample_rate m" and t: "tone_ok m t" "tn_amplitude t = a" and buf: "length pcm = 2880" "length pkt = 2892"
    and rtp: "rtp = \<lparr>rp_payload_type = pt, rp_seq = of_nat j, rp_timestamp = of_nat j * word_of_int (samples_per_pkt m), rp_ssrc = ssrc\<rparr>"
  shows "\<exists>w' pkts. gen_loop E sn m s sap pps pkt_ns t rtp pcm pkt count nxt w = Some w' \<and>
    media s (sent w') = media s (sent w) @ udp_log s pkts \<and> length pkts = n - length (media s (sent w)) \<and> tone_stream pt ssrc m a j pkts \<and>
    slept w' = slept w @ map (\<lambda>k. ns_of nxt + (int k + 1) * pkt_ns) [0..<length pkts]"
  using t buf rtp nxt
proof (induction "n - length (media s (sent w))" arbitrary: t rtp pcm pkt j count nxt w)
  case 0
  then show ?case using env(4)[of w]
    by (subst gen_loop.simps) (auto simp: udp_log_def snd tone_stream_def intro!: exI[of _ "[]"])
next
  case (Suc k)
  obtain t' pcm' r pkt' where p: "tone_fill sn t pcm m = Some (t', pcm')" "length pcm' = 2880" "tone_ok m t'" "tn_amplitude t' = a"
      "rtp_l24_build pkt (RTP_HEADER_LEN + REAC_MAX_CHANNELS (en_lib E) * 24 * 3) rtp pcm' m = Some (r, pkt')" "0 < r" "length pkt' = 2892"
      "tone_pkt pt ssrc m a j (take (nat r) pkt')"
    using tone_packet[OF env(3,1) m Suc.prems(1,3,4,5)] Suc.prems(2) by auto
  let ?p = "take (nat r) pkt'" and ?c = "(count + 1) mod 2 ^ en_long_bits E" and ?nxt = "deadline_after pkt_ns nxt"
  define w1 where "w1 = snd (aes67_send_packet (en_os E) s ?p w)"
  define w2 where "w2 = (if sap \<noteq> None \<and> pps > 0 \<and> ?c mod nat pps = 0 then announce_to (en_os E) sap w1 else w1)"
  define w3 where "w3 = en_sleep E ?nxt w2"
  let ?rtp = "rtp\<lparr>rp_seq := rp_seq rtp + 1\<rparr>\<lparr>rp_timestamp := rp_timestamp rtp + word_of_int (samples_per_pkt m)\<rparr>"
  note D = documented_sleepD[OF env(5)] and dl = deadline_after_exact[OF Suc.prems(6) pace]
  have w1: "media s (sent w1) = media s (sent w) @ udp_log s [?p]"
    by (simp add: w1_def send_packet_trace[OF env(2)] media_append media_log)
  have "media s (sent w2) = media s (sent w1)"
    using snd(3) by (auto simp: w2_def announce_to_def sap_announce_def send_packet_trace[OF env(2)] media_append udp_log_def media_def split: option.split)
  then have w3: "media s (sent w3) = media s (sent w1)" by (simp add: w3_def D(1))
  have slept: "slept w3 = slept w @ [ns_of nxt + pkt_ns]" using dl by (simp add: w3_def w2_def w1_def D)
  have one: "length (udp_log s [?p]) = 1" using snd by (simp add: udp_log_def)
  have rtp: "?rtp = \<lparr>rp_payload_type = pt, rp_seq = of_nat (Suc j), rp_timestamp = of_nat (Suc j) * word_of_int (samples_per_pkt m), rp_ssrc = ssrc\<rparr>"
    using Suc.prems(5) by (simp add: algebra_simps)
  have "k = n - length (media s (sent w3))" using Suc.hyps(2) w1 w3 one by simp
  from Suc.hyps(1)[OF this p(3,4,2,7) rtp conjunct2[OF dl], of ?c] obtain w' pkts where
    rec: "gen_loop E sn m s sap pps pkt_ns t' ?rtp pcm' pkt' ?c ?nxt w3 = Some w'" "media s (sent w') = media s (sent w3) @ udp_log s pkts"
      "length pkts = n - length (media s (sent w3))" "tone_stream pt ssrc m a (Suc j) pkts"
      "slept w' = slept w3 @ map (\<lambda>k. ns_of ?nxt + (int k + 1) * pkt_ns) [0..<length pkts]" by blast
  have run: "\<not> en_stop E w" using env(4)[of w] Suc.hyps(2) by simp
  have "gen_loop E sn m s sap pps pkt_ns t rtp pcm pkt count nxt w = Some w'"
    by (subst gen_loop.simps)
      (simp only: run if_False p(1,5,6) if_True bind.bind_lunit prod.case Let_def w1_def[symmetric] w2_def[symmetric] w3_def[symmetric], simp add: rec(1)[simplified])
  moreover have "media s (sent w') = media s (sent w) @ udp_log s (?p # pkts)"
    using rec(2) w1 w3 udp_log_append[of s "[?p]" pkts] by simp
  moreover have "length (?p # pkts) = n - length (media s (sent w))" using rec(3) w1 w3 one Suc.hyps(2) by simp
  moreover have "slept w' = slept w @ map (\<lambda>k. ns_of nxt + (int k + 1) * pkt_ns) [0..<length (?p # pkts)]"
  proof -
    have "[0..<length (?p # pkts)] = 0 # map Suc [0..<length pkts]" by (simp add: upt_conv_Cons map_Suc_upt del: upt_Suc)
    then show ?thesis using rec(5) slept dl by (simp add: algebra_simps)
  qed
  ultimately show ?case using tone_stream_Cons[OF p(8) rec(4)] by blast
qed

text \<open>
  C13.  The tone mode is one AES67 stream of legal audio.  With a positive frequency, an open sender and a signal that arrives after
  \<open>n\<close> packets, \<open>run_gen_tone\<close> returns 0 and has sent exactly \<open>n\<close> packets on its media socket, numbered 0, 1, 2, \<dots> and stamped one packet's samples apart,
  whose samples never exceed the amplitude of 6000000; and it slept after packet \<open>k\<close> until exactly \<open>k + 1\<close> packet times after it
  started, so that the pace does not drift.  Announcements go out on their own socket.
\<close>

theorem gen_tone_streams:
  assumes env: "documented_geometry (en_lib E)" "documented_trace (en_os E) sent" "documented_sin sn"
      "\<And>w. en_stop E w = (n \<le> length (media s (sent w)))" "documented_sleep E sent slept"
    and snd: "0 \<le> snd_fd s" "snd_dest s = Some d" "\<forall>sa. sap = Some sa \<longrightarrow> \<not> sa_active sa \<or> snd_fd (sa_snd sa) \<noteq> snd_fd s"
    and m: "mode_ok m" "samples_per_pkt m \<le> sample_rate m" "sample_rate m < 2 ^ 31" and t: "tone_ok m (tone_init freq 6000000 detune)"
    and start: "media s (sent w) = []" "0 \<le> tv_nsec (en_mono E w)"
  shows "\<exists>w' pkts. run_gen_tone E sn m s pt ssrc freq detune sap w = Some (0, w') \<and>
    media s (sent w') = udp_log s pkts \<and> length pkts = n \<and> tone_stream pt ssrc m 6000000 0 pkts \<and>
    slept w' = slept w @ map (\<lambda>k. ns_of (en_mono E w) + (int k + 1) * (1000000000 div (sample_rate m div samples_per_pkt m))) [0..<n]"
proof -
  have S: "0 < samples_per_pkt m" using m(1) by (simp add: mode_ok_def)
  let ?pps = "sample_rate m div samples_per_pkt m"
  let ?ns = "1000000000 div ?pps"
  have pps: "0 < ?pps" using S m(2) by (simp add: pos_imp_zdiv_pos_iff)
  have div: "c_div (sample_rate m) (samples_per_pkt m) = Some ?pps" "c_div 1000000000 ?pps = Some ?ns"
    using c_div_pos[of "sample_rate m" "samples_per_pkt m"] c_div_pos[of 1000000000 ?pps] S pps m(2,3) by auto
  have ns: "0 \<le> ?ns" using pps by (simp add: pos_imp_zdiv_nonneg_iff)
  define w1 where "w1 = announce_to (en_os E) sap w"
  have w1: "media s (sent w1) = []" "slept w1 = slept w"
    using snd(3) start documented_sleepD(4)[OF env(5)]
    by (auto simp: w1_def announce_to_def sap_announce_def send_packet_trace[OF env(2)] media_append udp_log_def media_def split: option.split)
  obtain w' pkts where run: "gen_loop E sn m s sap ?pps ?ns (tone_init freq 6000000 detune)
        \<lparr>rp_payload_type = pt, rp_seq = 0, rp_timestamp = 0, rp_ssrc = ssrc\<rparr>
        (replicate 2880 0) (replicate 2892 0) 0 (en_mono E w) w1 = Some w'"
      "media s (sent w') = media s (sent w1) @ udp_log s pkts" "length pkts = n - length (media s (sent w1))" "tone_stream pt ssrc m 6000000 0 pkts"
      "slept w' = slept w1 @ map (\<lambda>k. ns_of (en_mono E w) + (int k + 1) * ?ns) [0..<length pkts]"
    using gen_loop_streams[OF env snd ns start(2) m(1) _ t, of 6000000 "replicate 2880 0" "replicate 2892 0"
        "\<lparr>rp_payload_type = pt, rp_seq = 0, rp_timestamp = 0, rp_ssrc = ssrc\<rparr>" pt 0 ssrc ?pps 0 w1] S m(2) by (auto simp: tone_init_def)
  have "REAC_MAX_CHANNELS (en_lib E) * 24 * 3 = 2880" "RTP_HEADER_LEN + REAC_MAX_CHANNELS (en_lib E) * 24 * 3 = 2892"
    using env(1) by (simp_all add: RTP_HEADER_LEN_def geometry_simps)
  then have "run_gen_tone E sn m s pt ssrc freq detune sap w = Some (0, w')"
    using div run(1) unfolding run_gen_tone_def w1_def Let_def by (simp only: bind.bind_lunit)
  then show ?thesis using run(2-5) w1 by auto
qed

theorem gen_tone_streams_witness:
  "\<exists>w' pkts. run_gen_tone (sample_env\<lparr>en_stop := \<lambda>w. 3 \<le> length (media sample_sender (lw_sent w))\<rparr>) (\<lambda>_. 1) mode_48k sample_sender 97 7 440 10 None log_start
      = Some (0, w') \<and> media sample_sender (lw_sent w') = udp_log sample_sender pkts \<and> length pkts = 3 \<and> tone_stream 97 7 mode_48k 6000000 0 pkts \<and>
     lw_slept w' = [7000250000, 7000500000, 7000750000]"
proof -
  have "tone_ok mode_48k (tone_init 440 6000000 10)"
    using TWO_PI_bounds by (auto simp: tone_ok_def tone_init_def)
  moreover have "documented_sleep (sample_env\<lparr>en_stop := e\<rparr>) lw_sent lw_slept" for e
    by (simp add: documented_sleep_def sample_env_def ns_of_def)
  ultimately show ?thesis
    using gen_tone_streams[of "sample_env\<lparr>en_stop := \<lambda>w. 3 \<le> length (media sample_sender (lw_sent w))\<rparr>" lw_sent "\<lambda>_. 1" 3 sample_sender lw_slept
        "\<lparr>sin_port = 5004, sin_addr = [239, 69, 10, 0]\<rparr>" None mode_48k 440 10 log_start 97 7]
    by (simp add: sample_env_def sample_sender_def documented_sin_def media_def log_start_def ns_of_def upt_rec)
qed

end
