(* ===== verification/Cli_Options.thy ===== *)
theory Cli_Options
  imports Cli_Text
begin

text \<open>
  The command line of the daemon: the option variables of \<open>main\<close> in \<open>src/main.c\<close> as a record with the defaults they are initialised with, and the
  loop over the arguments.  A number out of the range of \<open>int\<close> is undefined for \<open>atoi\<close> and makes the parse \<open>None\<close>; an argument that is
  not known, or an option without its value at the end of the line, is \<open>Inl\<close>.
\<close>

record options =
  op_pcap :: "string option"
  op_iface :: "string option"
  op_udp :: "string option"
  op_name :: "string option"
  op_origin :: string
  op_rate :: int
  op_rate_auto :: bool
  op_do_dump :: bool
  op_do_count :: bool
  op_do_sdp :: bool
  op_ttl :: int
  op_plc_xfade :: int
  op_plc_fade :: int
  op_do_sap :: bool
  op_gen_tone :: bool
  op_tone_freq :: int
  op_tone_detune :: int
  op_iface_egress :: "string option"
  op_pt :: byte
  op_ssrc :: u32
  op_profile_dante :: bool
  op_pt_set :: bool
  op_ptp_domain :: int
  op_ch_per_flow :: int
  op_media_dscp :: int
  op_aes67_base :: string
  op_gmid :: string
  op_rtp_port :: u16
  op_bcast_only :: bool

definition default_options :: options where
  "default_options = \<lparr>op_pcap = None, op_iface = None, op_udp = None, op_name = None, op_origin = ''0.0.0.0'',
     op_rate = 48000, op_rate_auto = False, op_do_dump = False, op_do_count = False, op_do_sdp = False, op_ttl = 1,
     op_plc_xfade = 0, op_plc_fade = 0, op_do_sap = True, op_gen_tone = False, op_tone_freq = 440, op_tone_detune = 0,
     op_iface_egress = None, op_pt = 97, op_ssrc = 0x11223344, op_profile_dante = False, op_pt_set = False, op_ptp_domain = 0,
     op_ch_per_flow = 8, op_media_dscp = 34, op_aes67_base = ''239.69.10.0'', op_gmid = ''00-00-00-00-00-00-00-00'',
     op_rtp_port = 5004, op_bcast_only = False\<rparr>"

text \<open>\<open>strtoul (s, NULL, 16)\<close> for an \<open>unsigned long\<close> of \<open>lb\<close> bits, which is the largest value when the number is too big.\<close>

definition is_xdigit :: "char \<Rightarrow> bool" where
  "is_xdigit c \<longleftrightarrow> is_digit c \<or> 65 \<le> (of_char c :: nat) \<and> (of_char c :: nat) \<le> 70 \<or> 97 \<le> (of_char c :: nat) \<and> (of_char c :: nat) \<le> 102"

definition xdigit_value :: "char \<Rightarrow> nat" where
  "xdigit_value c = (let k = of_char c in if k \<le> 57 then k - 48 else if k \<le> 70 then k - 55 else k - 87)"

definition xdigits_value :: "string \<Rightarrow> nat" where
  "xdigits_value ds = foldl (\<lambda>v c. v * 16 + xdigit_value c) 0 ds"

definition strtoul16 :: "nat \<Rightarrow> string \<Rightarrow> nat" where
  "strtoul16 lb s = (let s = dropWhile is_space s;
     neg = (case s of c # _ \<Rightarrow> c = CHR ''-'' | [] \<Rightarrow> False);
     s = (case s of c # cs \<Rightarrow> if c = CHR ''-'' \<or> c = CHR ''+'' then cs else s | [] \<Rightarrow> []);
     s = (case s of a # b # c # cs \<Rightarrow> if a = CHR ''0'' \<and> (b = CHR ''x'' \<or> b = CHR ''X'') \<and> is_xdigit c then c # cs else s | _ \<Rightarrow> s);
     v = xdigits_value (takeWhile is_xdigit s)
   in if v \<ge> 2 ^ lb then 2 ^ lb - 1 else if neg then (2 ^ lb - v) mod 2 ^ lb else v)"

text \<open>The options with a value, and those without; \<open>None\<close> where the name is not one of them.\<close>

definition value_option :: "nat \<Rightarrow> string \<Rightarrow> string \<Rightarrow> options \<Rightarrow> options option option" where
  "value_option lb a v o' =
     (if a = ''--pcap'' then Some (Some (o'\<lparr>op_pcap := Some v\<rparr>))
      else if a = ''--listen'' then Some (Some (o'\<lparr>op_iface := Some v\<rparr>))
      else if a = ''--udp'' then Some (Some (o'\<lparr>op_udp := Some v\<rparr>))
      else if a = ''--rate'' then Some (if v = ''auto'' then Some (o'\<lparr>op_rate_auto := True\<rparr>)
                                      else do { n \<leftarrow> atoi v; Some (o'\<lparr>op_rate := n\<rparr>) })
      else if a = ''--pt'' then Some (do { n \<leftarrow> atoi v; Some (o'\<lparr>op_pt := word_of_int n, op_pt_set := True\<rparr>) })
      else if a = ''--ssrc'' then Some (Some (o'\<lparr>op_ssrc := of_nat (strtoul16 lb v)\<rparr>))
      else if a = ''--ttl'' then Some (do { n \<leftarrow> atoi v; Some (o'\<lparr>op_ttl := n\<rparr>) })
      else if a = ''--name'' then Some (Some (o'\<lparr>op_name := Some v\<rparr>))
      else if a = ''--origin'' then Some (Some (o'\<lparr>op_origin := v\<rparr>))
      else if a = ''--plc-xfade'' then Some (do { n \<leftarrow> atoi v; Some (o'\<lparr>op_plc_xfade := n\<rparr>) })
      else if a = ''--plc-fade'' then Some (do { n \<leftarrow> atoi v; Some (o'\<lparr>op_plc_fade := n\<rparr>) })
      else if a = ''--tone-freq'' then Some (do { n \<leftarrow> atoi v; Some (o'\<lparr>op_tone_freq := n\<rparr>) })
      else if a = ''--tone-detune'' then Some (do { n \<leftarrow> atoi v; Some (o'\<lparr>op_tone_detune := n\<rparr>) })
      else if a = ''--iface'' then Some (Some (o'\<lparr>op_iface_egress := Some v\<rparr>))
      else if a = ''--profile'' then Some (Some (o'\<lparr>op_profile_dante := (v = ''dante'')\<rparr>))
      else if a = ''--aes67-base'' then Some (Some (o'\<lparr>op_aes67_base := v\<rparr>))
      else if a = ''--rtp-port'' then Some (do { n \<leftarrow> atoi v; Some (o'\<lparr>op_rtp_port := word_of_int n\<rparr>) })
      else if a = ''--ptp-domain'' then Some (do { n \<leftarrow> atoi v; Some (o'\<lparr>op_ptp_domain := n\<rparr>) })
      else if a = ''--gmid'' then Some (Some (o'\<lparr>op_gmid := v\<rparr>))
      else if a = ''--ch-per-flow'' then Some (do { n \<leftarrow> atoi v; Some (o'\<lparr>op_ch_per_flow := n\<rparr>) })
      else if a = ''--media-dscp'' then Some (do { n \<leftarrow> atoi v; Some (o'\<lparr>op_media_dscp := n\<rparr>) })
      else None)"

definition flag_option :: "string \<Rightarrow> options \<Rightarrow> options option" where
  "flag_option a o' =
     (if a = ''--gen-tone'' then Some (o'\<lparr>op_gen_tone := True\<rparr>)
      else if a = ''--no-sap'' then Some (o'\<lparr>op_do_sap := False\<rparr>)
      else if a = ''--sap'' then Some (o'\<lparr>op_do_sap := True\<rparr>)
      else if a = ''--bcast-only'' then Some (o'\<lparr>op_bcast_only := True\<rparr>)
      else if a = ''--dante'' then Some (o'\<lparr>op_profile_dante := True\<rparr>)
      else if a = ''--dump-samples'' then Some (o'\<lparr>op_do_dump := True\<rparr>)
      else if a = ''--count-rtp'' then Some (o'\<lparr>op_do_count := True\<rparr>)
      else if a = ''--print-sdp'' then Some (o'\<lparr>op_do_sdp := True\<rparr>)
      else None)"

text \<open>The loop over the arguments.\<close>

function parse_args :: "nat \<Rightarrow> string list \<Rightarrow> options \<Rightarrow> (string + options) option" where
  "parse_args lb [] o' = Some (Inr o')"
| "parse_args lb (a # as) o' = (case (if as = [] then None else value_option lb a (hd as) o') of
     Some r \<Rightarrow> do { o' \<leftarrow> r; parse_args lb (tl as) o' }
   | None \<Rightarrow> (case flag_option a o' of
       Some o' \<Rightarrow> parse_args lb as o'
     | None \<Rightarrow> Some (Inl a)))"
  by pat_completeness auto
termination by (relation "measure (\<lambda>(lb, as, o'). length as)") auto

subsection \<open>Numbers\<close>

lemma atoi_decimal_int: "- (2 ^ 31) \<le> i \<Longrightarrow> i < 2 ^ 31 \<Longrightarrow> atoi (decimal_int i) = Some i"
proof -
  assume i: "- (2 ^ 31) \<le> i" "i < 2 ^ 31"
  have e: "ends_number []" by (simp add: ends_number_def)
  show ?thesis
  proof (cases "i < 0")
    case True
    let ?d = "decimal (nat (- i))"
    have "takeWhile is_digit ?d = ?d" using decimal_digits by (simp add: takeWhile_eq_all_conv)
    moreover have "\<not> is_space (CHR ''-'')" by (simp add: is_space_def)
    ultimately have "scan_number (CHR ''-'' # ?d) = (True, ?d, dropWhile is_digit ?d)"
      unfolding scan_number_def Let_def by simp
    then show ?thesis using True i by (simp add: atoi_def decimal_int_def c_int_def Let_def)
  next
    case False
    then show ?thesis using atoi_decimal[OF e, of "nat i"] i by (simp add: decimal_int_def)
  qed
qed

text \<open>\<open>%08x\<close>: the digits of a word, most significant first.\<close>

definition xdigit :: "nat \<Rightarrow> char" where
  "xdigit n = char_of (if n < 10 then n + 48 else n + 87)"

primrec hexn :: "nat \<Rightarrow> nat \<Rightarrow> string" where
  "hexn 0 v = []"
| "hexn (Suc n) v = hexn n (v div 16) @ [xdigit (v mod 16)]"

lemma xdigit_simps [simp]: "n < 16 \<Longrightarrow> is_xdigit (xdigit n)" "n < 16 \<Longrightarrow> xdigit_value (xdigit n) = n" "n < 16 \<Longrightarrow> \<not> is_space (xdigit n)"
    "n < 16 \<Longrightarrow> xdigit n \<noteq> CHR ''-''" "n < 16 \<Longrightarrow> xdigit n \<noteq> CHR ''+''" "n < 16 \<Longrightarrow> xdigit n \<noteq> CHR ''x''" "n < 16 \<Longrightarrow> xdigit n \<noteq> CHR ''X''"
proof -
  have v: "(of_char (xdigit n) :: nat) = (if n < 10 then n + 48 else n + 87)" if "n < 16" for n
    using that by (simp add: xdigit_def)
  show "n < 16 \<Longrightarrow> is_xdigit (xdigit n)" "n < 16 \<Longrightarrow> xdigit_value (xdigit n) = n" "n < 16 \<Longrightarrow> \<not> is_space (xdigit n)"
    by (auto simp: is_xdigit_def is_digit_def xdigit_value_def is_space_def v Let_def)
  have "(of_char (xdigit n) :: nat) \<noteq> of_char c" if "n < 16" "c \<in> {CHR ''-'', CHR ''+'', CHR ''x'', CHR ''X''}" for c
    using that by (auto simp: v)
  then show "n < 16 \<Longrightarrow> xdigit n \<noteq> CHR ''-''" "n < 16 \<Longrightarrow> xdigit n \<noteq> CHR ''+''" "n < 16 \<Longrightarrow> xdigit n \<noteq> CHR ''x''"
    "n < 16 \<Longrightarrow> xdigit n \<noteq> CHR ''X''" by fastforce+
qed

lemma length_hexn [simp]: "length (hexn n v) = n"
  by (induction n arbitrary: v) auto

lemma hexn_digits: "c \<in> set (hexn n v) \<Longrightarrow> \<exists>k < 16. c = xdigit k"
proof (induction n arbitrary: v)
  case (Suc n)
  have "\<exists>k < 16. xdigit (v mod 16) = xdigit k" by (rule exI[of _ "v mod 16"]) simp
  with Suc show ?case by auto
qed simp

lemma xdigits_hexn: "xdigits_value (hexn n v) = v mod 16 ^ n"
proof (induction n arbitrary: v)
  case (Suc n)
  have "xdigits_value (hexn (Suc n) v) = xdigits_value (hexn n (v div 16)) * 16 + v mod 16"
    by (simp add: xdigits_value_def)
  also have "\<dots> = v mod 16 ^ Suc n" using Suc[of "v div 16"] mod_mult2_eq[of v 16 "16 ^ n"] by simp
  finally show ?case .
qed (simp add: xdigits_value_def)

lemma strtoul16_hex:
  assumes "32 \<le> lb" and "v < 2 ^ 32"
  shows "strtoul16 lb (hexn 8 v) = v"
proof -
  obtain a b c r where h: "hexn 8 v = a # b # c # r"
    by (cases "hexn 8 v"; cases "tl (hexn 8 v)"; cases "tl (tl (hexn 8 v))") (use length_hexn[of 8 v] in auto)
  have d: "\<exists>k < 16. x = xdigit k" if "x \<in> set (hexn 8 v)" for x using hexn_digits that by blast
  have "a \<in> set (hexn 8 v)" "b \<in> set (hexn 8 v)" by (simp_all add: h)
  then have ab: "\<not> is_space a" "a \<noteq> CHR ''-''" "a \<noteq> CHR ''+''" "b \<noteq> CHR ''x''" "b \<noteq> CHR ''X''"
    using d xdigit_simps by metis+
  have tw: "takeWhile is_xdigit (hexn 8 v) = hexn 8 v" unfolding takeWhile_eq_all_conv using d xdigit_simps(1) by metis
  have "v mod 16 ^ 8 = v" using assms(2) by simp
  then have val: "xdigits_value (hexn 8 v) = v" using xdigits_hexn[of 8 v] by simp
  have "v < 2 ^ lb" using assms by (meson less_le_trans one_le_numeral power_increasing)
  then show ?thesis using ab tw[unfolded h] val[unfolded h] unfolding strtoul16_def h Let_def by simp
qed

subsection \<open>Printing a configuration\<close>

text \<open>The arguments that set every option.\<close>

definition opt_args :: "string \<Rightarrow> string option \<Rightarrow> string list" where
  "opt_args a v = (case v of None \<Rightarrow> [] | Some x \<Rightarrow> [a, x])"

definition flag_args :: "string \<Rightarrow> bool \<Rightarrow> string list" where
  "flag_args a b = (if b then [a] else [])"

definition render :: "options \<Rightarrow> string list" where
  "render o' = opt_args ''--pcap'' (op_pcap o') @ opt_args ''--listen'' (op_iface o') @ opt_args ''--udp'' (op_udp o') @
     opt_args ''--name'' (op_name o') @ [''--origin'', op_origin o'] @ [''--rate'', decimal_int (op_rate o')] @
     opt_args ''--rate'' (if op_rate_auto o' then Some ''auto'' else None) @ flag_args ''--dump-samples'' (op_do_dump o') @
     flag_args ''--count-rtp'' (op_do_count o') @ flag_args ''--print-sdp'' (op_do_sdp o') @ [''--ttl'', decimal_int (op_ttl o')] @
     [''--plc-xfade'', decimal_int (op_plc_xfade o')] @ [''--plc-fade'', decimal_int (op_plc_fade o')] @ flag_args ''--no-sap'' (\<not> op_do_sap o') @
     flag_args ''--gen-tone'' (op_gen_tone o') @ [''--tone-freq'', decimal_int (op_tone_freq o')] @
     [''--tone-detune'', decimal_int (op_tone_detune o')] @ opt_args ''--iface'' (op_iface_egress o') @
     opt_args ''--pt'' (if op_pt_set o' then Some (decimal_int (uint (op_pt o'))) else None) @ [''--ssrc'', hexn 8 (unat (op_ssrc o'))] @
     flag_args ''--dante'' (op_profile_dante o') @ [''--ptp-domain'', decimal_int (op_ptp_domain o')] @
     [''--ch-per-flow'', decimal_int (op_ch_per_flow o')] @ [''--media-dscp'', decimal_int (op_media_dscp o')] @
     [''--aes67-base'', op_aes67_base o'] @ [''--gmid'', op_gmid o'] @ [''--rtp-port'', decimal_int (uint (op_rtp_port o'))] @
     flag_args ''--bcast-only'' (op_bcast_only o')"

text \<open>A configuration the command line can express: its numbers are \<open>int\<close>s, and a payload type that was not given is the default.\<close>

definition expressible :: "options \<Rightarrow> bool" where
  "expressible o' \<longleftrightarrow> (\<forall>i \<in> {op_rate o', op_ttl o', op_plc_xfade o', op_plc_fade o', op_tone_freq o', op_tone_detune o', op_ptp_domain o',
       op_ch_per_flow o', op_media_dscp o'}. - (2 ^ 31) \<le> i \<and> i < 2 ^ 31) \<and> (\<not> op_pt_set o' \<longrightarrow> op_pt o' = 97)"

text \<open>One step of the parse per option, in the form in which the arguments are printed.\<close>

lemma parse_opt:
  assumes "\<And>x. value_option lb a x o1 = Some (Some (f (Some x)))" and "f None = o1"
  shows "parse_args lb (opt_args a v @ as) o1 = parse_args lb as (f v)"
  using assms by (cases v) (simp_all add: opt_args_def)

lemma parse_flag:
  assumes "flag_option a o1 = Some (f True)" and "\<And>v. value_option lb a v o1 = None" and "f False = o1"
  shows "parse_args lb (flag_args a b @ as) o1 = parse_args lb as (f b)"
  using assms by (simp add: flag_args_def)

lemma parse_texts:
  "op_pcap o1 = None \<Longrightarrow> parse_args lb (opt_args ''--pcap'' v @ as) o1 = parse_args lb as (o1\<lparr>op_pcap := v\<rparr>)"
  "op_iface o1 = None \<Longrightarrow> parse_args lb (opt_args ''--listen'' v @ as) o1 = parse_args lb as (o1\<lparr>op_iface := v\<rparr>)"
  "op_udp o1 = None \<Longrightarrow> parse_args lb (opt_args ''--udp'' v @ as) o1 = parse_args lb as (o1\<lparr>op_udp := v\<rparr>)"
  "op_name o1 = None \<Longrightarrow> parse_args lb (opt_args ''--name'' v @ as) o1 = parse_args lb as (o1\<lparr>op_name := v\<rparr>)"
  "op_iface_egress o1 = None \<Longrightarrow> parse_args lb (opt_args ''--iface'' v @ as) o1 = parse_args lb as (o1\<lparr>op_iface_egress := v\<rparr>)"
  by (rule parse_opt; simp add: value_option_def)+

lemma parse_strings:
  "parse_args lb (''--origin'' # x # as) o1 = parse_args lb as (o1\<lparr>op_origin := x\<rparr>)"
  "parse_args lb (''--aes67-base'' # x # as) o1 = parse_args lb as (o1\<lparr>op_aes67_base := x\<rparr>)"
  "parse_args lb (''--gmid'' # x # as) o1 = parse_args lb as (o1\<lparr>op_gmid := x\<rparr>)"
  by (simp_all add: value_option_def)

lemma parse_switches:
  "\<not> op_do_dump o1 \<Longrightarrow> parse_args lb (flag_args ''--dump-samples'' b @ as) o1 = parse_args lb as (o1\<lparr>op_do_dump := b\<rparr>)"
  "\<not> op_do_count o1 \<Longrightarrow> parse_args lb (flag_args ''--count-rtp'' b @ as) o1 = parse_args lb as (o1\<lparr>op_do_count := b\<rparr>)"
  "\<not> op_do_sdp o1 \<Longrightarrow> parse_args lb (flag_args ''--print-sdp'' b @ as) o1 = parse_args lb as (o1\<lparr>op_do_sdp := b\<rparr>)"
  "\<not> op_gen_tone o1 \<Longrightarrow> parse_args lb (flag_args ''--gen-tone'' b @ as) o1 = parse_args lb as (o1\<lparr>op_gen_tone := b\<rparr>)"
  "\<not> op_profile_dante o1 \<Longrightarrow> parse_args lb (flag_args ''--dante'' b @ as) o1 = parse_args lb as (o1\<lparr>op_profile_dante := b\<rparr>)"
  "\<not> op_bcast_only o1 \<Longrightarrow> parse_args lb (flag_args ''--bcast-only'' b @ as) o1 = parse_args lb as (o1\<lparr>op_bcast_only := b\<rparr>)"
  by (rule parse_flag; simp add: flag_option_def value_option_def)+

lemma parse_no_sap:
  "op_do_sap o1 \<Longrightarrow> parse_args lb (flag_args ''--no-sap'' (\<not> b) @ as) o1 = parse_args lb as (o1\<lparr>op_do_sap := b\<rparr>)"
  using parse_flag[of "''--no-sap''" o1 "\<lambda>x. o1\<lparr>op_do_sap := \<not> x\<rparr>" lb "\<not> b" as] by (simp add: flag_option_def value_option_def)

lemma decimal_not_auto: "decimal_int i \<noteq> ''auto''"
  using decimal_digits[of "nat i"] by (cases "decimal (nat i)") (auto simp: decimal_int_def is_digit_def)

lemma parse_numbers:
  assumes "- (2 ^ 31) \<le> i" and "i < 2 ^ 31"
  shows "parse_args lb (''--rate'' # decimal_int i # as) o1 = parse_args lb as (o1\<lparr>op_rate := i\<rparr>)"
    "parse_args lb (''--ttl'' # decimal_int i # as) o1 = parse_args lb as (o1\<lparr>op_ttl := i\<rparr>)"
    "parse_args lb (''--plc-xfade'' # decimal_int i # as) o1 = parse_args lb as (o1\<lparr>op_plc_xfade := i\<rparr>)"
    "parse_args lb (''--plc-fade'' # decimal_int i # as) o1 = parse_args lb as (o1\<lparr>op_plc_fade := i\<rparr>)"
    "parse_args lb (''--tone-freq'' # decimal_int i # as) o1 = parse_args lb as (o1\<lparr>op_tone_freq := i\<rparr>)"
    "parse_args lb (''--tone-detune'' # decimal_int i # as) o1 = parse_args lb as (o1\<lparr>op_tone_detune := i\<rparr>)"
    "parse_args lb (''--ptp-domain'' # decimal_int i # as) o1 = parse_args lb as (o1\<lparr>op_ptp_domain := i\<rparr>)"
    "parse_args lb (''--ch-per-flow'' # decimal_int i # as) o1 = parse_args lb as (o1\<lparr>op_ch_per_flow := i\<rparr>)"
    "parse_args lb (''--media-dscp'' # decimal_int i # as) o1 = parse_args lb as (o1\<lparr>op_media_dscp := i\<rparr>)"
  using atoi_decimal_int[OF assms] decimal_not_auto[of i] by (simp_all add: value_option_def)

lemma parse_words:
  "parse_args lb (''--rtp-port'' # decimal_int (uint p) # as) o1 = parse_args lb as (o1\<lparr>op_rtp_port := p\<rparr>)"
  "32 \<le> lb \<Longrightarrow> parse_args lb (''--ssrc'' # hexn 8 (unat x) # as) o1 = parse_args lb as (o1\<lparr>op_ssrc := x\<rparr>)"
  "\<not> op_rate_auto o1 \<Longrightarrow> parse_args lb (opt_args ''--rate'' (if b then Some ''auto'' else None) @ as) o1 = parse_args lb as (o1\<lparr>op_rate_auto := b\<rparr>)"
  "\<not> op_pt_set o1 \<Longrightarrow> op_pt o1 = 97 \<Longrightarrow> (\<not> b \<Longrightarrow> t = 97) \<Longrightarrow>
     parse_args lb (opt_args ''--pt'' (if b then Some (decimal_int (uint t)) else None) @ as) o1 = parse_args lb as (o1\<lparr>op_pt := t, op_pt_set := b\<rparr>)"
proof -
  have "uint p < 65536" "uint t < 256" using uint_lt2p[of p] uint_lt2p[of t] by simp_all
  then have n: "atoi (decimal_int (uint p)) = Some (uint p)" "atoi (decimal_int (uint t)) = Some (uint t)"
    using atoi_decimal_int[of "uint p"] atoi_decimal_int[of "uint t"] order_trans[of "- 2147483648" 0 "uint p"] order_trans[of "- 2147483648" 0 "uint t"]
    by simp_all
  show "parse_args lb (''--rtp-port'' # decimal_int (uint p) # as) o1 = parse_args lb as (o1\<lparr>op_rtp_port := p\<rparr>)"
    using n by (simp add: value_option_def)
  show "32 \<le> lb \<Longrightarrow> parse_args lb (''--ssrc'' # hexn 8 (unat x) # as) o1 = parse_args lb as (o1\<lparr>op_ssrc := x\<rparr>)"
    using strtoul16_hex[of lb "unat x"] unat_bound(3)[of x] by (simp add: value_option_def)
  show "\<not> op_rate_auto o1 \<Longrightarrow> parse_args lb (opt_args ''--rate'' (if b then Some ''auto'' else None) @ as) o1 = parse_args lb as (o1\<lparr>op_rate_auto := b\<rparr>)"
    by (cases b; cases o1) (simp_all add: opt_args_def value_option_def)
  show "\<not> op_pt_set o1 \<Longrightarrow> op_pt o1 = 97 \<Longrightarrow> (\<not> b \<Longrightarrow> t = 97) \<Longrightarrow>
     parse_args lb (opt_args ''--pt'' (if b then Some (decimal_int (uint t)) else None) @ as) o1 = parse_args lb as (o1\<lparr>op_pt := t, op_pt_set := b\<rparr>)"
    using n by (cases b; cases o1) (simp_all add: opt_args_def value_option_def)
qed

lemma parse_render:
  assumes "expressible o'" and "32 \<le> lb"
  shows "parse_args lb (render o' @ rest) default_options = parse_args lb rest o'"
proof -
  have e: "\<not> op_pt_set o' \<Longrightarrow> op_pt o' = 97" using assms(1) by (simp add: expressible_def)
  have eq: "o' = \<lparr>op_pcap = op_pcap o', op_iface = op_iface o', op_udp = op_udp o', op_name = op_name o', op_origin = op_origin o',
      op_rate = op_rate o', op_rate_auto = op_rate_auto o', op_do_dump = op_do_dump o', op_do_count = op_do_count o', op_do_sdp = op_do_sdp o',
      op_ttl = op_ttl o', op_plc_xfade = op_plc_xfade o', op_plc_fade = op_plc_fade o', op_do_sap = op_do_sap o', op_gen_tone = op_gen_tone o',
      op_tone_freq = op_tone_freq o', op_tone_detune = op_tone_detune o', op_iface_egress = op_iface_egress o', op_pt = op_pt o',
      op_ssrc = op_ssrc o', op_profile_dante = op_profile_dante o', op_pt_set = op_pt_set o', op_ptp_domain = op_ptp_domain o',
      op_ch_per_flow = op_ch_per_flow o', op_media_dscp = op_media_dscp o', op_aes67_base = op_aes67_base o', op_gmid = op_gmid o',
      op_rtp_port = op_rtp_port o', op_bcast_only = op_bcast_only o'\<rparr>" by simp
  show ?thesis
    using assms unfolding render_def append_assoc append_Cons append_Nil
    by (subst (29) eq, simp add: parse_texts parse_strings parse_switches parse_no_sap parse_words e parse_numbers expressible_def default_options_def del: parse_args.simps append_Nil2)
qed



end
