(* ===== verification/Cli_Main.thy ===== *)
theory Cli_Main
  imports Dante_Stream Tone Cli_Options
begin

text \<open>
  The program: \<open>dump_samples\<close> and \<open>main\<close> of \<open>src/main.c\<close>, from the arguments to the exit status and the text on the standard output.  The
  parameters are the outside world of \<open>Daemon\<close>, the sine of the C library, and the contents of the uninitialised structures on the stack.
\<close>

abbreviation newline :: string where "newline \<equiv> [CHR 0x0A]"

definition dump_frame :: "libreac \<Rightarrow> reac_mode \<Rightarrow> int \<times> byte list \<times> string \<Rightarrow> byte list \<Rightarrow> nat \<Rightarrow> (int \<times> byte list \<times> string) option" where
  "dump_frame L mode = (\<lambda>(frame, pcm, out) buf n. do {
     (ns, pcm) \<leftarrow> reac_decode L buf n mode pcm;
     k \<leftarrow> c_int (frame + 1);
     if ns < 0 then Some (k, pcm, out @ ''frame '' @ decimal_int frame @ '': MALFORMED'' @ newline)
     else do {
       f \<leftarrow> reac_frame_inspect L buf n mode;
       total \<leftarrow> c_int (n_channels mode * ns);
       line \<leftarrow> forn (nat total) (\<lambda>i line. do {
           v \<leftarrow> load24 pcm (i * 3);
           Some (line @ '' '' @ decimal_int v)
         }) (''frame '' @ decimal_int frame @ '' seq '' @ decimal_int (uint (fr_counter f)) @ '':'');
       Some (k, pcm, out @ line @ newline)
     }
   })"

definition dump_samples :: "'w env \<Rightarrow> pcap_source \<Rightarrow> string \<Rightarrow> reac_mode \<Rightarrow> (int \<times> string) option" where
  "dump_samples E ps path mode = do {
     (rc, ps) \<leftarrow> pcap_source_open (en_fopen E path) ps;
     if rc \<noteq> 0 then Some (1, [])
     else do {
       (n, ps, frame, pcm, out) \<leftarrow> pcap_loop (en_long_bits E) (dump_frame (en_lib E) mode) ps (replicate 2048 0) 2048
          (0, replicate (REAC_MAX_CHANNELS (en_lib E) * 24 * 3) 0, []);
       let ps = pcap_source_close ps;
       Some (0, out)
     }
   }"

text \<open>The parts of \<open>main\<close>, in the order in which it tries them.\<close>

definition dante_defaults :: "options \<Rightarrow> options" where
  "dante_defaults o' = (if op_profile_dante o'
     then (let o' = (if op_rate o' \<noteq> 48000 then o'\<lparr>op_rate := 48000\<rparr> else o')
           in if \<not> op_pt_set o' then o'\<lparr>op_pt := 96\<rparr> else o')
     else o')"

definition auto_rate :: "'w env \<Rightarrow> options \<Rightarrow> 'w \<Rightarrow> int \<times> 'w" where
  "auto_rate E o' w =
     (if op_rate_auto o' \<and> \<not> op_profile_dante o' then
        (case op_iface o' of
           None \<Rightarrow> (op_rate o', w)
         | Some ifname \<Rightarrow>
             (let (rc, dc, w) = reac_capture_open (en_os E) ifname w in
              if rc = 0 then
                (let (d, w) = en_detect E (cap_fd dc) 1500 w; (_, w) = reac_capture_close (en_os E) dc w
                 in (if d > 0 then d else op_rate o', w))
              else (op_rate o', w)))
      else (op_rate o', w))"

definition dante_cfg_of :: "options \<Rightarrow> bool \<Rightarrow> bool \<Rightarrow> dante_cfg" where
  "dante_cfg_of o' count_only do_sap =
     \<lparr>dc_base_ip = op_aes67_base o', dc_rtp_port = op_rtp_port o', dc_ch_per_flow = op_ch_per_flow o', dc_pt = op_pt o',
      dc_ssrc_base = op_ssrc o', dc_ttl = op_ttl o', dc_iface_egress = op_iface_egress o', dc_name = op_name o', dc_origin = op_origin o',
      dc_gmid = op_gmid o', dc_ptp_domain = op_ptp_domain o', dc_media_dscp = op_media_dscp o', dc_count_only = count_only, dc_do_sap = do_sap\<rparr>"

fun print_flows :: "options \<Rightarrow> reac_mode \<Rightarrow> string \<Rightarrow> reac_flow list \<Rightarrow> nat list \<Rightarrow> string \<Rightarrow> (int \<times> string) option" where
  "print_flows o' mode gmstr flows [] out = Some (0, out)"
| "print_flows o' mode gmstr flows (i # is) out = do {
     (rc, fip) \<leftarrow> ipv4_add_octet (op_aes67_base o') (int i) (replicate 64 0) 64;
     if rc \<noteq> 0 then Some (2, out)
     else do {
       ip \<leftarrow> c_string fip;
       fl \<leftarrow> rd flows i;
       (n, buf) \<leftarrow> sdp_build (replicate 1024 0) 1024 (dante_flow_sdp (dante_cfg_of o' False False) mode gmstr ip fl i);
       if n < 0 then Some (1, out)
       else do {
         txt \<leftarrow> c_string buf;
         print_flows o' mode gmstr flows is (out @ ''# flow '' @ decimal i @ ''  '' @ ip @ ''  ch '' @ decimal_int (fl_ch_start fl) @ ''-'' @
           decimal_int (fl_ch_start fl + fl_n_ch fl - 1) @ crlf @ txt @ crlf)
       }
     }
   }"

definition print_dante_sdp :: "'w env \<Rightarrow> reac_flow list \<Rightarrow> options \<Rightarrow> reac_mode \<Rightarrow> (int \<times> string) option" where
  "print_dante_sdp E flows0 o' mode = do {
     (nf, flows) \<leftarrow> dante_build_flows flows0 (int (REAC_MAX_CHANNELS (en_lib E))) (n_channels mode) (op_ch_per_flow o') (op_pt o') (op_ssrc o');
     if nf < 0 then Some (2, [])
     else print_flows o' mode (truncated 80 (op_gmid o' @ '':'' @ decimal_int (op_ptp_domain o'))) flows [0..<nat nf] []
   }"

definition stream_sdp :: "options \<Rightarrow> reac_mode \<Rightarrow> string \<Rightarrow> u16 \<Rightarrow> sdp_params" where
  "stream_sdp o' mode ip port =
     \<lparr>sp_session_name = (case op_name o' of None \<Rightarrow> ''REAC'' | Some s \<Rightarrow> s), sp_origin_ip = op_origin o', sp_mcast_ip = ip,
      sp_mcast_port = uint port, sp_payload_type = uint (op_pt o'), sp_rate = sample_rate mode, sp_channels = n_channels mode,
      sp_ttl = op_ttl o', sp_ptime_ms = 0, sp_ts_refclk = None, sp_mediaclk_direct = 0\<rparr>"

definition print_sdp :: "options \<Rightarrow> reac_mode \<Rightarrow> (int \<times> string) option" where
  "print_sdp o' mode = (case op_udp o' of
     None \<Rightarrow> Some (2, [])
   | Some u \<Rightarrow> do {
       (prc, ip, port) \<leftarrow> parse_ipport u (replicate 64 0) 64 0;
       if prc \<noteq> 0 then Some (2, [])
       else do {
         host \<leftarrow> c_string ip;
         (n, buf) \<leftarrow> sdp_build (replicate 1024 0) 1024 (stream_sdp o' mode host port);
         if n < 0 then Some (1, [])
         else do { txt \<leftarrow> c_string buf; Some (0, txt) }
       }
     })"

definition count_rtp ::
  "'w env \<Rightarrow> pcap_source \<Rightarrow> packetizer \<Rightarrow> reac_flow list \<Rightarrow> options \<Rightarrow> reac_mode \<Rightarrow> 'w \<Rightarrow> (int \<times> string \<times> 'w) option" where
  "count_rtp E ps pk0 flows0 o' mode w = (case op_pcap o' of
     None \<Rightarrow> Some (2, [], w)
   | Some path \<Rightarrow>
       if op_profile_dante o' then run_dante E ps pk0 flows0 (Some path) None mode (dante_cfg_of o' True False) w
       else do {
         (rc, c) \<leftarrow> run_pcap E ps path mode emit_count (op_pt o') (op_ssrc o') \<lparr>ct_total = 0, ct_concealed = 0\<rparr>;
         Some (rc, ''rtp_packets '' @ decimal_int (ct_total c) @ '' concealed '' @ decimal_int (ct_concealed c) @ newline, w)
       })"

definition tone_session ::
  "'w env \<Rightarrow> (rat \<Rightarrow> rat) \<Rightarrow> options \<Rightarrow> reac_mode \<Rightarrow> aes67_sender \<Rightarrow> string \<Rightarrow> u16 \<Rightarrow> 'w \<Rightarrow> (int \<times> 'w) option" where
  "tone_session E sn o' mode s host port w = do {
     let sap = \<lparr>sa_snd = \<lparr>snd_fd = 0, snd_dest = None\<rparr>, sa_pkt = replicate 1024 0, sa_len = 0, sa_active = False\<rparr>;
     (src, sap, w) \<leftarrow> (if op_do_sap o'
        then sap_announcer_start (en_os E) (en_calloc E w) sap (op_name o') host port (uint (op_pt o')) (sample_rate mode)
               (n_channels mode) (op_ttl o') (Some (op_origin o')) (op_iface_egress o') w
        else Some (0, sap, w));
     (rc, w) \<leftarrow> run_gen_tone E sn mode s (op_pt o') (op_ssrc o') (op_tone_freq o') (op_tone_detune o') (if sa_active sap then Some sap else None) w;
     let (_, w) = sap_announcer_stop (en_os E) sap w;
     Some (rc, w)
   }"

definition send_udp ::
  "'w env \<Rightarrow> (rat \<Rightarrow> rat) \<Rightarrow> pcap_source \<Rightarrow> options \<Rightarrow> reac_mode \<Rightarrow> string \<Rightarrow> 'w \<Rightarrow> (int \<times> 'w) option" where
  "send_udp E sn ps o' mode udp w = do {
     (prc, ip, port) \<leftarrow> parse_ipport udp (replicate 64 0) 64 0;
     if prc \<noteq> 0 then Some (2, w)
     else do {
       host \<leftarrow> c_string ip;
       let (orc, s, w) = aes67_send_open (en_os E) (en_calloc E w) host port (op_ttl o') (op_iface_egress o') w;
       if orc \<noteq> 0 then Some (1, w)
       else do {
         let (_, w) = aes67_send_set_dscp (en_os E) s (op_media_dscp o') w;
         (rc, w) \<leftarrow> (if op_gen_tone o' then tone_session E sn o' mode s host port w
           else case op_iface o' of
             Some ifname \<Rightarrow> run_listen E (op_bcast_only o') ifname mode s (op_pt o') (op_ssrc o') (op_name o') (Some udp)
                (Some (hexn 8 (unat (op_ssrc o')))) (op_plc_xfade o') (op_plc_fade o') (op_ttl o') (op_do_sap o') (Some (op_origin o'))
                (op_iface_egress o') w
           | None \<Rightarrow> (case op_pcap o' of
               Some path \<Rightarrow> run_pcap E ps path mode (emit_udp (en_os E) s) (op_pt o') (op_ssrc o') w
             | None \<Rightarrow> Some (2, w)));
         Some (rc, snd (aes67_send_close (en_os E) s w))
       }
     }
   }"

definition run_mode ::
  "'w env \<Rightarrow> (rat \<Rightarrow> rat) \<Rightarrow> pcap_source \<Rightarrow> packetizer \<Rightarrow> reac_flow list \<Rightarrow> options \<Rightarrow> reac_mode \<Rightarrow> 'w \<Rightarrow> (int \<times> string \<times> 'w) option" where
  "run_mode E sn ps pk0 flows0 o' mode w =
     (if op_do_sdp o' \<and> op_profile_dante o' then do { (rc, out) \<leftarrow> print_dante_sdp E flows0 o' mode; Some (rc, out, w) }
      else if op_do_sdp o' then do { (rc, out) \<leftarrow> print_sdp o' mode; Some (rc, out, w) }
      else if op_do_dump o' then (case op_pcap o' of
          None \<Rightarrow> Some (2, [], w)
        | Some path \<Rightarrow> do { (rc, out) \<leftarrow> dump_samples E ps path mode; Some (rc, out, w) })
      else if op_do_count o' then count_rtp E ps pk0 flows0 o' mode w
      else if op_profile_dante o' then
        (if op_pcap o' = None \<and> op_iface o' = None then Some (2, [], w)
         else run_dante E ps pk0 flows0 (op_pcap o') (op_iface o') mode (dante_cfg_of o' False (op_do_sap o')) w)
      else (case op_udp o' of
          Some udp \<Rightarrow> do { (rc, w) \<leftarrow> send_udp E sn ps o' mode udp w; Some (rc, [], w) }
        | None \<Rightarrow> Some (2, [], w)))"

definition main_with ::
  "'w env \<Rightarrow> (rat \<Rightarrow> rat) \<Rightarrow> pcap_source \<Rightarrow> packetizer \<Rightarrow> reac_flow list \<Rightarrow> options \<Rightarrow> 'w \<Rightarrow> (int \<times> string \<times> 'w) option" where
  "main_with E sn ps pk0 flows0 o' w = (
     let o' = dante_defaults o'; (rate, w) = auto_rate E o' w; mode = reac_mode_for (en_lib E) rate
     in run_mode E sn ps pk0 flows0 o' mode w)"

definition daemon_main ::
  "'w env \<Rightarrow> (rat \<Rightarrow> rat) \<Rightarrow> pcap_source \<Rightarrow> packetizer \<Rightarrow> reac_flow list \<Rightarrow> string list \<Rightarrow> 'w \<Rightarrow> (int \<times> string \<times> 'w) option" where
  "daemon_main E sn ps pk0 flows0 args w = do {
     r \<leftarrow> parse_args (en_long_bits E) args default_options;
     (case r of
        Inl a \<Rightarrow> Some (2, [], w)
      | Inr o' \<Rightarrow> main_with E sn ps pk0 flows0 o' w)
   }"

subsection \<open>Descriptors\<close>

text \<open>The rate detection of libreac and \<open>clock_nanosleep\<close> leave the descriptors alone.\<close>

definition documented_libs :: "'w env \<Rightarrow> ('w \<Rightarrow> int set) \<Rightarrow> bool" where
  "documented_libs E fds \<longleftrightarrow> (\<forall>fd ms w. fds (snd (en_detect E fd ms w)) = fds w) \<and> (\<forall>t w. fds (en_sleep E t w) = fds w)"


lemma gen_loop_fds:
  assumes "gen_loop E sn m s sap pps pkt_ns tn rtp pcm pkt count nxt w = Some w'" and "documented_fds (en_os E) fds" and "documented_libs E fds"
  shows "fds w' = fds w"
proof -
  let ?P = "\<lambda>E (sn :: rat \<Rightarrow> rat) (m :: reac_mode) (s :: aes67_sender) (sap :: sap_announcer option) (pps :: int) (pkt_ns :: int) (tn :: tone)
      (rtp :: rtp_params) (pcm :: byte list) (pkt :: byte list) (count :: nat) (nxt :: timespec) w w'.
      documented_fds (en_os E) fds \<longrightarrow> documented_libs E fds \<longrightarrow> fds w' = fds w"
  have "?P E sn m s sap pps pkt_ns tn rtp pcm pkt count nxt w w'"
    using assms(1)
  proof (rule gen_loop.raw_induct[where P = ?P, rotated], intro impI)
    fix f :: "'a env \<Rightarrow> (rat \<Rightarrow> rat) \<Rightarrow> reac_mode \<Rightarrow> aes67_sender \<Rightarrow> sap_announcer option \<Rightarrow> int \<Rightarrow> int \<Rightarrow> tone \<Rightarrow> rtp_params \<Rightarrow> byte list \<Rightarrow>
        byte list \<Rightarrow> nat \<Rightarrow> timespec \<Rightarrow> 'a \<Rightarrow> 'a option" and E sn m s sap pps pkt_ns tn rtp pcm pkt count nxt w w'
    assume IH: "\<And>E sn m s sap pps pkt_ns tn rtp pcm pkt count nxt w w'. f E sn m s sap pps pkt_ns tn rtp pcm pkt count nxt w = Some w' \<Longrightarrow>
          ?P E sn m s sap pps pkt_ns tn rtp pcm pkt count nxt w w'"
      and K: "documented_fds (en_os E) fds" and Q: "documented_libs E fds"
      and step: "(if en_stop E w then Some w
      else do {
        (tn, pcm) \<leftarrow> tone_fill sn tn pcm m;
        (n, pkt) \<leftarrow> rtp_l24_build pkt (RTP_HEADER_LEN + REAC_MAX_CHANNELS (en_lib E) * 24 * 3) rtp pcm m;
        let w = (if n > 0 then snd (aes67_send_packet (en_os E) s (take (nat n) pkt) w) else w);
        let rtp = rtp\<lparr>rp_seq := rp_seq rtp + 1\<rparr>;
        let rtp = rtp\<lparr>rp_timestamp := rp_timestamp rtp + word_of_int (samples_per_pkt m)\<rparr>;
        let count = (count + 1) mod 2 ^ en_long_bits E;
        let w = (if sap \<noteq> None \<and> pps > 0 \<and> count mod nat pps = 0 then announce_to (en_os E) sap w else w);
        let nxt = deadline_after pkt_ns nxt;
        let w = en_sleep E nxt w;
        f E sn m s sap pps pkt_ns tn rtp pcm pkt count nxt w
      }) = Some w'"
    show "fds w' = fds w"
    proof (cases "en_stop E w")
      case True
      then show ?thesis using step by simp
    next
      case False
      note step' = step[unfolded if_not_P[OF False]]
      obtain tn1 pcm1 where t: "tone_fill sn tn pcm m = Some (tn1, pcm1)" using step' by (rule bind_some2)
      note step2 = step'[unfolded t bind.bind_lunit prod.case]
      obtain n pkt1 where b: "rtp_l24_build pkt (RTP_HEADER_LEN + REAC_MAX_CHANNELS (en_lib E) * 24 * 3) rtp pcm1 m = Some (n, pkt1)"
        using step2 by (rule bind_some2)
      show ?thesis
        using IH[OF step2[unfolded b bind.bind_lunit prod.case Let_def]] K Q
        by (simp add: documented_libs_def announce_to_def send_packet_fds[OF K] sap_announce_fds[OF K] split: option.splits if_splits)
    qed
  qed
  then show ?thesis using assms(2,3) by blast
qed

lemma tone_session_fds:
  assumes K: "documented_fds (en_os E) fds" and Q: "documented_libs E fds" and "tone_session E sn o' m s host port w = Some (rc, w')"
  shows "fds w' = fds w"
proof -
  let ?K = "en_os E"
  let ?sap = "\<lparr>sa_snd = \<lparr>snd_fd = 0, snd_dest = None\<rparr>, sa_pkt = replicate 1024 0, sa_len = 0, sa_active = False\<rparr>"
  obtain src sap w1 where a: "(if op_do_sap o'
        then sap_announcer_start ?K (en_calloc E w) ?sap (op_name o') host port (uint (op_pt o')) (sample_rate m)
               (n_channels m) (op_ttl o') (Some (op_origin o')) (op_iface_egress o') w
        else Some (0, ?sap, w)) = Some (src, sap, w1)"
    using assms(3) unfolding tone_session_def Let_def by (rule bind_some3)
  have act: "if sa_active sap then 0 \<le> snd_fd (sa_snd sap) \<and> snd_fd (sa_snd sap) \<notin> fds w \<and> fds w1 = insert (snd_fd (sa_snd sap)) (fds w)
      else fds w1 = fds w"
    using a announcer_start_fds[OF K] by (cases "op_do_sap o'") (auto split del: if_split)
  note step = assms(3)[unfolded tone_session_def Let_def a bind.bind_lunit prod.case]
  obtain rc2 w2 where g: "run_gen_tone E sn m s (op_pt o') (op_ssrc o') (op_tone_freq o') (op_tone_detune o') (if sa_active sap then Some sap else None) w1
      = Some (rc2, w2)" using step by (rule bind_some2)
  have "fds w2 = fds w1"
    using g gen_loop_fds[OF _ K Q] sap_announce_fds[OF K]
    by (auto simp: run_gen_tone_def bind_eq_Some_conv announce_to_def Let_def split: option.splits if_splits)
  moreover have "w' = snd (sap_announcer_stop ?K sap w2)"
    using step[unfolded g bind.bind_lunit prod.case] by (simp add: case_prod_unfold)
  ultimately show ?thesis
    using act announcer_stop_fds[OF K, of sap w2] by (cases "sa_active sap") (simp_all add: sap_announcer_stop_def)
qed

lemma run_pcap_fds:
  assumes K: "documented_fds (en_os E) fds" and "run_pcap E ps path m (emit_udp (en_os E) s) pt ssrc w = Some (rc, w')"
  shows "fds w' = fds w"
proof -
  let ?body = "\<lambda>(pl, st) buf n. do { (rc, pl, st) \<leftarrow> pipeline_on_frame (en_lib E) pl buf n (emit_udp (en_os E) s) st; Some (pl, st) }"
  let ?Q = "\<lambda>t. fds (snd t) = fds w \<and> pl_pcm_sink (fst t) = None"
  have keep: "?Q t'" if Q: "?Q t" and run: "?body t buf n = Some t'" for t t' buf n
  proof -
    obtain rc where "pipeline_on_frame (en_lib E) (fst t) buf n (emit_udp (en_os E) s) (snd t) = Some (rc, fst t', snd t')"
      using run by (cases "pipeline_on_frame (en_lib E) (fst t) buf n (emit_udp (en_os E) s) (snd t)") (auto simp: case_prod_unfold)
    from udp.on_frame_keeps[OF this, of fds "fds w"] Q K show ?thesis by simp
  qed
  obtain orc ps1 where o: "pcap_source_open (en_fopen E path) ps = Some (orc, ps1)"
    using assms(2) by (cases "pcap_source_open (en_fopen E path) ps") (auto simp: run_pcap_def)
  show ?thesis
  proof (cases "orc = 0")
    case False
    then show ?thesis using assms(2) o by (simp add: run_pcap_def)
  next
    case True
    then obtain r where r: "pcap_loop (en_long_bits E) ?body ps1 (replicate 2048 0) 2048 (pipeline_init (en_lib E) m pt ssrc, w) = Some r"
        "w' = snd (snd (snd r))"
      using assms(2) o
      by (cases "pcap_loop (en_long_bits E) ?body ps1 (replicate 2048 0) 2048 (pipeline_init (en_lib E) m pt ssrc, w)") (auto simp: run_pcap_def)
    from pcap_loop_keeps[where Q = ?Q, OF r(1) keep] show ?thesis by (simp add: r(2) pipeline_init_def pipeline_init_ex_def)
  qed
qed

lemma auto_rate_fds:
  assumes "documented_fds (en_os E) fds" and "documented_libs E fds"
  shows "fds (snd (auto_rate E o' w)) = fds w"
proof (cases "op_iface o'")
  case (Some ifname)
  let ?K = "en_os E"
  obtain rc dc w1 where o: "reac_capture_open ?K ifname w = (rc, dc, w1)" by (metis prod.collapse)
  have cl: "fds (snd (reac_capture_close ?K dc v)) = fds w" if "rc = 0" "fds v = fds w1" for v
    using capture_fds[OF assms(1) o prod.collapse[symmetric]] documented_fdsD(3)[OF assms(1)] that by (auto simp: reac_capture_close_def)
  have "fds w1 = fds w" if "rc \<noteq> 0" using capture_fds[OF assms(1) o prod.collapse[symmetric]] that by simp
  then show ?thesis
    using Some o cl assms(2) by (auto simp: auto_rate_def case_prod_unfold Let_def documented_libs_def)
qed (simp add: auto_rate_def)

lemma send_udp_fds:
  assumes K: "documented_fds (en_os E) fds" and Q: "documented_libs E fds" and "send_udp E sn ps o' m udp w = Some (rc, w')"
  shows "fds w' = fds w"
proof -
  let ?K = "en_os E"
  obtain prc ip port where p: "parse_ipport udp (replicate 64 0) 64 0 = Some (prc, ip, port)"
    using assms(3) unfolding send_udp_def by (rule bind_some3)
  note step = assms(3)[unfolded send_udp_def p bind.bind_lunit prod.case]
  show ?thesis
  proof (cases "prc = 0")
    case True
    then obtain host where h: "c_string ip = Some host" using step by (cases "c_string ip") simp_all
    obtain orc s w1 where o: "aes67_send_open ?K (en_calloc E w) host port (op_ttl o') (op_iface_egress o') w = (orc, s, w1)" by (metis prod.collapse)
    note op = send_open_fds[OF K o]
    show ?thesis
    proof (cases "orc = 0")
      case False
      then show ?thesis using step True h o op by simp
    next
      case T: True
      define w2 where "w2 = snd (aes67_send_set_dscp ?K s (op_media_dscp o') w1)"
      have w2: "fds w2 = insert (snd_fd s) (fds w)" "snd_fd s \<notin> fds w" "0 \<le> snd_fd s" using op T send_dscp_fds[OF K] by (simp_all add: w2_def)
      obtain w3 where run: "(if op_gen_tone o' then tone_session E sn o' m s host port w2
           else case op_iface o' of
             Some ifname \<Rightarrow> run_listen E (op_bcast_only o') ifname m s (op_pt o') (op_ssrc o') (op_name o') (Some udp)
                (Some (hexn 8 (unat (op_ssrc o')))) (op_plc_xfade o') (op_plc_fade o') (op_ttl o') (op_do_sap o') (Some (op_origin o'))
                (op_iface_egress o') w2
           | None \<Rightarrow> (case op_pcap o' of
               Some path \<Rightarrow> run_pcap E ps path m (emit_udp ?K s) (op_pt o') (op_ssrc o') w2
             | None \<Rightarrow> Some (2, w2))) = Some (rc, w3)"
          and w': "w' = snd (aes67_send_close ?K s w3)"
        using step True h o T unfolding w2_def by (auto simp: bind_eq_Some_conv case_prod_unfold Let_def cong: if_cong option.case_cong)
      have "fds w3 = fds w2"
        using run tone_session_fds[OF K Q] run_listen_fds[OF K] run_pcap_fds[OF K] by (auto split: if_splits option.splits)
      then show ?thesis using w2 by (simp add: w' send_close_fds[OF K])
    qed
  qed (use step in simp)
qed

lemma run_mode_fds:
  assumes K: "documented_fds (en_os E) fds" and Q: "documented_libs E fds" and run: "run_mode E sn ps pk0 flows0 o' m w = Some (rc, out, w')"
  shows "fds w' = fds w"
proof -
  have count: "fds v = fds w" if "count_rtp E ps pk0 flows0 o' m w = Some (rc, out, v)" for v
    using that run_dante_fds[OF K] by (auto simp: count_rtp_def bind_eq_Some_conv split: option.splits if_splits)
  show ?thesis
    using run count run_dante_fds[OF K] send_udp_fds[OF K Q]
    by (auto simp: run_mode_def bind_eq_Some_conv split: if_splits option.splits)
qed


subsection \<open>Replaying a capture from the command line\<close>

text \<open>The configurations that replay a capture file to one stream.\<close>

definition replays :: "options \<Rightarrow> string \<Rightarrow> string \<Rightarrow> nat \<Rightarrow> bool" where
  "replays o' path host n \<longleftrightarrow> expressible o' \<and> op_pcap o' = Some path \<and> op_iface o' = None \<and> op_udp o' = Some (host @ '':'' @ decimal n) \<and>
     \<not> op_do_sdp o' \<and> \<not> op_do_dump o' \<and> \<not> op_do_count o' \<and> \<not> op_profile_dante o' \<and> \<not> op_gen_tone o' \<and>
     no_nul host \<and> host \<noteq> [] \<and> length host < 64 \<and> 0 < n \<and> n < 65536"

lemma main_of_render:
  assumes "expressible o'" and "32 \<le> en_long_bits E" and "\<not> op_profile_dante o'" and "op_iface o' = None \<or> \<not> op_rate_auto o'"
  shows "daemon_main E sn ps pk0 flows0 (render o') w = run_mode E sn ps pk0 flows0 o' (reac_mode_for (en_lib E) (op_rate o')) w"
  using parse_render[OF assms(1,2), of "[]"] assms(3,4)
  by (auto simp: daemon_main_def main_with_def dante_defaults_def auto_rate_def)

lemma replay_main:
  assumes o: "replays o' path host n" and lb: "32 \<le> en_long_bits E"
    and opn: "aes67_send_open (en_os E) (en_calloc E w) host (of_nat n) (op_ttl o') (op_iface_egress o') w = (0, s, w1)"
    and run: "run_pcap E ps path (reac_mode_for (en_lib E) (op_rate o')) (emit_udp (en_os E) s) (op_pt o') (op_ssrc o')
      (snd (aes67_send_set_dscp (en_os E) s (op_media_dscp o') w1)) = Some (rc, w2)"
  shows "daemon_main E sn ps pk0 flows0 (render o') w = Some (rc, [], snd (aes67_send_close (en_os E) s w2))"
proof -
  have p: "parse_ipport (host @ '':'' @ decimal n) (replicate 64 0) 64 0 = Some (0, bytes_of host @ 0 # drop (length host + 1) (replicate 64 0), of_nat n)"
    using o parse_ipport_text[of "replicate 64 0" 64 n host 0] by (simp add: replays_def Let_def)
  have c: "c_string (bytes_of host @ 0 # drop (length host + 1) (replicate 64 0)) = Some host"
    using o by (intro c_string_text) (simp add: replays_def)
  have "send_udp E sn ps o' (reac_mode_for (en_lib E) (op_rate o')) (host @ '':'' @ decimal n) w = Some (rc, snd (aes67_send_close (en_os E) s w2))"
    unfolding send_udp_def p bind.bind_lunit prod.case
    using o run by (simp add: replays_def case_prod_unfold c[simplified] opn Let_def)
  then show ?thesis
    using main_of_render[OF _ lb, of o' sn ps pk0 flows0 w] o by (simp add: replays_def run_mode_def)
qed

text \<open>
  C8.  The command line that replays a capture does what it says.  For every configuration of this mode, with any further options, the program
  started with its arguments opens one sender for the host and the port given, sends to it, and nowhere else, one stream with the payload type and source
  identifier given, whose packets that are not concealment carry in order the audio of exactly the records that are REAC frames, each after as many
  concealed packets as the media clock finds lost, prints nothing and exits with status 0.
\<close>

theorem replay_program:
  assumes "documented_geometry (en_lib E)" and "documented_modes (en_lib E)" and "documented_trace (en_os E) sent"
    and "replays o' path host n" and "32 \<le> en_long_bits E"
    and "en_fopen E path = Some f" and "capture_file (en_long_bits E) rs f"
    and "aes67_send_open (en_os E) (en_calloc E w) host (of_nat n) (op_ttl o') (op_iface_egress o') w = (0, s, w1)"
  shows "\<exists>w' log a. daemon_main E sn ps pk0 flows0 (render o') w = Some (0, [], w') \<and>
    os_inet_pton (en_os E) host = Some a \<and> snd_dest s = Some \<lparr>sin_port = of_nat n, sin_addr = a\<rparr> \<and>
    sent w' = sent w @ udp_log s (map fst log) \<and> rtp_stream (op_pt o') (op_ssrc o') 0 (reac_mode_for (en_lib E) (op_rate o')) log \<and>
    map (\<lambda>x. drop 12 (fst x)) (filter (\<lambda>x. \<not> snd x) log)
      = map (wire_audio_be (reac_mode_for (en_lib E) (op_rate o'))) (reac_records (filter (\<lambda>b. length b \<le> 2048) (map pr_body rs))) \<and>
    map snd log = conceal_flags (snd (clock_run (media_clock_init (samples_per_pkt (reac_mode_for (en_lib E) (op_rate o'))))
      (map frame_counter (reac_records (filter (\<lambda>b. length b \<le> 2048) (map pr_body rs))))))"
proof -
  let ?K = "en_os E" and ?m = "reac_mode_for (en_lib E) (op_rate o')"
  note C = send_control[OF documented_traceD(3)[OF assms(3)]]
  define w2 where "w2 = snd (aes67_send_set_dscp ?K s (op_media_dscp o') w1)"
  have w2: "sent w2 = sent w" using C(1)[OF assms(8)] C(2) by (simp add: w2_def)
  obtain w3 log where run: "run_pcap E ps path ?m (emit_udp ?K s) (op_pt o') (op_ssrc o') w2 = Some (0, w3)"
      "sent w3 = sent w2 @ udp_log s (map fst log)" and log: "rtp_stream (op_pt o') (op_ssrc o') 0 ?m log"
      "map (\<lambda>x. drop 12 (fst x)) (filter (\<lambda>x. \<not> snd x) log) = map (wire_audio_be ?m) (reac_records (filter (\<lambda>b. length b \<le> 2048) (map pr_body rs)))"
      "map snd log = conceal_flags (snd (clock_run (media_clock_init (samples_per_pkt ?m))
        (map frame_counter (reac_records (filter (\<lambda>b. length b \<le> 2048) (map pr_body rs))))))"
    using pcap_to_udp[OF assms(1) documented_mode_ok[OF assms(2)] assms(3,6,7), of ps "op_rate o'" s "op_pt o'" "op_ssrc o'" w2] by blast
  note main = replay_main[OF assms(4,5,8) run(1)[unfolded w2_def]]
  obtain a where "os_inet_pton ?K host = Some a" "snd_dest s = Some \<lparr>sin_port = of_nat n, sin_addr = a\<rparr>"
    using send_open_dest[OF assms(8)] by blast
  moreover have "sent (snd (aes67_send_close ?K s w3)) = sent w @ udp_log s (map fst log)" using run(2) w2 C(3) by simp
  ultimately show ?thesis using main log by blast
qed

definition sample_options :: "string \<Rightarrow> options" where
  "sample_options path = default_options\<lparr>op_pcap := Some path, op_udp := Some (dotted 239 69 10 0 @ '':'' @ decimal 5004)\<rparr>"

lemma sample_replays: "replays (sample_options path) path (dotted 239 69 10 0) 5004"
  by (simp add: replays_def sample_options_def default_options_def expressible_def dotted_sample)

lemma sample_main_open:
  "aes67_send_open (en_os sample_env) (en_calloc sample_env log_start) (dotted 239 69 10 0) (of_nat 5004) (op_ttl (sample_options path))
     (op_iface_egress (sample_options path)) log_start
   = (0, sample_sender, log_start\<lparr>lw_fds := {3}, lw_next := 4\<rparr>)"
proof -
  have "op_iface_egress (sample_options path) = None" by (simp add: sample_options_def default_options_def)
  then show ?thesis using sample_open(1) by (simp add: sample_env_def sample_sender_def)
qed

theorem replay_program_witness:
  "\<exists>w' log. daemon_main sample_env (\<lambda>_. 0) undefined undefined [] (render (sample_options ''stage.pcap'')) log_start = Some (0, [], w') \<and>
     lw_sent w' = udp_log sample_sender (map fst log) \<and>
     map (\<lambda>x. drop 12 (fst x)) (filter (\<lambda>x. \<not> snd x) log) = [wire_audio_be mode_48k sample_frame]"
proof -
  let ?rs = "[sample_rec, sample_rec\<lparr>pr_body := sample_frame\<rparr>]"
  have e: "documented_geometry (en_lib sample_env)" "documented_modes (en_lib sample_env)" "documented_trace (en_os sample_env) lw_sent"
      "32 \<le> en_long_bits sample_env" "en_fopen sample_env ''stage.pcap'' = Some sample_file"
      "capture_file (en_long_bits sample_env) ?rs sample_file"
    using sample_file_ok by (simp_all add: sample_env_def)
  have m: "reac_mode_for (en_lib sample_env) (op_rate (sample_options ''stage.pcap'')) = mode_48k"
    by (simp add: sample_env_def sample_options_def default_options_def libreac_doc_def)
  from replay_program[OF e(1-3) sample_replays e(4-6) sample_main_open, of "\<lambda>_. 0" undefined undefined "[]", unfolded sample_records m]
  show ?thesis by (elim exE conjE) (intro exI conjI, assumption, simp_all add: log_start_def)
qed


subsection \<open>Counting and dumping a capture\<close>

lemma emit_list_count:
  assumes "0 \<le> ct_concealed c" and "ct_concealed c \<le> ct_total c" and "ct_total c + int (length ps) < 2 ^ 31"
  shows "emit_list emit_count ps c
    = Some \<lparr>ct_total = ct_total c + int (length ps), ct_concealed = ct_concealed c + int (length (filter snd ps))\<rparr>"
  using assms by (induction ps arbitrary: c) (auto simp: emit_count_def c_int_def)

text \<open>
  C28.  The packet count of a capture is right.  For a capture of fewer than 65536 REAC frames \<open>--count-rtp\<close> exits with status 0 and prints the number of
  packets, one for each REAC frame and one for each packet that the media clock finds lost, and the number of the latter.
\<close>

theorem count_rtp_counts:
  assumes "documented_geometry (en_lib E)" and "mode_ok m" and "en_fopen E path = Some f" and "capture_file (en_long_bits E) rs f"
    and "bs = reac_records (filter (\<lambda>b. length b \<le> 2048) (map pr_body rs))" and "length bs < 65536"
    and "op_pcap o' = Some path" and "\<not> op_profile_dante o'"
    and "lost = lost_packets (snd (clock_run (media_clock_init (samples_per_pkt m)) (map frame_counter bs)))"
  shows "count_rtp E ps pk0 flows0 o' m w
    = Some (0, ''rtp_packets '' @ decimal (length bs + lost) @ '' concealed '' @ decimal lost @ newline, w)"
proof -
  let ?c = "\<lparr>ct_total = 0, ct_concealed = 0\<rparr>" and ?sts = "snd (clock_run (media_clock_init (samples_per_pkt m)) (map frame_counter bs))"
  obtain log where run: "run_pcap E ps path m emit_count (op_pt o') (op_ssrc o') ?c = do { c \<leftarrow> emit_list emit_count log ?c; Some (0, c) }"
      and log: "map snd log = conceal_flags ?sts" "length log \<le> 32768 * length bs"
    using run_pcap_packets[OF assms(1-5), where 'c = counters and ps = ps and pt = "op_pt o'" and ssrc = "op_ssrc o'"] by blast
  have "length log = length bs + lost" using arg_cong[OF log(1), of length] by (simp add: flags_counts assms(9))
  moreover have "length (filter snd log) = lost"
    using arg_cong[OF log(1), of "\<lambda>xs. length (filter id xs)"] by (simp add: flags_counts assms(9) filter_map o_def)
  ultimately have "emit_list emit_count log ?c = Some \<lparr>ct_total = int (length bs + lost), ct_concealed = int lost\<rparr>"
    using emit_list_count[of ?c log] log(2) assms(6) by simp
  then show ?thesis using run assms(7,8) by (simp add: count_rtp_def decimal_int_def nat_add_distrib)
qed

theorem count_rtp_counts_witness:
  "count_rtp sample_env undefined undefined [] ((sample_options ''stage.pcap'')\<lparr>op_do_count := True\<rparr>) mode_48k log_start
     = Some (0, ''rtp_packets '' @ decimal 1 @ '' concealed '' @ decimal 0 @ newline, log_start)"
proof -
  let ?rs = "[sample_rec, sample_rec\<lparr>pr_body := sample_frame\<rparr>]"
  have e: "documented_geometry (en_lib sample_env)" "en_fopen sample_env ''stage.pcap'' = Some sample_file"
      "capture_file (en_long_bits sample_env) ?rs sample_file"
    using sample_file_ok by (simp_all add: sample_env_def)
  have l: "0 = lost_packets (snd (clock_run (media_clock_init (samples_per_pkt mode_48k)) (map frame_counter [sample_frame])))"
    by (simp add: lost_packets_def media_clock_init_def media_clock_init_anchored_def media_clock_on_packet_def)
  show ?thesis
    using count_rtp_counts[OF e(1) mode_48k_ok e(2,3) sample_records[symmetric] _ _ _ l, of "(sample_options ''stage.pcap'')\<lparr>op_do_count := True\<rparr>"]
    by (simp add: sample_options_def default_options_def)
qed

text \<open>The line \<open>--dump-samples\<close> prints for record number \<open>k\<close>.\<close>

definition dump_line :: "reac_mode \<Rightarrow> nat \<Rightarrow> byte list \<Rightarrow> string" where
  "dump_line m k b = ''frame '' @ decimal k @
     (if well_formed b (length b)
      then '' seq '' @ decimal (unat (frame_counter b)) @ '':'' @
        concat (map (\<lambda>i. '' '' @ decimal_int (dec24 (wire_sample m b (i div sps_of m) (i mod sps_of m)))) [0..<nch_of m * sps_of m])
      else '': MALFORMED'') @ newline"

lemma decimal_int_nat [simp]: "decimal_int (int n) = decimal n"
  by (simp add: decimal_int_def)

lemma dump_row:
  assumes "mode_ok m" and "1492 \<le> length raw" and "nch_of m * sps_of m * 3 \<le> length pcm"
  shows "forn (nch_of m * sps_of m) (\<lambda>i line. do { v \<leftarrow> load24 (blit pcm 0 (decoded_pcm m raw)) (i * 3); Some (line @ '' '' @ decimal_int v) }) start
    = Some (start @ concat (map (\<lambda>i. '' '' @ decimal_int (dec24 (wire_sample m raw (i div sps_of m) (i mod sps_of m)))) [0..<nch_of m * sps_of m]))"
proof -
  let ?N = "nch_of m" and ?S = "sps_of m" and ?d = "decoded_pcm m raw"
  have len: "length ?d = ?N * ?S * 3" using assms(1,2) by simp
  have S: "0 < ?S" by (rule mode_ok_nat(3)[OF assms(1)])
  have "load24 (blit pcm 0 ?d) (i * 3) = Some (dec24 (wire_sample m raw (i div ?S) (i mod ?S)))" if "i < ?N * ?S" for i
  proof -
    have idx: "i div ?S < ?N" "i mod ?S < ?S" using that S by (simp_all add: less_mult_imp_div_less)
    have "chunk (blit pcm 0 ?d) (i * 3) 3 = chunk ?d (i * 3) 3"
      using chunk_blit_inside[of 0 ?d pcm "i * 3" 3] len that assms(3) by simp
    also have "\<dots> = sample_at ?S ?d (i div ?S) (i mod ?S)" by (simp add: sample_at_def)
    also have "\<dots> = wire_sample m raw (i div ?S) (i mod ?S)"
      unfolding decoded_pcm_def using idx assms(1,2) by (intro sample_at_planar) auto
    finally show ?thesis using load24_eq[of "i * 3" "blit pcm 0 ?d"] len that assms(3) by simp
  qed
  then have "forn n (\<lambda>i line. do { v \<leftarrow> load24 (blit pcm 0 ?d) (i * 3); Some (line @ '' '' @ decimal_int v) }) start
      = Some (start @ concat (map (\<lambda>i. '' '' @ decimal_int (dec24 (wire_sample m raw (i div ?S) (i mod ?S)))) [0..<n]))" if "n \<le> ?N * ?S" for n
    using that by (induction n) simp_all
  then show ?thesis by simp
qed

lemma dump_line_take:
  assumes "mode_ok m" and "n \<le> length b"
  shows "dump_line m k (take n b) = ''frame '' @ decimal k @
     (if well_formed b n
      then '' seq '' @ decimal (unat (frame_counter b)) @ '':'' @
        concat (map (\<lambda>i. '' '' @ decimal_int (dec24 (wire_sample m b (i div sps_of m) (i mod sps_of m)))) [0..<nch_of m * sps_of m])
      else '': MALFORMED'') @ newline"
proof -
  let ?N = "nch_of m" and ?S = "sps_of m"
  have wf: "well_formed (take n b) (length (take n b)) = well_formed b n" using well_formed_take[OF assms(2)] assms(2) by simp
  have S: "0 < ?S" by (rule mode_ok_nat(3)[OF assms(1)])
  have w: "wire_sample m (take n b) (i div ?S) (i mod ?S) = wire_sample m b (i div ?S) (i mod ?S)" if "i < ?N * ?S" "1492 \<le> n" for i
  proof -
    have "i div ?S < ?N" "i mod ?S < ?S" using that S by (simp_all add: less_mult_imp_div_less)
    then have "50 + (i mod ?S * ?N + i div ?S) * 3 + 3 \<le> n"
      using wire_sample_bound[OF assms(1), of "take n b"] that(2) assms(2) by fastforce
    then show ?thesis by (simp add: wire_sample_def chunk_def drop_take min_def)
  qed
  have c: "frame_counter (take n b) = frame_counter b" if "1492 \<le> n" using that by (simp add: frame_counter_def)
  show ?thesis
  proof (cases "well_formed b n")
    case True
    then have "1492 \<le> n" by (simp add: well_formed_def)
    then show ?thesis using True wf w c unfolding dump_line_def by (auto intro!: arg_cong[where f = concat])
  qed (use wf in \<open>simp add: dump_line_def\<close>)
qed

lemma dump_frame_line:
  assumes "documented_geometry L" and "mode_ok m" and "n \<le> length b" and "length pcm = 2880" and "k < 2147483647"
  shows "\<exists>pcm'. dump_frame L m (int k, pcm, out) b n = Some (int (Suc k), pcm', out @ dump_line m k (take n b)) \<and> length pcm' = 2880"
proof (cases "well_formed b n")
  case False
  then show ?thesis
    using decode_invalid[OF assms(1,3) False] assms(4,5) by (simp add: dump_frame_def dump_line_take[OF assms(2,3)] c_int_def add.commute)
next
  case True
  have fits: "nch_of m * sps_of m * 3 \<le> length pcm" using mode_ok_nat(5)[OF assms(2)] assms(4) by simp
  have raw: "1492 \<le> length b" using True assms(3) by (simp add: well_formed_def)
  have pos: "0 < samples_per_pkt m" "0 < n_channels m" "n_channels m * samples_per_pkt m * 3 \<le> 1440" using assms(2) by (simp_all add: mode_ok_def)
  have total: "c_int (n_channels m * samples_per_pkt m) = Some (n_channels m * samples_per_pkt m)"
      "nat (n_channels m * samples_per_pkt m) = nch_of m * sps_of m"
    using pos(3) order_less_imp_le[OF mult_pos_pos[OF pos(2,1)]] pos(2) by (auto simp: c_int_def nat_mult_distrib)
  have u: "decimal_int (uint (frame_counter b)) = decimal (unat (frame_counter b))" by (metis decimal_int_nat uint_nat)
  show ?thesis
    using decode_valid[OF assms(1-3) True fits] inspect_eq[OF assms(1,3), of m] True pos(1) total dump_row[OF assms(2) raw fits] assms(4,5) fits raw
    by (simp add: dump_frame_def dump_line_take[OF assms(2,3)] c_int_def[of "1 + int k"] add.commute u assms(2))
qed

lemma dump_feed:
  assumes "documented_geometry L" and "mode_ok m" and "\<forall>fr \<in> set frs. snd fr \<le> length (fst fr)" and "length pcm = 2880" and "k + length frs < 2 ^ 31"
  shows "\<exists>pcm'. feed (dump_frame L m) frs (int k, pcm, out) = Some (int (k + length frs), pcm',
    out @ concat (map2 (dump_line m) [k..<k + length frs] (map (\<lambda>fr. take (snd fr) (fst fr)) frs)))"
  using assms(3-)
proof (induction frs arbitrary: k pcm out)
  case (Cons fr frs)
  obtain pcm1 where p: "dump_frame L m (int k, pcm, out) (fst fr) (snd fr) = Some (int (Suc k), pcm1, out @ dump_line m k (take (snd fr) (fst fr)))"
      "length pcm1 = 2880"
    using dump_frame_line[OF assms(1,2), of "snd fr" "fst fr" pcm k out] Cons.prems by auto
  have "[k..<k + length (fr # frs)] = k # [Suc k..<Suc k + length frs]" by (simp add: upt_rec)
  then show ?case using Cons.IH[of pcm1 "Suc k" "out @ dump_line m k (take (snd fr) (fst fr))"] Cons.prems p by auto
qed simp



end
